(* ===== verification/Prelude.thy ===== *)
theory Prelude
  imports Main "HOL-Library.Word"
begin

text \<open>
  Shared vocabulary of the development: the machine integers of the kernel, the outcome
  of Rust code that may panic, bounds-checked indexing and slicing, little-endian
  encoding of integers, and the searches over fixed arrays of \<^verbatim>\<open>Option\<close> slots that the
  kernel's static tables use. \<open>u64\<close> addresses and registers are words of their width;
  \<open>usize\<close> values that only ever index an array or count bytes are \<open>nat\<close>.
  The kernel is built with the \<^verbatim>\<open>dev\<close> profile (\<^verbatim>\<open>build.sh\<close>), so an arithmetic
  operation that overflows panics; the \<open>_chk\<close> operations below write that out, and a
  source operation spelled \<^verbatim>\<open>wrapping_add\<close> is the plain word operation. In the same profile
  the pointer functions of \<^verbatim>\<open>core\<close> check their arguments and panic (\<open>Bad_Pointer\<close>).
\<close>

unbundle bit_operations_syntax

section \<open>Machine integers and outcomes\<close>

type_synonym u8 = "8 word"
type_synonym u16 = "16 word"
type_synonym u32 = "32 word"
type_synonym u64 = "64 word"
type_synonym i64 = int
type_synonym bytes = "u8 list"

named_theorems res_simps \<open>evaluation of code that may panic\<close>
named_theorems chk_defs \<open>definitions of the checked operations\<close>

text \<open>Why a panic happened. Every panic ends in the same handler, which logs and halts.\<close>

datatype panic = Arith_Overflow | Out_Of_Bounds | Expect_Failed | Assert_Failed | Bad_Pointer

type_synonym 'a res = "panic + 'a"

definition bind_res :: "'e + 'a \<Rightarrow> ('a \<Rightarrow> 'e + 'b) \<Rightarrow> 'e + 'b" where
  "bind_res m f = (case m of Inl e \<Rightarrow> Inl e | Inr x \<Rightarrow> f x)"

definition map_res :: "('a \<Rightarrow> 'b) \<Rightarrow> 'e + 'a \<Rightarrow> 'e + 'b" where
  "map_res f m = (case m of Inl e \<Rightarrow> Inl e | Inr x \<Rightarrow> Inr (f x))"

definition panics :: "'a res \<Rightarrow> bool" where
  "panics m \<longleftrightarrow> (case m of Inl _ \<Rightarrow> True | Inr _ \<Rightarrow> False)"

subsection \<open>Checked arithmetic\<close>

definition add_chk :: "'a::len word \<Rightarrow> 'a word \<Rightarrow> 'a word res" where
  "add_chk a b = (if unat a + unat b < 2 ^ LENGTH('a) then Inr (a + b) else Inl Arith_Overflow)"

definition sub_chk :: "'a::len word \<Rightarrow> 'a word \<Rightarrow> 'a word res" where
  "sub_chk a b = (if b \<le> a then Inr (a - b) else Inl Arith_Overflow)"

definition mul_chk :: "'a::len word \<Rightarrow> 'a word \<Rightarrow> 'a word res" where
  "mul_chk a b = (if unat a * unat b < 2 ^ LENGTH('a) then Inr (a * b) else Inl Arith_Overflow)"

definition checked_add :: "u64 \<Rightarrow> u64 \<Rightarrow> u64 option" where
  "checked_add a b = (if unat a + unat b < 2 ^ 64 then Some (a + b) else None)"

definition saturating_sub :: "u64 \<Rightarrow> u64 \<Rightarrow> u64" where
  "saturating_sub a b = (if b \<le> a then a - b else 0)"

definition usize_chk :: "nat \<Rightarrow> nat res" where
  "usize_chk n = (if n < 2 ^ 64 then Inr n else Inl Arith_Overflow)"

definition i32_chk :: "int \<Rightarrow> int res" where
  "i32_chk n = (if - (2 ^ 31) \<le> n \<and> n < 2 ^ 31 then Inr n else Inl Arith_Overflow)"

subsection \<open>Checked indexing, slicing and searching\<close>

definition overwrite :: "'a list \<Rightarrow> nat \<Rightarrow> 'a list \<Rightarrow> 'a list" where
  "overwrite xs pos ys = take pos xs @ ys @ drop (pos + length ys) xs"

definition index_chk :: "'a list \<Rightarrow> nat \<Rightarrow> 'a res" where
  "index_chk xs i = (if i < length xs then Inr (xs ! i) else Inl Out_Of_Bounds)"

definition update_chk :: "'a list \<Rightarrow> nat \<Rightarrow> 'a \<Rightarrow> 'a list res" where
  "update_chk xs i v = (if i < length xs then Inr (xs[i := v]) else Inl Out_Of_Bounds)"

definition slice_chk :: "'a list \<Rightarrow> nat \<Rightarrow> nat \<Rightarrow> 'a list res" where
  "slice_chk xs i j = (if i \<le> j \<and> j \<le> length xs then Inr (take (j - i) (drop i xs)) else Inl Out_Of_Bounds)"

text \<open>\<^verbatim>\<open>iter().position(p)\<close>: the first index whose element satisfies the predicate.\<close>

fun position :: "('a \<Rightarrow> bool) \<Rightarrow> 'a list \<Rightarrow> nat option" where
  "position p [] = None"
| "position p (x # xs) = (if p x then Some 0 else map_option Suc (position p xs))"

text \<open>A \<^verbatim>\<open>for\<close> loop over a sequence whose body may panic.\<close>

fun for_each :: "('a \<Rightarrow> 's \<Rightarrow> 's res) \<Rightarrow> 'a list \<Rightarrow> 's \<Rightarrow> 's res" where
  "for_each f [] s = Inr s"
| "for_each f (x # xs) s = bind_res (f x s) (for_each f xs)"

subsection \<open>Little-endian integers\<close>

fun le_nat :: "bytes \<Rightarrow> nat" where
  "le_nat [] = 0"
| "le_nat (b # bs) = unat b + 256 * le_nat bs"

fun le_bytes :: "nat \<Rightarrow> nat \<Rightarrow> bytes" where
  "le_bytes 0 v = []"
| "le_bytes (Suc n) v = of_nat v # le_bytes n (v div 256)"

definition from_le :: "bytes \<Rightarrow> 'a::len word" where
  "from_le bs = of_nat (le_nat bs)"

definition to_le :: "nat \<Rightarrow> 'a::len word \<Rightarrow> bytes" where
  "to_le n w = le_bytes n (unat w)"

text \<open>Every value a fallible operation can return satisfies \<open>P\<close>.\<close>

definition all_results :: "('a \<Rightarrow> bool) \<Rightarrow> 'a res \<Rightarrow> bool" where
  "all_results P r \<longleftrightarrow> (\<forall>x. r = Inr x \<longrightarrow> P x)"

section \<open>Lemmas\<close>

lemma bind_res_simps [simp, res_simps]:
  "bind_res (Inl e) f = Inl e"
  "bind_res (Inr x) f = f x"
  by (simp_all add: bind_res_def)

lemma map_res_simps [simp, res_simps]:
  "map_res f (Inl e) = Inl e"
  "map_res f (Inr x) = Inr (f x)"
  by (simp_all add: map_res_def)

lemma panics_simps [simp, res_simps]:
  "panics (Inl e)"
  "\<not> panics (Inr x)"
  by (simp_all add: panics_def)

lemma bind_res_Inr_iff: "bind_res m f = Inr y \<longleftrightarrow> (\<exists>x. m = Inr x \<and> f x = Inr y)"
  by (cases m) auto

lemma bind_res_Inl_iff: "bind_res m f = Inl e \<longleftrightarrow> m = Inl e \<or> (\<exists>x. m = Inr x \<and> f x = Inl e)"
  by (cases m) auto

lemma bind_res_cong [fundef_cong]:
  "m = m' \<Longrightarrow> (\<And>x. m' = Inr x \<Longrightarrow> f x = f' x) \<Longrightarrow> bind_res m f = bind_res m' f'"
  by (cases m') auto

lemma bind_res_assoc: "bind_res (bind_res m f) g = bind_res m (\<lambda>x. bind_res (f x) g)"
  by (cases m) auto

lemma map_res_Inr_iff: "map_res f m = Inr y \<longleftrightarrow> (\<exists>x. m = Inr x \<and> y = f x)"
  by (cases m) auto

lemma panics_map_res: "panics (map_res f r) = panics r"
  by (cases r) simp_all

lemma not_panics_iff: "\<not> panics m \<longleftrightarrow> (\<exists>x. m = Inr x)"
  by (cases m) auto

lemma all_results_rules [simp]: "all_results P (Inr x) = P x" "all_results P (Inl e)" "all_results P (map_res f r) = all_results (\<lambda>x. P (f x)) r"
  by (auto simp: all_results_def map_res_Inr_iff)

lemma all_results_bind: "all_results Q m \<Longrightarrow> (\<And>x. Q x \<Longrightarrow> all_results P (f x)) \<Longrightarrow> all_results P (bind_res m f)"
  by (auto simp: all_results_def bind_res_Inr_iff)

lemma all_results_any [simp]: "all_results (\<lambda>_. True) r"
  by (simp add: all_results_def)

lemma all_results_add: "(\<And>x. all_results P (f x)) \<Longrightarrow> all_results P (bind_res (add_chk a b) f)"
  by (rule all_results_bind [OF all_results_any])

lemmas [chk_defs] = add_chk_def sub_chk_def mul_chk_def index_chk_def update_chk_def slice_chk_def

lemma add_chk_Inr_iff:
  "add_chk a b = Inr (c::'a::len word) \<longleftrightarrow> unat a + unat b < 2 ^ LENGTH('a) \<and> c = a + b"
  by (auto simp: add_chk_def)

lemma add_chk_unat: "add_chk a b = Inr c \<Longrightarrow> unat c = unat a + unat b"
  by (auto simp: add_chk_Inr_iff unat_word_ariths)

lemma sub_chk_Inr_iff: "sub_chk a b = Inr c \<longleftrightarrow> b \<le> a \<and> c = a - b"
  by (auto simp: sub_chk_def)

lemma mul_chk_Inr_iff:
  "mul_chk a b = Inr (c::'a::len word) \<longleftrightarrow> unat a * unat b < 2 ^ LENGTH('a) \<and> c = a * b"
  by (auto simp: mul_chk_def)

lemma index_chk_Inr_iff: "index_chk xs i = Inr x \<longleftrightarrow> i < length xs \<and> x = xs ! i"
  by (auto simp: index_chk_def)

lemma update_chk_Inr_iff: "update_chk xs i v = Inr ys \<longleftrightarrow> i < length xs \<and> ys = xs[i := v]"
  by (auto simp: update_chk_def)

lemma slice_chk_Inr_iff:
  "slice_chk xs i j = Inr ys \<longleftrightarrow> i \<le> j \<and> j \<le> length xs \<and> ys = take (j - i) (drop i xs)"
  by (auto simp: slice_chk_def)

lemma slice_chk_length: "slice_chk xs i j = Inr ys \<Longrightarrow> length ys = j - i"
  by (auto simp: slice_chk_Inr_iff)

subsection \<open>Loops\<close>

lemma for_each_append: "for_each f (xs @ ys) s = bind_res (for_each f xs s) (for_each f ys)"
  by (induction xs arbitrary: s) (auto simp: bind_res_def split: sum.splits)

lemma for_each_total: "(\<And>x s. x \<in> set xs \<Longrightarrow> f x s = Inr (g x s)) \<Longrightarrow> for_each f xs s = Inr (fold g xs s)"
  by (induction xs arbitrary: s) auto

lemma for_each_invariant:
  assumes "for_each f xs s = Inr s'" "I s"
    and "\<And>x s s'. x \<in> set xs \<Longrightarrow> I s \<Longrightarrow> f x s = Inr s' \<Longrightarrow> I s'"
  shows "I s'"
  using assms
proof (induction xs arbitrary: s)
  case (Cons x xs)
  then obtain s1 where s1: "f x s = Inr s1" "for_each f xs s1 = Inr s'"
    by (auto simp: bind_res_Inr_iff)
  have "I s1" using Cons.prems(3)[of x] Cons.prems(2) s1(1) by simp
  with Cons.IH [OF s1(2)] Cons.prems(3) show ?case by (meson list.set_intros(2))
qed simp

lemma for_each_progress:
  assumes "\<And>x s. x \<in> set xs \<Longrightarrow> I s \<Longrightarrow> \<exists>s'. f x s = Inr s' \<and> I s'" "I s"
  shows "\<exists>s'. for_each f xs s = Inr s' \<and> I s'"
  using assms
proof (induction xs arbitrary: s)
  case (Cons x xs)
  from Cons.prems(1) [of x s] Cons.prems(2) obtain s1 where "f x s = Inr s1" "I s1" by auto
  with Cons.IH [of s1] Cons.prems(1) show ?case by auto
qed simp

subsection \<open>First matching slot\<close>

lemma position_None_iff: "position p xs = None \<longleftrightarrow> (\<forall>x\<in>set xs. \<not> p x)"
  by (induction xs) auto

lemma position_SomeD:
  assumes "position p xs = Some i"
  shows "i < length xs" "p (xs ! i)" "\<And>j. j < i \<Longrightarrow> \<not> p (xs ! j)"
proof -
  have "i < length xs \<and> p (xs ! i) \<and> (\<forall>j<i. \<not> p (xs ! j))"
    using assms
  proof (induction xs arbitrary: i)
    case (Cons x xs)
    show ?case
    proof (cases "p x")
      case False
      with Cons.prems obtain k where k: "position p xs = Some k" "i = Suc k" by auto
      with Cons.IH[OF k(1)] False show ?thesis by (auto simp: less_Suc_eq_0_disj)
    qed (use Cons.prems in auto)
  qed simp
  then show "i < length xs" "p (xs ! i)" "\<And>j. j < i \<Longrightarrow> \<not> p (xs ! j)" by auto
qed

lemma position_SomeI:
  "i < length xs \<Longrightarrow> p (xs ! i) \<Longrightarrow> (\<And>j. j < i \<Longrightarrow> \<not> p (xs ! j)) \<Longrightarrow> position p xs = Some i"
proof (induction xs arbitrary: i)
  case (Cons x xs)
  show ?case
  proof (cases i)
    case 0
    with Cons.prems show ?thesis by simp
  next
    case (Suc k)
    from Cons.prems(3)[of 0] Suc have "\<not> p x" by simp
    moreover have "position p xs = Some k"
    proof (rule Cons.IH)
      show "k < length xs" "p (xs ! k)" using Cons.prems Suc by auto
      show "\<not> p (xs ! j)" if "j < k" for j using Cons.prems(3)[of "Suc j"] Suc that by simp
    qed
    ultimately show ?thesis using Suc by simp
  qed
qed simp

lemma position_replicate: "0 < n \<Longrightarrow> p x \<Longrightarrow> position p (replicate n x) = Some 0"
  by (cases n) auto

lemma position_append:
  "position p (xs @ ys) =
     (case position p xs of Some i \<Rightarrow> Some i | None \<Rightarrow> map_option (\<lambda>i. length xs + i) (position p ys))"
proof (induction xs)
  case Nil
  show ?case by (cases "position p ys") auto
next
  case (Cons x xs)
  then show ?case by (cases "position p ys") (auto split: option.splits)
qed

subsection \<open>Little-endian round trips\<close>

lemma length_le_bytes [simp]: "length (le_bytes n v) = n"
  by (induction n arbitrary: v) auto

lemma length_to_le [simp]: "length (to_le n w) = n"
  by (simp add: to_le_def)

lemma unat_of_nat_byte [simp]: "unat (of_nat v :: u8) = v mod 256"
  by (simp add: unat_of_nat)

lemma unat_byte_less: "unat (b :: u8) < 256"
  using unsigned_less [of b] by simp

lemma le_nat_le_bytes: "le_nat (le_bytes n v) = v mod 256 ^ n"
proof (induction n arbitrary: v)
  case (Suc n)
  have "v mod (256 * 256 ^ n) = 256 * (v div 256 mod 256 ^ n) + v mod 256"
    by (rule mod_mult2_eq)
  with Suc show ?case by simp
qed simp

lemma le_nat_bound: "le_nat bs < 256 ^ length bs"
proof (induction bs)
  case (Cons b bs)
  have "unat b < 256" by (rule unat_byte_less)
  with Cons show ?case by simp
qed simp

lemma le_bytes_le_nat [simp]: "le_bytes (length bs) (le_nat bs) = bs"
proof (induction bs)
  case (Cons b bs)
  have b: "unat b < 256" by (rule unat_byte_less)
  then have "(unat b + 256 * le_nat bs) div 256 = le_nat bs" by simp
  moreover have "of_nat (unat b + 256 * le_nat bs) = b"
  proof -
    have "of_nat (unat b + 256 * le_nat bs) = (of_nat (unat b) :: u8) + of_nat 256 * of_nat (le_nat bs)"
      by (simp only: of_nat_add of_nat_mult)
    also have "(of_nat 256 :: u8) = 0" by simp
    finally show ?thesis by simp
  qed
  ultimately show ?case using Cons by (simp only: le_nat.simps list.size le_bytes.simps add_Suc_right add_0_right)
qed simp

lemma from_le_to_le: "LENGTH('a::len) \<le> 8 * n \<Longrightarrow> from_le (to_le n (w :: 'a word)) = w"
proof -
  assume n: "LENGTH('a) \<le> 8 * n"
  have "unat w < 2 ^ LENGTH('a)" by simp
  also have "\<dots> \<le> 2 ^ (8 * n)" using n by simp
  also have "\<dots> = 256 ^ n" by (simp add: power_mult)
  finally show ?thesis by (simp add: from_le_def to_le_def le_nat_le_bytes)
qed

lemma from_le_to_le_sizes [simp]:
  "from_le (to_le 8 (w :: u64)) = w"
  "from_le (to_le 4 (x :: u32)) = x"
  "from_le (to_le 2 (y :: u16)) = y"
  by (simp_all add: from_le_to_le)

lemma unat_from_le:
  "8 * length bs \<le> LENGTH('a::len) \<Longrightarrow> unat (from_le bs :: 'a word) = le_nat bs"
proof -
  assume len: "8 * length bs \<le> LENGTH('a)"
  have "le_nat bs < 256 ^ length bs" by (rule le_nat_bound)
  also have "\<dots> = 2 ^ (8 * length bs)" by (simp add: power_mult)
  also have "\<dots> \<le> 2 ^ LENGTH('a)" using len by simp
  finally show ?thesis by (simp add: from_le_def unat_of_nat)
qed

lemma to_le_from_le:
  "8 * length bs \<le> LENGTH('a::len) \<Longrightarrow> to_le (length bs) (from_le bs :: 'a word) = bs"
  by (simp add: to_le_def unat_from_le)

subsection \<open>Words\<close>

lemma unat_u64_less [simp]: "unat (x :: u64) < 18446744073709551616"
  using unsigned_less [of x] by simp

lemma unat_add_small:
  "unat a + unat b < 2 ^ LENGTH('a::len) \<Longrightarrow> unat (a + b :: 'a word) = unat a + unat b"
  by (simp add: unat_word_ariths)

lemma unat_sub_le: "b \<le> a \<Longrightarrow> unat (a - b :: 'a::len word) = unat a - unat b"
  by (simp add: unat_sub)

lemma of_nat_inject_small:
  "m < 2 ^ LENGTH('a::len) \<Longrightarrow> n < 2 ^ LENGTH('a) \<Longrightarrow> (of_nat m = (of_nat n :: 'a word)) = (m = n)"
  by (metis mod_less unat_of_nat)

lemma unat_zero_extend [simp]:
  "unat (ucast (x :: u32) :: u64) = unat x"
  "unat (ucast (y :: u16) :: u64) = unat y"
  "unat (ucast (z :: u8) :: u64) = unat z"
  "unat (ucast (z :: u8) :: u32) = unat z"
proof -
  have "unat x < 2 ^ 64" "unat y < 2 ^ 64" "unat z < 2 ^ 64" "unat z < 2 ^ 32"
    using unsigned_less [of x, where 'a = nat] unsigned_less [of y, where 'a = nat] unsigned_less [of z, where 'a = nat]
    by simp_all
  then show "unat (ucast x :: u64) = unat x" "unat (ucast y :: u64) = unat y"
    "unat (ucast z :: u64) = unat z" "unat (ucast z :: u32) = unat z"
    by (simp_all add: unsigned_ucast_eq take_bit_nat_eq_self)
qed

lemma nth_overwrite:
  "pos \<le> length xs \<Longrightarrow> j < max (length xs) (pos + length ys) \<Longrightarrow>
   overwrite xs pos ys ! j = (if pos \<le> j \<and> j < pos + length ys then ys ! (j - pos) else xs ! j)"
  by (auto simp: overwrite_def nth_append min_def not_less)

lemma length_overwrite: "pos \<le> length xs \<Longrightarrow> length (overwrite xs pos ys) = max (length xs) (pos + length ys)"
  by (auto simp: overwrite_def)

lemma overwrite_append:
  assumes "pos \<le> length xs"
  shows "overwrite (overwrite xs pos ys) (pos + length ys) zs = overwrite xs pos (ys @ zs)"
  using assms by (simp add: overwrite_def ac_simps)

end
