(* ===== verification/Memory.thy ===== *)
theory Memory
  imports Prelude
begin

text \<open>
  The physical memory the kernel reads and writes through identity-mapped raw pointers:
  a byte for every 64-bit address. Raw pointer accesses of the source
  (\<^verbatim>\<open>ptr::read\<close>, \<^verbatim>\<open>ptr::write\<close>, \<^verbatim>\<open>write_bytes\<close>, \<^verbatim>\<open>copy_nonoverlapping\<close>) are total
  functions on it: the model does not describe what the hardware does at an address with
  no memory behind it. In the \<^verbatim>\<open>dev\<close> profile \<^verbatim>\<open>core\<close> checks the pointer it is given: a typed access
  (\<^verbatim>\<open>read_volatile\<close>, \<^verbatim>\<open>write_volatile\<close>, \<^verbatim>\<open>ptr::write\<close>) panics unless the address is aligned for the type and
  not null, \<^verbatim>\<open>from_raw_parts\<close> of bytes unless the address is not null and the length below \<open>2\<^sup>6\<^sup>3\<close>. The
  checks \<open>ptr_chk\<close> and \<open>raw_slice_chk\<close> are written out where an address comes from a guest program; the kernel's
  own pointers are frame and heap addresses, aligned and not null. Addresses are grouped into 4 KiB frames; the
  lemmas say when two accesses do not interfere.
\<close>

type_synonym mem = "u64 \<Rightarrow> u8"

definition read_bytes :: "mem \<Rightarrow> u64 \<Rightarrow> nat \<Rightarrow> bytes" where
  "read_bytes m a n = map (\<lambda>i. m (a + of_nat i)) [0..<n]"

definition write_bytes :: "mem \<Rightarrow> u64 \<Rightarrow> bytes \<Rightarrow> mem" where
  "write_bytes m a bs = (\<lambda>x. if unat (x - a) < length bs then bs ! unat (x - a) else m x)"

definition fill_bytes :: "mem \<Rightarrow> u64 \<Rightarrow> u8 \<Rightarrow> nat \<Rightarrow> mem" where
  "fill_bytes m a b n = (\<lambda>x. if unat (x - a) < n then b else m x)"

definition read_u64 :: "mem \<Rightarrow> u64 \<Rightarrow> u64" where
  "read_u64 m a = from_le (read_bytes m a 8)"

definition write_u64 :: "mem \<Rightarrow> u64 \<Rightarrow> u64 \<Rightarrow> mem" where
  "write_u64 m a v = write_bytes m a (to_le 8 v)"

definition write_u32 :: "mem \<Rightarrow> u64 \<Rightarrow> u32 \<Rightarrow> mem" where
  "write_u32 m a v = write_bytes m a (to_le 4 v)"

text \<open>The pointer checks: a typed access to \<open>n\<close> bytes, and a slice of \<open>len\<close> bytes.\<close>

definition ptr_ok :: "nat \<Rightarrow> u64 \<Rightarrow> bool" where
  "ptr_ok n a \<longleftrightarrow> a \<noteq> 0 \<and> unat a mod n = 0"

definition ptr_chk :: "nat \<Rightarrow> u64 \<Rightarrow> unit res" where
  "ptr_chk n a = (if ptr_ok n a then Inr () else Inl Bad_Pointer)"

definition raw_slice_chk :: "u64 \<Rightarrow> nat \<Rightarrow> unit res" where
  "raw_slice_chk a len = (if a \<noteq> 0 \<and> len < 2 ^ 63 then Inr () else Inl Bad_Pointer)"

text \<open>The 4 KiB frame of an address, and alignment to it.\<close>

definition frame_of :: "u64 \<Rightarrow> u64" where
  "frame_of x = x AND NOT 0xFFF"

definition page_aligned :: "u64 \<Rightarrow> bool" where
  "page_aligned x \<longleftrightarrow> x AND 0xFFF = 0"

section \<open>Frames and offsets as numbers\<close>

lemma and_FFF: "x AND 0xFFF = take_bit 12 (x :: u64)"
  by (simp add: take_bit_eq_mask mask_eq_exp_minus_1)

lemma unat_and_FFF: "unat (x AND 0xFFF :: u64) = unat x mod 4096"
  by (simp add: and_FFF take_bit_eq_mod unat_mod)

lemma and_not_FFF_or: "(x AND NOT 0xFFF) + (x AND 0xFFF) = (x :: u64)"
proof -
  have "(x AND NOT 0xFFF) + (x AND 0xFFF) = (x AND NOT 0xFFF) OR (x AND 0xFFF)"
    by (rule disjunctive_add) (auto simp: bit_simps)
  also have "\<dots> = x" by (rule bit_eqI) (auto simp: bit_simps)
  finally show ?thesis .
qed

lemma unat_frame_of: "unat (frame_of x) = unat x - unat x mod 4096"
proof -
  have "frame_of x = x - (x AND 0xFFF)"
    using and_not_FFF_or [of x] by (simp add: frame_of_def algebra_simps)
  moreover have "x AND 0xFFF \<le> x" by (simp add: word_le_nat_alt unat_and_FFF)
  ultimately show ?thesis by (simp add: unat_sub_le unat_and_FFF)
qed

lemma unat_frame_of_div: "unat (frame_of x) = 4096 * (unat x div 4096)"
  by (simp add: unat_frame_of minus_mod_eq_mult_div)

lemma page_aligned_iff: "page_aligned x \<longleftrightarrow> unat x mod 4096 = 0"
  by (simp add: page_aligned_def unat_eq_0 [symmetric] unat_and_FFF)

lemma page_aligned_frame_of [simp]: "page_aligned (frame_of x)"
  by (simp add: page_aligned_iff unat_frame_of_div)

lemma frame_of_aligned [simp]: "page_aligned x \<Longrightarrow> frame_of x = x"
  by (simp add: word_unat_eq_iff unat_frame_of page_aligned_iff)

lemma frame_of_idem [simp]: "frame_of (frame_of x) = frame_of x"
  by simp

text \<open>An address lies in the 4096 bytes from an aligned address exactly when that address is its frame.\<close>

lemma in_frame_iff:
  assumes "page_aligned f"
  shows "unat (x - f) < 4096 \<longleftrightarrow> frame_of x = f"
proof -
  obtain q where q: "unat f = 4096 * q"
    using assms by (auto simp: page_aligned_iff mod_eq_0_iff_dvd elim: dvdE)
  have fb: "4096 * q < 18446744073709551616" using unat_u64_less [of f] q by simp
  then have qb: "q < 4503599627370496" by simp
  show ?thesis
  proof (cases "f \<le> x")
    case True
    then have "unat (x - f) = unat x - 4096 * q" "4096 * q \<le> unat x"
      using q by (auto simp: unat_sub_le word_le_nat_alt)
    then show ?thesis using q by (auto simp: word_unat_eq_iff unat_frame_of_div)
  next
    case False
    then have lt: "unat x < 4096 * q" using q by (simp add: word_le_nat_alt)
    have "unat (x - f) = unat x + 18446744073709551616 - 4096 * q"
      using False q lt by (simp add: unat_sub_if' word_le_nat_alt)
    then have "\<not> unat (x - f) < 4096" using qb by simp
    moreover have "frame_of x \<noteq> f" using lt q by (simp add: word_unat_eq_iff unat_frame_of_div)
    ultimately show ?thesis by simp
  qed
qed

lemma frame_of_offset:
  assumes "page_aligned f" "k < 4096"
  shows "frame_of (f + of_nat k) = f"
proof -
  have "unat (f + of_nat k - f) < 4096" using assms(2) by (simp add: unat_of_nat)
  then show ?thesis using in_frame_iff [OF assms(1)] by blast
qed

section \<open>Reading back what was written\<close>

lemma length_read_bytes [simp]: "length (read_bytes m a n) = n"
  by (simp add: read_bytes_def)

lemma nth_read_bytes [simp]: "i < n \<Longrightarrow> read_bytes m a n ! i = m (a + of_nat i)"
  by (simp add: read_bytes_def)

lemma read_bytes_cong:
  "(\<And>i. i < n \<Longrightarrow> m (a + of_nat i) = m' (a + of_nat i)) \<Longrightarrow> read_bytes m a n = read_bytes m' a n"
  by (simp add: read_bytes_def)

lemma write_bytes_at:
  "i < length bs \<Longrightarrow> length bs \<le> 2 ^ 64 \<Longrightarrow> write_bytes m a bs (a + of_nat i) = bs ! i"
  by (simp add: write_bytes_def unat_of_nat)

lemma write_bytes_outside: "\<not> unat (x - a) < length bs \<Longrightarrow> write_bytes m a bs x = m x"
  by (simp add: write_bytes_def)

lemma read_write_bytes_same:
  "length bs \<le> 2 ^ 64 \<Longrightarrow> read_bytes (write_bytes m a bs) a (length bs) = bs"
  by (rule nth_equalityI) (simp_all add: write_bytes_at)

lemma read_write_u64_same [simp]: "read_u64 (write_u64 m a v) a = v"
  using read_write_bytes_same [of "to_le 8 v" m a] by (simp add: read_u64_def write_u64_def)

text \<open>A write inside one frame does not change another.\<close>

lemma frame_of_span:
  assumes "unat a mod 4096 + n \<le> 4096" "unat (x - a) < n"
  shows "frame_of x = frame_of a"
proof -
  let ?f = "frame_of a"
  have a: "a = ?f + of_nat (unat a mod 4096)"
    using and_not_FFF_or [of a] by (metis frame_of_def of_nat_unat ucast_id unat_and_FFF)
  define k where "k = unat (x - a)"
  have "x = a + of_nat k" by (simp add: k_def)
  then have "x = ?f + of_nat (unat a mod 4096 + k)" using a by (simp add: algebra_simps)
  moreover have "unat a mod 4096 + k < 4096" using assms k_def by simp
  ultimately show ?thesis by (metis frame_of_offset page_aligned_frame_of)
qed

lemma write_bytes_other_frame:
  "unat a mod 4096 + length bs \<le> 4096 \<Longrightarrow> frame_of x \<noteq> frame_of a \<Longrightarrow> write_bytes m a bs x = m x"
  using frame_of_span [of a "length bs" x] by (auto simp: write_bytes_def)

lemma fill_bytes_frame:
  "page_aligned f \<Longrightarrow> fill_bytes m f b 4096 x = (if frame_of x = f then b else m x)"
  by (simp add: fill_bytes_def in_frame_iff)

section \<open>Tables of 512 words in one frame\<close>

text \<open>\<^verbatim>\<open>(table as *mut u64).add(index)\<close>\<close>

definition entry_addr :: "u64 \<Rightarrow> nat \<Rightarrow> u64" where
  "entry_addr t i = t + of_nat (8 * i)"

lemma entry_byte_frame:
  "page_aligned t \<Longrightarrow> i < 512 \<Longrightarrow> k < 8 \<Longrightarrow> frame_of (entry_addr t i + of_nat k) = t"
  using frame_of_offset [of t "8 * i + k"] by (simp add: entry_addr_def algebra_simps)

lemma entry_addr_mod:
  assumes "page_aligned t" "i < 512"
  shows "unat (entry_addr t i) mod 4096 + 8 \<le> 4096"
proof -
  obtain q where q: "unat t = 4096 * q"
    using assms by (auto simp: page_aligned_iff mod_eq_0_iff_dvd elim: dvdE)
  have "4096 * q < 18446744073709551616" using unat_u64_less [of t] q by simp
  then have "q < 4503599627370496" by simp
  then have "unat (entry_addr t i) = 4096 * q + 8 * i"
    using assms q by (simp add: entry_addr_def unat_word_ariths unat_of_nat)
  with assms show ?thesis by simp
qed

lemma entry_addr_bytes_disjoint:
  assumes "i < 512" "j < 512" "i \<noteq> j" "k < 8"
  shows "\<not> unat (entry_addr t j + of_nat k - entry_addr t i) < 8"
proof -
  have "entry_addr t j + of_nat k - entry_addr t i = of_nat (8 * j + k) - of_nat (8 * i)"
    by (simp add: entry_addr_def algebra_simps)
  moreover have "unat (of_nat (8 * j + k) :: u64) = 8 * j + k" "unat (of_nat (8 * i) :: u64) = 8 * i"
    using assms by (simp_all only: unat_of_nat) simp_all
  ultimately show ?thesis using assms
    by (auto simp only: unat_sub_if' word_le_nat_alt split: if_splits) auto
qed

lemma read_u64_write_u64_entry:
  assumes "page_aligned t" "page_aligned t'" "i < 512" "j < 512" "t \<noteq> t' \<or> i \<noteq> j"
  shows "read_u64 (write_u64 m (entry_addr t i) v) (entry_addr t' j) = read_u64 m (entry_addr t' j)"
proof -
  have "write_u64 m (entry_addr t i) v (entry_addr t' j + of_nat k) = m (entry_addr t' j + of_nat k)"
    if k: "k < 8" for k
  proof (cases "t = t'")
    case True
    then show ?thesis using assms entry_addr_bytes_disjoint [of i j k t] k
      by (simp add: write_u64_def write_bytes_outside)
  next
    case False
    have "frame_of (entry_addr t i) = t" using entry_byte_frame [of t i 0] assms by simp
    then show ?thesis using assms False k entry_addr_mod [of t i] entry_byte_frame [of t' j k]
      by (simp add: write_u64_def write_bytes_other_frame)
  qed
  then show ?thesis by (simp add: read_u64_def cong: read_bytes_cong)
qed

lemma write_u64_entry_other_frame:
  assumes "page_aligned t" "i < 512" "frame_of x \<noteq> t"
  shows "write_u64 m (entry_addr t i) v x = m x"
proof -
  have "frame_of (entry_addr t i) = t" using entry_byte_frame [of t i 0] assms by simp
  with assms entry_addr_mod [of t i] show ?thesis by (simp add: write_u64_def write_bytes_other_frame)
qed

lemma read_u64_cong_frame:
  assumes "page_aligned t" "i < 512" "\<And>x. frame_of x = t \<Longrightarrow> m x = m' x"
  shows "read_u64 m (entry_addr t i) = read_u64 m' (entry_addr t i)"
  using assms entry_byte_frame [of t i] by (simp add: read_u64_def cong: read_bytes_cong)

lemma read_u64_zero_frame:
  assumes "page_aligned t" "i < 512"
  shows "read_u64 (fill_bytes m t 0 4096) (entry_addr t i) = 0"
proof -
  have "read_bytes (fill_bytes m t 0 4096) (entry_addr t i) 8 = replicate 8 0"
    using assms entry_byte_frame [of t i] by (intro nth_equalityI) (simp_all add: fill_bytes_frame)
  moreover have "from_le (replicate 8 0) = (0 :: u64)" by (simp add: from_le_def numeral_eq_Suc)
  ultimately show ?thesis by (simp add: read_u64_def)
qed

lemma read_u64_fill_other_frame:
  assumes "page_aligned t" "page_aligned f" "t \<noteq> f" "i < 512"
  shows "read_u64 (fill_bytes m f b 4096) (entry_addr t i) = read_u64 m (entry_addr t i)"
  by (rule read_u64_cong_frame) (use assms in \<open>auto simp: fill_bytes_frame\<close>)

lemma write_u64_same_value:
  "read_u64 m a = v \<Longrightarrow> write_u64 m a v = m"
proof
  fix x
  assume v: "read_u64 m a = v"
  have bs: "to_le 8 v = read_bytes m a 8"
    using to_le_from_le [where 'a = 64, of "read_bytes m a 8"] v by (simp add: read_u64_def)
  show "write_u64 m a v x = m x"
  proof (cases "unat (x - a) < 8")
    case True
    then have "write_u64 m a v x = read_bytes m a 8 ! unat (x - a)"
      by (simp add: write_u64_def write_bytes_def bs)
    also have "\<dots> = m (a + of_nat (unat (x - a)))" using True by (simp del: of_nat_unat)
    finally show ?thesis by simp
  qed (simp add: write_u64_def write_bytes_def)
qed

section \<open>Words at arbitrary addresses\<close>

lemma unat_uminus: "x \<noteq> 0 \<Longrightarrow> unat (- x :: u64) = 2 ^ 64 - unat x"
  using unat_sub_if' [of 0 x] by (simp add: unat_eq_0)

lemma read_write_u64_disjoint:
  assumes "8 \<le> unat (b - a)" "8 \<le> unat (a - b)"
  shows "read_u64 (write_u64 m a v) b = read_u64 m b"
proof -
  have nz: "b - a \<noteq> 0" using assms(1) by auto
  have "unat (a - b) = unat (- (b - a))" by simp
  also have "\<dots> = 2 ^ 64 - unat (b - a)" by (rule unat_uminus [OF nz])
  finally have d: "unat (b - a) \<le> 2 ^ 64 - 8" using assms(2) by linarith
  have "write_u64 m a v (b + of_nat k) = m (b + of_nat k)" if "k < 8" for k
  proof -
    have u: "unat (of_nat k :: u64) = k" using that by (simp add: unat_of_nat)
    have e: "b + of_nat k - a = (b - a) + of_nat k" by simp
    have "unat ((b - a) + of_nat k) = unat (b - a) + k"
      using d that u unat_add_small [of "b - a" "of_nat k"] by simp
    then have "\<not> unat (b + of_nat k - a) < 8" unfolding e using assms(1) by linarith
    then show ?thesis by (simp add: write_u64_def write_bytes_outside)
  qed
  then show ?thesis by (simp add: read_u64_def cong: read_bytes_cong)
qed

lemma read_u64_cong: "(\<And>k. k < 8 \<Longrightarrow> m (a + of_nat k) = m' (a + of_nat k)) \<Longrightarrow> read_u64 m a = read_u64 m' a"
  by (simp add: read_u64_def cong: read_bytes_cong)

subsection \<open>Stacks\<close>

text \<open>Pushing words below a stack pointer, the last one at the lowest address.\<close>

definition push_u64 :: "u64 \<times> mem \<Rightarrow> u64 \<Rightarrow> u64 \<times> mem" where
  "push_u64 s value = (case s of (stack_top, m) \<Rightarrow> let rsp = stack_top - 8 in (rsp, write_u64 m rsp value))"

definition push_list :: "u64 list \<Rightarrow> u64 \<times> mem \<Rightarrow> u64 \<times> mem" where
  "push_list vs s = foldl push_u64 s vs"

definition pop_list :: "nat \<Rightarrow> u64 \<Rightarrow> mem \<Rightarrow> u64 list" where
  "pop_list n rsp m = map (\<lambda>i. read_u64 m (rsp + of_nat (8 * i))) [0..<n]"

lemma stack_slots_disjoint:
  assumes "i < j" "j < 1000"
  shows "read_u64 (write_u64 m (r - of_nat (8 * j)) v) (r - of_nat (8 * i)) = read_u64 m (r - of_nat (8 * i))"
proof (rule read_write_u64_disjoint)
  have e: "r - of_nat (8 * i) - (r - of_nat (8 * j)) = (of_nat (8 * (j - i)) :: u64)"
    using assms by (simp add: of_nat_diff algebra_simps)
  have u: "unat (of_nat (8 * (j - i)) :: u64) = 8 * (j - i)" using assms by (simp only: unat_of_nat) simp
  show "8 \<le> unat (r - of_nat (8 * i) - (r - of_nat (8 * j)))" unfolding e u using assms by simp
  have "r - of_nat (8 * j) - (r - of_nat (8 * i)) = - (of_nat (8 * (j - i)) :: u64)"
    unfolding e [symmetric] by simp
  moreover have "(of_nat (8 * (j - i)) :: u64) \<noteq> 0" using u assms by (metis mult_eq_0_iff nat_less_le unat_0 zero_less_diff zero_neq_numeral)
  ultimately have "unat (r - of_nat (8 * j) - (r - of_nat (8 * i))) = 2 ^ 64 - 8 * (j - i)"
    using u by (simp add: unat_uminus del: of_nat_mult)
  then show "8 \<le> unat (r - of_nat (8 * j) - (r - of_nat (8 * i)))" using assms by simp
qed

lemma push_list_snoc:
  "push_list (vs @ [v]) s = (fst (push_list vs s) - 8, write_u64 (snd (push_list vs s)) (fst (push_list vs s) - 8) v)"
  by (simp add: push_list_def push_u64_def Let_def split: prod.splits)

lemma push_list_rsp: "fst (push_list vs (r, m)) = r - of_nat (8 * length vs)"
  by (induction vs rule: rev_induct) (simp add: push_list_def, simp add: push_list_snoc algebra_simps)

lemma push_list_read:
  "length vs < 999 \<Longrightarrow> i \<le> length vs \<Longrightarrow> read_u64 (snd (push_list vs (r, m))) (r - of_nat (8 * i)) =
     (if i = 0 then read_u64 m r else vs ! (i - 1))"
proof (induction vs arbitrary: i rule: rev_induct)
  case (snoc v vs)
  let ?s = "push_list vs (r, m)"
  have low: "fst ?s - 8 = r - of_nat (8 * length (vs @ [v]))" by (simp add: push_list_rsp algebra_simps)
  have st: "snd (push_list (vs @ [v]) (r, m)) = write_u64 (snd ?s) (r - of_nat (8 * length (vs @ [v]))) v"
    unfolding push_list_snoc low by simp
  show ?case
  proof (cases "i = length (vs @ [v])")
    case True
    then have "read_u64 (snd (push_list (vs @ [v]) (r, m))) (r - of_nat (8 * i)) = v"
      by (simp only: st read_write_u64_same)
    then show ?thesis using True by simp
  next
    case False
    then have i: "i \<le> length vs" using snoc.prems(2) by simp
    then have "i < length (vs @ [v])" "length (vs @ [v]) < 1000" using snoc.prems by auto
    then have "read_u64 (snd (push_list (vs @ [v]) (r, m))) (r - of_nat (8 * i)) = read_u64 (snd ?s) (r - of_nat (8 * i))"
      unfolding st by (rule stack_slots_disjoint)
    also have "\<dots> = (if i = 0 then read_u64 m r else vs ! (i - 1))" using snoc.IH [OF _ i] snoc.prems(1) by simp
    finally show ?thesis using i by (auto simp: nth_append)
  qed
qed (simp add: push_list_def)

lemma pop_push_list:
  assumes "length vs < 999" "n \<le> length vs"
  shows "pop_list n (fst (push_list vs (r, m))) (snd (push_list vs (r, m))) = take n (rev vs)"
proof (rule nth_equalityI)
  fix i
  assume "i < length (pop_list n (fst (push_list vs (r, m))) (snd (push_list vs (r, m))))"
  then have i: "i < n" "i < length vs" using assms(2) by (auto simp: pop_list_def)
  have "fst (push_list vs (r, m)) + of_nat (8 * i) = r - of_nat (8 * (length vs - i))"
    using i by (simp add: push_list_rsp of_nat_diff algebra_simps)
  then show "pop_list n (fst (push_list vs (r, m))) (snd (push_list vs (r, m))) ! i = take n (rev vs) ! i"
    using i push_list_read [OF assms(1), of "length vs - i" r m]
    by (simp add: pop_list_def rev_nth del: of_nat_mult)
qed (use assms in \<open>simp add: pop_list_def\<close>)

end
