(* ===== verification/Boot_Info.thy ===== *)
theory Boot_Info
  imports Prelude
begin

text \<open>
  Boot metadata (\<^verbatim>\<open>kernel/src/boot_info.rs\<close>) and the choice of the early-heap region made
  by \<^verbatim>\<open>kernel_main\<close> (\<^verbatim>\<open>kernel/src/main.rs\<close>).
\<close>

datatype MemoryRegionKind = Usable | Reserved | Bootloader | UnknownRegion

record MemoryRegion =
  region_start :: u64
  region_end :: u64
  region_kind :: MemoryRegionKind

definition default_region :: MemoryRegion where
  "default_region = \<lparr>region_start = 0, region_end = 0, region_kind = Reserved\<rparr>"

datatype PixelFormat = Rgb | Bgr | U8 | UnknownFormat u8 u8 u8

record FrameBufferInfo =
  fb_width :: nat
  fb_height :: nat
  fb_stride :: nat
  fb_bytes_per_pixel :: nat
  fb_pixel_format :: PixelFormat

text \<open>
  The first usable region of at least 1 MiB becomes the early heap. The subtraction
  \<^verbatim>\<open>region.end - region.start\<close> is evaluated for usable regions only and panics when the
  region is inverted.
\<close>

fun find_heap_region :: "MemoryRegion list \<Rightarrow> MemoryRegion option res" where
  "find_heap_region [] = Inr None"
| "find_heap_region (r # rs) =
     (if region_kind r = Usable
      then bind_res (sub_chk (region_end r) (region_start r)) (\<lambda>size.
             if 0x100000 \<le> size then Inr (Some r) else find_heap_region rs)
      else find_heap_region rs)"

text \<open>\<^verbatim>\<open>kernel_main\<close> copies at most 64 regions into a fixed array for the frame allocator.\<close>

definition collect_regions :: "MemoryRegion list \<Rightarrow> MemoryRegion list" where
  "collect_regions rs = take 64 rs"

lemma find_heap_region_Some:
  assumes "find_heap_region rs = Inr (Some r)"
  shows "r \<in> set rs" "region_kind r = Usable" "unat (region_start r) + 0x100000 \<le> unat (region_end r)"
proof -
  have "r \<in> set rs \<and> region_kind r = Usable \<and> unat (region_start r) + 0x100000 \<le> unat (region_end r)"
    using assms
  proof (induction rs)
    case (Cons q rs)
    show ?case
    proof (cases "region_kind q = Usable")
      case True
      then obtain size where size: "region_start q \<le> region_end q" "size = region_end q - region_start q"
        and rest: "(if 0x100000 \<le> size then Inr (Some q) else find_heap_region rs) = Inr (Some r)"
        using Cons.prems by (auto simp: bind_res_Inr_iff sub_chk_Inr_iff)
      show ?thesis
      proof (cases "0x100000 \<le> size")
        case True
        then have "r = q" using rest by simp
        moreover have "0x100000 \<le> unat (region_end q) - unat (region_start q)"
          using True size by (simp add: word_le_nat_alt unat_sub_le)
        ultimately show ?thesis using size \<open>region_kind q = Usable\<close>
          by (simp add: word_le_nat_alt)
      next
        case False
        then show ?thesis using rest Cons.IH by simp
      qed
    next
      case False
      then show ?thesis using Cons by simp
    qed
  qed simp
  then show "r \<in> set rs" "region_kind r = Usable"
    "unat (region_start r) + 0x100000 \<le> unat (region_end r)" by auto
qed

end
