(* ===== verification/Frame_Allocator.thy ===== *)
theory Frame_Allocator
  imports Memory Boot_Info
begin

text \<open>
  The bitmap frame allocator (\<^verbatim>\<open>kernel/src/mm/frame_allocator.rs\<close>). The state is the
  \<^verbatim>\<open>FrameAllocator\<close> struct; the bitmap the struct points to is the list of its words.
  Every operation runs under the \<^verbatim>\<open>FRAME_ALLOC\<close> lock, so the compare-and-exchange of
  \<open>allocate_frame\<close> meets no concurrent update: a spurious failure of the weak exchange
  retries with the same value. A frame is named by its index from \<open>first_frame\<close>; the
  abstract state is the set of free frames.
\<close>

record frame_allocator =
  first_frame :: u64
  frame_count :: nat
  bitmap_addr :: u64
  bitmap :: "u64 list"
  bitmap_words :: nat

definition FRAME_SIZE :: u64 where "FRAME_SIZE = 4096"

definition new_frame_allocator :: frame_allocator where
  "new_frame_allocator =
     \<lparr>first_frame = 0, frame_count = 0, bitmap_addr = 0, bitmap = [], bitmap_words = 0\<rparr>"

section \<open>Operations\<close>

definition align_up :: "u64 \<Rightarrow> u64 \<Rightarrow> u64 res" where
  "align_up addr align =
     bind_res (add_chk addr align) (\<lambda>s.
     bind_res (sub_chk s 1) (\<lambda>t.
     bind_res (sub_chk align 1) (\<lambda>mask. Inr (t AND NOT mask))))"

definition align_down :: "u64 \<Rightarrow> u64 \<Rightarrow> u64 res" where
  "align_down addr align = bind_res (sub_chk align 1) (\<lambda>mask. Inr (addr AND NOT mask))"

fun compute_usable_range_from ::
  "MemoryRegion list \<Rightarrow> u64 \<Rightarrow> u64 \<Rightarrow> u64 \<Rightarrow> (u64 \<times> u64 \<times> u64) res" where
  "compute_usable_range_from [] lo hi tot = Inr (lo, hi, tot)"
| "compute_usable_range_from (r # rs) lo hi tot =
     (if region_kind r = Usable
      then bind_res (sub_chk (region_end r) (region_start r)) (\<lambda>size.
           bind_res (add_chk tot size) (\<lambda>tot'.
           compute_usable_range_from rs
             (if region_start r < lo then region_start r else lo)
             (if region_end r > hi then region_end r else hi) tot'))
      else compute_usable_range_from rs lo hi tot)"

definition compute_usable_range :: "MemoryRegion list \<Rightarrow> (u64 \<times> u64 \<times> u64) res" where
  "compute_usable_range rs = compute_usable_range_from rs (- 1) 0 0"

definition mark :: "frame_allocator \<Rightarrow> nat \<Rightarrow> bool \<Rightarrow> frame_allocator" where
  "mark fa index used =
     (let word = index div 64; bit = index mod 64; mask = push_bit bit (1 :: u64);
          cell = bitmap fa ! word
      in fa\<lparr>bitmap := (bitmap fa)[word := (if used then cell OR mask else cell AND NOT mask)]\<rparr>)"

definition is_bitmap_frame :: "frame_allocator \<Rightarrow> nat \<Rightarrow> bool res" where
  "is_bitmap_frame fa index =
     bind_res (mul_chk (of_nat index) FRAME_SIZE) (\<lambda>off.
     bind_res (add_chk (first_frame fa) off) (\<lambda>frame_addr.
     if frame_addr \<ge> bitmap_addr fa
     then bind_res (add_chk (bitmap_addr fa) (of_nat (bitmap_words fa * 8))) (\<lambda>bend.
            Inr (frame_addr < bend))
     else Inr False))"

text \<open>\<^verbatim>\<open>(a..b).step_by(4096)\<close>\<close>

definition frames_between :: "u64 \<Rightarrow> u64 \<Rightarrow> u64 list" where
  "frames_between a b = map (\<lambda>k. a + of_nat (4096 * k)) [0..<(unat b - unat a + 4095) div 4096]"

definition free_region_frame :: "u64 \<Rightarrow> frame_allocator \<Rightarrow> frame_allocator res" where
  "free_region_frame frame fa =
     (if frame \<ge> first_frame fa
      then let index = unat (frame - first_frame fa) div 4096
           in if index < frame_count fa
              then bind_res (is_bitmap_frame fa index) (\<lambda>b.
                     Inr (if b then fa else mark fa index False))
              else Inr fa
      else Inr fa)"

definition free_region :: "MemoryRegion \<Rightarrow> frame_allocator \<Rightarrow> frame_allocator res" where
  "free_region r fa =
     (if region_kind r = Usable
      then bind_res (align_up (region_start r) FRAME_SIZE) (\<lambda>region_first.
           bind_res (align_down (region_end r) FRAME_SIZE) (\<lambda>region_last.
           for_each free_region_frame (frames_between region_first region_last) fa))
      else Inr fa)"

definition init_frames :: "MemoryRegion list \<Rightarrow> frame_allocator res" where
  "init_frames regions =
     bind_res (compute_usable_range regions) (\<lambda>(usable_start, usable_end, _).
     bind_res (align_up usable_start FRAME_SIZE) (\<lambda>first.
     bind_res (align_down usable_end FRAME_SIZE) (\<lambda>last.
     bind_res (sub_chk last first) (\<lambda>span.
     let count = unat span div 4096;
         words = (count + 64 - 1) div 64;
         bitmap_bytes = words * 8
     in bind_res (align_up first 8) (\<lambda>addr.
     let fa0 = \<lparr>first_frame = first, frame_count = count, bitmap_addr = addr,
                bitmap = replicate words 0, bitmap_words = words\<rparr>;
         fa1 = fold (\<lambda>i fa. mark fa i True) [0..<count] fa0
     in bind_res (for_each free_region regions fa1) (\<lambda>fa2.
     bind_res (sub_chk addr first) (\<lambda>d0.
     bind_res (add_chk addr (of_nat bitmap_bytes)) (\<lambda>bend.
     bind_res (sub_chk bend first) (\<lambda>d1.
     let bitmap_first = unat d0 div 4096;
         bitmap_last = unat d1 div 4096 + 1
     in Inr (fold (\<lambda>i fa. mark fa i True) [bitmap_first..<min bitmap_last count] fa2))))))))))"

text \<open>\<^verbatim>\<open>u64::trailing_ones\<close>\<close>

definition trailing_ones :: "u64 \<Rightarrow> nat" where
  "trailing_ones v = length (takeWhile (bit v) [0..<64])"

function allocate_from :: "frame_allocator \<Rightarrow> nat \<Rightarrow> u64 option \<times> frame_allocator" where
  "allocate_from fa word =
     (if word < bitmap_words fa
      then let value = bitmap fa ! word
           in if value \<noteq> - 1
              then let bit = trailing_ones value;
                       fa' = fa\<lparr>bitmap := (bitmap fa)[word := value OR push_bit bit 1]\<rparr>;
                       index = word * 64 + bit
                   in if index < frame_count fa
                      then (Some (first_frame fa + of_nat index * FRAME_SIZE), fa')
                      else allocate_from fa' (Suc word)
              else allocate_from fa (Suc word)
      else (None, fa))"
  by pat_completeness auto
termination
  by (relation "measure (\<lambda>(fa, word). bitmap_words fa - word)") (auto simp: Let_def)

declare allocate_from.simps [simp del]

definition allocate_frame :: "frame_allocator \<Rightarrow> u64 option \<times> frame_allocator" where
  "allocate_frame fa = allocate_from fa 0"

definition free_frame :: "frame_allocator \<Rightarrow> u64 \<Rightarrow> frame_allocator" where
  "free_frame fa frame =
     (if frame < first_frame fa then fa
      else let index = unat (frame - first_frame fa) div 4096
           in if index \<ge> frame_count fa then fa else mark fa index False)"

definition total_frames :: "frame_allocator \<Rightarrow> nat" where
  "total_frames fa = frame_count fa"

section \<open>Abstract state and invariant\<close>

definition used :: "frame_allocator \<Rightarrow> nat \<Rightarrow> bool" where
  "used fa i = bit (bitmap fa ! (i div 64)) (i mod 64)"

definition frame_addr :: "frame_allocator \<Rightarrow> nat \<Rightarrow> u64" where
  "frame_addr fa i = first_frame fa + of_nat (4096 * i)"

definition free_frames :: "frame_allocator \<Rightarrow> u64 set" where
  "free_frames fa = frame_addr fa ` {i. i < frame_count fa \<and> \<not> used fa i}"

definition managed_frames :: "frame_allocator \<Rightarrow> u64 set" where
  "managed_frames fa = frame_addr fa ` {..<frame_count fa}"

definition fa_inv :: "frame_allocator \<Rightarrow> bool" where
  "fa_inv fa \<longleftrightarrow>
     length (bitmap fa) = bitmap_words fa \<and> bitmap_words fa = (frame_count fa + 63) div 64 \<and>
     page_aligned (first_frame fa) \<and> unat (first_frame fa) + 4096 * frame_count fa < 2 ^ 64"

text \<open>Everything but the bitmap's contents stays fixed after initialisation.\<close>

definition same_layout :: "frame_allocator \<Rightarrow> frame_allocator \<Rightarrow> bool" where
  "same_layout fa fa' \<longleftrightarrow>
     first_frame fa' = first_frame fa \<and> frame_count fa' = frame_count fa \<and>
     bitmap_addr fa' = bitmap_addr fa \<and> bitmap_words fa' = bitmap_words fa \<and>
     length (bitmap fa') = length (bitmap fa)"

section \<open>Bits and indices\<close>

lemma trailing_ones_free:
  assumes "v \<noteq> - 1"
  shows "trailing_ones v < 64" "\<not> bit v (trailing_ones v)" "\<And>j. j < trailing_ones v \<Longrightarrow> bit v j"
proof -
  have "\<exists>n<64. \<not> bit v n"
  proof (rule ccontr)
    assume "\<not> (\<exists>n<64. \<not> bit v n)"
    then have "v = - 1" by (intro bit_word_eqI) auto
    with assms show False by simp
  qed
  then obtain n where n: "n < 64" "\<not> bit v n" by blast
  show lt: "trailing_ones v < 64"
  proof (rule ccontr)
    assume "\<not> trailing_ones v < 64"
    then have "length (takeWhile (bit v) [0..<64]) = length [0..<64]"
      using length_takeWhile_le [of "bit v" "[0..<64]"] by (simp add: trailing_ones_def)
    then have "takeWhile (bit v) [0..<64] = [0..<64]"
      by (metis takeWhile_eq_take take_all_iff order_refl)
    then have "\<forall>i\<in>set [0..<64]. bit v i" by (simp only: takeWhile_eq_all_conv)
    with n show False by auto
  qed
  then show "\<not> bit v (trailing_ones v)"
    using nth_length_takeWhile [of "bit v" "[0..<64]"] by (simp add: trailing_ones_def)
  fix j assume j: "j < trailing_ones v"
  then have "takeWhile (bit v) [0..<64] ! j = j"
    using lt by (simp add: takeWhile_nth trailing_ones_def)
  with j show "bit v j"
    by (metis nth_mem set_takeWhileD trailing_ones_def)
qed

lemma same_layout_refl [simp]: "same_layout fa fa"
  by (simp add: same_layout_def)

lemma same_layout_trans: "same_layout a b \<Longrightarrow> same_layout b c \<Longrightarrow> same_layout a c"
  by (simp add: same_layout_def)

lemma same_layout_mark [simp]: "same_layout fa (mark fa i u)"
  by (simp add: same_layout_def mark_def Let_def)

lemma fa_inv_layout: "same_layout fa fa' \<Longrightarrow> fa_inv fa' \<longleftrightarrow> fa_inv fa"
  by (auto simp: same_layout_def fa_inv_def)

lemma frame_addr_layout: "same_layout fa fa' \<Longrightarrow> frame_addr fa' = frame_addr fa"
  by (simp add: same_layout_def frame_addr_def fun_eq_iff)

lemma fa_inv_mark [simp]: "fa_inv (mark fa i u) = fa_inv fa"
  by (rule fa_inv_layout) simp

lemma word_in_bitmap: "fa_inv fa \<Longrightarrow> i < frame_count fa \<Longrightarrow> i div 64 < length (bitmap fa)"
  by (auto simp: fa_inv_def)

lemma div_mod_64_eq: "(i div 64 = j div 64 \<and> i mod 64 = j mod 64) = (i = (j :: nat))"
  by (metis div_mult_mod_eq)

lemma used_mark:
  assumes "i div 64 < length (bitmap fa)"
  shows "used (mark fa i u) j = (if j = i then u else used fa j)"
proof (cases "j div 64 = i div 64")
  case True
  then have "j = i \<longleftrightarrow> j mod 64 = i mod 64" using div_mod_64_eq [of j i] by auto
  with True assms show ?thesis
    by (auto simp: used_def mark_def Let_def bit_or_iff bit_and_iff bit_not_iff bit_exp_iff
        nth_list_update)
next
  case False
  then show ?thesis by (auto simp: used_def mark_def Let_def)
qed

lemma frame_addr_eq: "frame_addr fa i = first_frame fa + of_nat i * FRAME_SIZE"
  by (simp add: frame_addr_def FRAME_SIZE_def)

lemma unat_frame_addr:
  assumes "fa_inv fa" "i < frame_count fa"
  shows "unat (frame_addr fa i) = unat (first_frame fa) + 4096 * i"
proof -
  have "4096 * i < 4096 * frame_count fa" using assms(2) by simp
  with assms(1) have "unat (first_frame fa) + 4096 * i < 2 ^ 64" by (simp add: fa_inv_def)
  then show ?thesis by (simp add: frame_addr_def unat_word_ariths unat_of_nat)
qed

lemma frame_addr_inject:
  assumes "fa_inv fa" "i < frame_count fa" "j < frame_count fa"
  shows "frame_addr fa i = frame_addr fa j \<longleftrightarrow> i = j"
  using assms by (auto simp: word_unat_eq_iff unat_frame_addr)

lemma frame_addr_aligned:
  "fa_inv fa \<Longrightarrow> i < frame_count fa \<Longrightarrow> page_aligned (frame_addr fa i)"
  by (simp add: page_aligned_iff unat_frame_addr fa_inv_def mod_add_eq)

lemma free_frames_subset: "free_frames fa \<subseteq> managed_frames fa"
  by (auto simp: free_frames_def managed_frames_def)

lemma finite_free_frames [simp]: "finite (free_frames fa)"
  by (simp add: free_frames_def)

lemma in_free_frames_iff:
  assumes "fa_inv fa" "i < frame_count fa"
  shows "frame_addr fa i \<in> free_frames fa \<longleftrightarrow> \<not> used fa i"
  using assms by (auto simp: free_frames_def frame_addr_inject)

section \<open>Allocation\<close>

text \<open>What one word of the search does: its first clear bit.\<close>

lemma allocate_from_step:
  assumes inv: "fa_inv fa" and w: "word < bitmap_words fa" and v: "bitmap fa ! word \<noteq> - 1"
  defines "i \<equiv> word * 64 + trailing_ones (bitmap fa ! word)"
  shows "fa\<lparr>bitmap := (bitmap fa)[word := bitmap fa ! word OR push_bit (trailing_ones (bitmap fa ! word)) 1]\<rparr>
           = mark fa i True"
    and "\<not> used fa i" and "\<And>j. word * 64 \<le> j \<Longrightarrow> j < i \<Longrightarrow> used fa j" and "i div 64 = word"
proof -
  let ?t = "trailing_ones (bitmap fa ! word)"
  note t = trailing_ones_free [OF v]
  show d: "i div 64 = word" using t(1) by (simp add: i_def)
  have m: "i mod 64 = ?t" using t(1) by (simp add: i_def)
  show "fa\<lparr>bitmap := (bitmap fa)[word := bitmap fa ! word OR push_bit ?t 1]\<rparr> = mark fa i True"
    by (simp add: mark_def Let_def d m)
  show "\<not> used fa i" using t(2) by (simp add: used_def d m)
  show "used fa j" if "word * 64 \<le> j" "j < i" for j
  proof -
    from that(1) obtain k where k: "j = word * 64 + k" using le_Suc_ex by blast
    with that(2) t(1) have "j div 64 = word" "j mod 64 = k" "k < ?t" by (simp_all add: i_def)
    with t(3) show ?thesis by (simp add: used_def)
  qed
qed

lemma all_ones_used: "bitmap fa ! word = - 1 \<Longrightarrow> j div 64 = word \<Longrightarrow> used fa j"
  by (simp add: used_def)

text \<open>
  The result of a search: the lowest free frame is taken, or every frame was in use. The
  bits beyond \<open>frame_count\<close> in the last word do not matter.
\<close>

definition alloc_post :: "frame_allocator \<Rightarrow> u64 option \<Rightarrow> frame_allocator \<Rightarrow> bool" where
  "alloc_post fa r fa' \<longleftrightarrow> same_layout fa fa' \<and>
    (case r of
       None \<Rightarrow> (\<forall>j<frame_count fa. used fa j \<and> used fa' j)
     | Some f \<Rightarrow> \<exists>i<frame_count fa. f = frame_addr fa i \<and> \<not> used fa i \<and> (\<forall>j<i. used fa j) \<and>
                  (\<forall>j<frame_count fa. used fa' j = (used fa j \<or> j = i)))"

lemma alloc_post_skip:
  assumes "alloc_post fa1 r fa'" "same_layout fa fa1" "\<And>j. j < frame_count fa \<Longrightarrow> used fa1 j = used fa j"
  shows "alloc_post fa r fa'"
proof -
  have eqs: "frame_count fa1 = frame_count fa" "frame_addr fa1 = frame_addr fa"
    using assms(2) frame_addr_layout [OF assms(2)] by (simp_all add: same_layout_def)
  have "same_layout fa fa'" using assms(1,2) same_layout_trans by (auto simp: alloc_post_def)
  with assms(1,3) show ?thesis unfolding alloc_post_def eqs
    by (cases r) (auto 0 3)
qed

lemma allocate_from_spec:
  assumes "fa_inv fa" "\<And>j. j < frame_count fa \<Longrightarrow> j < word * 64 \<Longrightarrow> used fa j"
    and "allocate_from fa word = (r, fa')"
  shows "alloc_post fa r fa'"
  using assms
proof (induction fa word arbitrary: r fa' rule: allocate_from.induct)
  case (1 fa word)
  note inv = "1.prems"(1) and below = "1.prems"(2) and run = "1.prems"(3)
  show ?case
  proof (cases "word < bitmap_words fa")
    case False
    then have "frame_count fa \<le> word * 64" using inv by (auto simp: fa_inv_def)
    with False run below show ?thesis by (auto simp: allocate_from.simps [of fa word] alloc_post_def)
  next
    case w: True
    show ?thesis
    proof (cases "bitmap fa ! word = - 1")
      case True
      have run': "allocate_from fa (Suc word) = (r, fa')"
        using run w True by (simp add: allocate_from.simps [of fa word])
      have below': "used fa j" if "j < frame_count fa" "j < Suc word * 64" for j
        using below [OF that(1)] all_ones_used [OF True, of j] that(2)
        by (cases "j < word * 64") auto
      show ?thesis by (rule "1.IH"(2)) (use w True inv below' run' in auto)
    next
      case False
      let ?i = "word * 64 + trailing_ones (bitmap fa ! word)"
      note st = allocate_from_step [OF inv w False]
      have in_bm: "?i div 64 < length (bitmap fa)" using st(4) w inv by (simp add: fa_inv_def)
      have used': "used (mark fa ?i True) j = (used fa j \<or> j = ?i)" for j
        using used_mark [OF in_bm, of True j] by auto
      show ?thesis
      proof (cases "?i < frame_count fa")
        case True
        then have "r = Some (frame_addr fa ?i)" "fa' = mark fa ?i True"
          using run w False st(1) by (simp_all add: allocate_from.simps [of fa word] Let_def frame_addr_eq)
        moreover have "used fa j" if "j < ?i" for j
          using below [of j] st(3) [of j] that True by (cases "j < word * 64") auto
        ultimately show ?thesis using True st(2) used' by (auto simp: alloc_post_def)
      next
        case big: False
        note IH = "1.IH"(1) [OF w refl False refl refl refl big, unfolded st(1)]
        have run': "allocate_from (mark fa ?i True) (Suc word) = (r, fa')"
          using run w False big st(1) by (simp add: allocate_from.simps [of fa word] Let_def)
        have fc: "frame_count (mark fa ?i True) = frame_count fa" by (simp add: mark_def Let_def)
        have below': "used (mark fa ?i True) j"
          if "j < frame_count (mark fa ?i True)" "j < Suc word * 64" for j
          using used' [of j] below [of j] st(3) [of j] big that by (cases "j < word * 64") (auto simp: fc)
        have "alloc_post (mark fa ?i True) r fa'" using IH inv below' run' by simp
        then show ?thesis by (rule alloc_post_skip) (use used' big in auto)
      qed
    qed
  qed
qed

lemma allocate_frame_spec:
  "fa_inv fa \<Longrightarrow> allocate_frame fa = (r, fa') \<Longrightarrow> alloc_post fa r fa'"
  by (rule allocate_from_spec [where word = 0]) (simp_all add: allocate_frame_def)

text \<open>The two outcomes over the abstract set of free frames.\<close>

lemma allocate_frame_Some:
  assumes "fa_inv fa" "allocate_frame fa = (Some f, fa')"
  shows "f \<in> free_frames fa" "\<And>g. g \<in> free_frames fa \<Longrightarrow> f \<le> g"
    "free_frames fa' = free_frames fa - {f}" "fa_inv fa'" "same_layout fa fa'"
proof -
  from allocate_frame_spec [OF assms] obtain i where i: "i < frame_count fa" "f = frame_addr fa i"
      "\<not> used fa i" "\<forall>j<i. used fa j" "\<forall>j<frame_count fa. used fa' j = (used fa j \<or> j = i)"
    and lay: "same_layout fa fa'" by (auto simp: alloc_post_def)
  show "same_layout fa fa'" by (rule lay)
  show "fa_inv fa'" using fa_inv_layout [OF lay] assms(1) by simp
  show "f \<in> free_frames fa" using i by (auto simp: free_frames_def)
  show "f \<le> g" if "g \<in> free_frames fa" for g
  proof -
    from that obtain k where k: "k < frame_count fa" "\<not> used fa k" "g = frame_addr fa k"
      by (auto simp: free_frames_def)
    with i(4) have "i \<le> k" by (meson not_le)
    then show ?thesis using i(1,2) k(1,3) assms(1) by (simp add: word_le_nat_alt unat_frame_addr)
  qed
  have fc: "frame_count fa' = frame_count fa" using lay by (simp add: same_layout_def)
  show "free_frames fa' = free_frames fa - {f}"
    using i assms(1) by (auto simp: free_frames_def frame_addr_layout [OF lay] fc frame_addr_inject)
qed

lemma allocate_frame_None:
  assumes "fa_inv fa" "allocate_frame fa = (None, fa')"
  shows "free_frames fa = {}" "free_frames fa' = {}" "fa_inv fa'" "same_layout fa fa'"
proof -
  from allocate_frame_spec [OF assms] have all: "\<forall>j<frame_count fa. used fa j \<and> used fa' j"
    and lay: "same_layout fa fa'" by (auto simp: alloc_post_def)
  show "same_layout fa fa'" by (rule lay)
  show "fa_inv fa'" using fa_inv_layout [OF lay] assms(1) by simp
  show "free_frames fa = {}" using all by (auto simp: free_frames_def)
  show "free_frames fa' = {}" using all lay by (auto simp: free_frames_def same_layout_def)
qed

section \<open>Freeing\<close>

lemma index_of_frame_addr:
  assumes "fa_inv fa" "i < frame_count fa"
  shows "first_frame fa \<le> frame_addr fa i" "unat (frame_addr fa i - first_frame fa) div 4096 = i"
  using assms by (simp_all add: word_le_nat_alt unat_frame_addr unat_sub_le)

lemma frame_addr_of_index:
  assumes "page_aligned (first_frame fa)" "page_aligned f" "first_frame fa \<le> f"
  shows "frame_addr fa (unat (f - first_frame fa) div 4096) = f"
proof -
  have "unat (f - first_frame fa) mod 4096 = 0"
    using assms by (simp add: unat_sub_le page_aligned_iff mod_eq_0_iff_dvd)
  then have "4096 * (unat (f - first_frame fa) div 4096) = unat (f - first_frame fa)"
    by (simp add: mod_eq_0_iff_dvd del: mod_0_imp_dvd)
  then have "frame_addr fa (unat (f - first_frame fa) div 4096) = first_frame fa + (f - first_frame fa)"
    by (simp only: frame_addr_def of_nat_unat ucast_id)
  then show ?thesis by simp
qed

lemma free_frames_mark_False:
  assumes "fa_inv fa" "i < frame_count fa"
  shows "free_frames (mark fa i False) = insert (frame_addr fa i) (free_frames fa)"
proof -
  have fc: "frame_count (mark fa i False) = frame_count fa" by (simp add: mark_def Let_def)
  show ?thesis using assms used_mark [OF word_in_bitmap [OF assms]]
    by (auto simp: free_frames_def fc frame_addr_layout [OF same_layout_mark])
qed

lemma free_frame_managed:
  assumes "fa_inv fa" "f \<in> managed_frames fa"
  shows "free_frames (free_frame fa f) = insert f (free_frames fa)"
    "fa_inv (free_frame fa f)" "same_layout fa (free_frame fa f)"
proof -
  from assms(2) obtain i where i: "i < frame_count fa" "f = frame_addr fa i"
    by (auto simp: managed_frames_def)
  then have "free_frame fa f = mark fa i False"
    using index_of_frame_addr [OF assms(1) i(1)] by (simp add: free_frame_def)
  then show "free_frames (free_frame fa f) = insert f (free_frames fa)"
    "fa_inv (free_frame fa f)" "same_layout fa (free_frame fa f)"
    using assms(1) i free_frames_mark_False by simp_all
qed

lemma free_frame_unmanaged:
  assumes "fa_inv fa" "frame_of f \<notin> managed_frames fa"
  shows "free_frame fa f = fa"
proof (rule ccontr)
  assume "free_frame fa f \<noteq> fa"
  then have ge: "first_frame fa \<le> f" and lt: "unat (f - first_frame fa) div 4096 < frame_count fa"
    by (auto simp: free_frame_def Let_def not_less split: if_splits)
  let ?i = "unat (f - first_frame fa) div 4096"
  obtain q where q: "unat (first_frame fa) = 4096 * q"
    using assms(1) by (auto simp: fa_inv_def page_aligned_iff mod_eq_0_iff_dvd elim: dvdE)
  obtain d where d: "unat f = 4096 * q + d" using ge q le_Suc_ex by (auto simp: word_le_nat_alt)
  have "?i = d div 4096" using ge by (simp add: unat_sub_le q d)
  then have "unat (frame_addr fa ?i) = unat (frame_of f)"
    using unat_frame_addr [OF assms(1) lt] by (simp only: unat_frame_of_div q d) simp
  then have "frame_of f = frame_addr fa ?i" by (simp add: word_unat_eq_iff)
  with lt assms(2) show False by (auto simp: managed_frames_def)
qed

section \<open>The interface the rest of the kernel relies on\<close>

text \<open>
  The page tables, the file system, the loader and the virtual-memory system calls take
  their frames one at a time. \<open>take_frames\<close> is their loop: up to \<open>n\<close> allocations, stopping
  when none is left.
\<close>

fun take_frames :: "('s \<Rightarrow> u64 option \<times> 's) \<Rightarrow> nat \<Rightarrow> 's \<Rightarrow> u64 list \<times> 's" where
  "take_frames alloc 0 s = ([], s)"
| "take_frames alloc (Suc n) s =
     (case alloc s of
        (None, s') \<Rightarrow> ([], s')
      | (Some f, s') \<Rightarrow> (case take_frames alloc n s' of (fs, s'') \<Rightarrow> (f # fs, s'')))"

locale frame_source =
  fixes alloc :: "'s \<Rightarrow> u64 option \<times> 's"
    and release :: "'s \<Rightarrow> u64 \<Rightarrow> 's"
    and avail :: "'s \<Rightarrow> u64 set"
    and managed :: "'s \<Rightarrow> u64 set"
    and inv :: "'s \<Rightarrow> bool"
  assumes alloc_take: "inv s \<Longrightarrow> alloc s = (Some f, s') \<Longrightarrow>
      f \<in> avail s \<and> avail s' = avail s - {f} \<and> managed s' = managed s \<and> inv s'"
    and alloc_empty: "inv s \<Longrightarrow> alloc s = (None, s') \<Longrightarrow>
      avail s = {} \<and> avail s' = {} \<and> managed s' = managed s \<and> inv s'"
    and release_give: "inv s \<Longrightarrow> f \<in> managed s \<Longrightarrow>
      avail (release s f) = insert f (avail s) \<and> managed (release s f) = managed s \<and> inv (release s f)"
    and avail_managed: "inv s \<Longrightarrow> avail s \<subseteq> managed s"
    and managed_aligned: "inv s \<Longrightarrow> f \<in> managed s \<Longrightarrow> page_aligned f"
    and avail_finite: "inv s \<Longrightarrow> finite (avail s)"
begin

lemma alloc_not_avail: "inv s \<Longrightarrow> alloc s = (Some f, s') \<Longrightarrow> f \<notin> avail s'"
  using alloc_take by blast

lemma alloc_aligned: "inv s \<Longrightarrow> alloc s = (Some f, s') \<Longrightarrow> page_aligned f"
  using alloc_take avail_managed managed_aligned by blast

lemma alloc_release: "inv s \<Longrightarrow> alloc s = (Some f, s') \<Longrightarrow> avail (release s' f) = avail s"
  using alloc_take [of s f s'] avail_managed [of s] release_give [of s' f] by auto

lemma take_frames_spec:
  assumes "inv s" "take_frames alloc n s = (fs, s')"
  shows "distinct fs \<and> set fs \<subseteq> avail s \<and> avail s' = avail s - set fs \<and>
    managed s' = managed s \<and> inv s' \<and> length fs = min n (card (avail s))"
  using assms
proof (induction n arbitrary: s fs)
  case (Suc n)
  show ?case
  proof (cases "alloc s")
    case (Pair r s1)
    show ?thesis
    proof (cases r)
      case None
      with Pair Suc.prems(2) alloc_empty [OF Suc.prems(1)] show ?thesis by auto
    next
      case (Some f)
      obtain gs where gs: "take_frames alloc n s1 = (gs, s')" "fs = f # gs"
        using Suc.prems(2) Pair Some by (auto split: prod.splits)
      have t: "f \<in> avail s" "avail s1 = avail s - {f}" "managed s1 = managed s" "inv s1"
        using alloc_take [OF Suc.prems(1)] Pair Some by auto
      have "card (avail s) = Suc (card (avail s1))"
        using t(1,2) avail_finite [OF Suc.prems(1)] by (metis card_Suc_Diff1)
      moreover have "distinct gs" "set gs \<subseteq> avail s - {f}" "avail s' = avail s - {f} - set gs"
        "managed s' = managed s" "inv s'" "length gs = min n (card (avail s1))"
        using Suc.IH [OF t(4) gs(1)] t(2,3) by simp_all
      moreover have "distinct fs" "set fs \<subseteq> avail s" "avail s' = avail s - set fs"
        using calculation(2-4) t(1) gs(2) by auto
      ultimately show ?thesis using gs(2) by simp
    qed
  qed
qed simp

end

text \<open>The bitmap allocator provides the interface.\<close>

interpretation fa: frame_source allocate_frame free_frame free_frames managed_frames fa_inv
proof
  fix fa f fa'
  assume inv: "fa_inv fa"
  have lay: "managed_frames b = managed_frames a" if "same_layout a b" for a b
    using that by (simp add: managed_frames_def frame_addr_layout [OF that] same_layout_def)
  show "f \<in> free_frames fa \<and> free_frames fa' = free_frames fa - {f} \<and>
      managed_frames fa' = managed_frames fa \<and> fa_inv fa'" if "allocate_frame fa = (Some f, fa')"
    using allocate_frame_Some [OF inv that] lay by blast
  show "free_frames fa = {} \<and> free_frames fa' = {} \<and> managed_frames fa' = managed_frames fa \<and> fa_inv fa'"
    if "allocate_frame fa = (None, fa')"
    using allocate_frame_None [OF inv that] lay by blast
  show "free_frames (free_frame fa f) = insert f (free_frames fa) \<and>
      managed_frames (free_frame fa f) = managed_frames fa \<and> fa_inv (free_frame fa f)"
    if "f \<in> managed_frames fa"
    using free_frame_managed [OF inv that] lay by blast
  show "free_frames fa \<subseteq> managed_frames fa" by (rule free_frames_subset)
  show "page_aligned f" if "f \<in> managed_frames fa"
    using that frame_addr_aligned [OF inv] by (auto simp: managed_frames_def)
  show "finite (free_frames fa)" by simp
qed

end
