(* ===== verification/Frame_Init.thy ===== *)
theory Frame_Init
  imports Frame_Allocator
begin

text \<open>
  Initialisation of the frame allocator from the boot memory map
  (\<^verbatim>\<open>FrameAllocator::init\<close>): which frames are free when it returns.
\<close>

text \<open>A frame lies inside a usable region.\<close>

definition usable_frame :: "MemoryRegion list \<Rightarrow> u64 \<Rightarrow> bool" where
  "usable_frame regions f \<longleftrightarrow> page_aligned f \<and>
     (\<exists>r\<in>set regions. region_kind r = Usable \<and> unat (region_start r) \<le> unat f \<and>
        unat f + 4096 \<le> unat (region_end r))"

section \<open>Alignment\<close>

lemma align_up_Inr:
  "align_up x a = Inr y \<Longrightarrow> unat x + unat a < 2 ^ 64 \<and> y = (x + a - 1) AND NOT (a - 1)"
  by (auto simp: align_up_def bind_res_Inr_iff add_chk_Inr_iff sub_chk_Inr_iff)

lemma ceil_page_le: "(x + 4095) div 4096 \<le> k \<longleftrightarrow> x \<le> 4096 * (k :: nat)"
  using div_less_iff_less_mult [of 4096 "x + 4095" "Suc k"] by (auto simp: less_Suc_eq_le)

lemma lt_floor_page: "k < z div 4096 \<longleftrightarrow> 4096 * k + 4096 \<le> (z :: nat)"
  using less_eq_div_iff_mult_less_eq [of 4096 "Suc k" z] by (auto simp: Suc_le_eq)

lemma align_up_page:
  assumes "align_up x FRAME_SIZE = Inr y"
  shows "page_aligned y" "unat y = 4096 * ((unat x + 4095) div 4096)"
proof -
  have b: "unat x + 4096 < 2 ^ 64" and y: "y = frame_of (4095 + x)"
    using align_up_Inr [OF assms] by (simp_all add: FRAME_SIZE_def frame_of_def)
  have "unat (4095 + x) = unat x + 4095" using b by (simp add: unat_word_ariths)
  then show "page_aligned y" "unat y = 4096 * ((unat x + 4095) div 4096)"
    by (simp_all add: y unat_frame_of_div)
qed

lemma align_down_page:
  assumes "align_down x FRAME_SIZE = Inr y"
  shows "page_aligned y" "unat y = 4096 * (unat x div 4096)"
proof -
  have y: "y = frame_of x"
    using assms by (auto simp: align_down_def FRAME_SIZE_def bind_res_Inr_iff sub_chk_Inr_iff frame_of_def)
  then show "page_aligned y" "unat y = 4096 * (unat x div 4096)"
    by (simp_all add: unat_frame_of_div)
qed

lemma align_up_8_aligned:
  assumes "align_up x 8 = Inr y" "page_aligned x"
  shows "y = x"
proof -
  have b: "unat x + 8 < 2 ^ 64" and y: "y = (7 + x) AND NOT 7"
    using align_up_Inr [OF assms(1)] by simp_all
  have bits: "\<not> bit x n" if "n < 12" for n
  proof -
    have "bit x n = bit (take_bit 12 x) n" using that by (simp add: bit_take_bit_iff)
    then show ?thesis using assms(2) by (simp add: page_aligned_def and_FFF)
  qed
  have b7: "bit (7 :: u64) n \<longleftrightarrow> n < 3" for n
    using bit_mask_iff [of 3 n, where 'a = "64 word"] by (auto simp: mask_eq_exp_minus_1 possible_bit_word)
  have "7 + x = 7 OR x"
  proof (rule disjunctive_add)
    show "\<not> bit (7 :: u64) n \<or> \<not> bit x n" for n using bits [of n] b7 [of n] by linarith
  qed
  moreover have "(7 OR x) AND NOT 7 = x"
  proof (rule bit_word_eqI)
    fix n
    assume "n < LENGTH(64)"
    then show "bit ((7 OR x) AND NOT 7) n = bit x n"
      using bits [of n] b7 [of n] by (simp only: bit_or_iff bit_and_iff bit_not_iff possible_bit_word) auto
  qed
  ultimately show ?thesis using y by simp
qed

lemma aligned_between:
  assumes "page_aligned f"
  shows "(unat x + 4095) div 4096 \<le> unat f div 4096 \<longleftrightarrow> unat x \<le> unat f"
    and "unat f div 4096 < unat z div 4096 \<longleftrightarrow> unat f + 4096 \<le> unat z"
proof -
  obtain k where k: "unat f = 4096 * k"
    using assms by (auto simp: page_aligned_iff mod_eq_0_iff_dvd elim: dvdE)
  show "(unat x + 4095) div 4096 \<le> unat f div 4096 \<longleftrightarrow> unat x \<le> unat f" using k ceil_page_le by simp
  show "unat f div 4096 < unat z div 4096 \<longleftrightarrow> unat f + 4096 \<le> unat z" using k lt_floor_page by simp
qed

lemma set_frames_between:
  assumes "page_aligned a" "page_aligned b"
  shows "set (frames_between a b) = {f. page_aligned f \<and> unat a div 4096 \<le> unat f div 4096 \<and>
     unat f div 4096 < unat b div 4096}"
proof -
  obtain p q where pq: "unat a = 4096 * p" "unat b = 4096 * q"
    using assms by (auto simp: page_aligned_iff mod_eq_0_iff_dvd elim!: dvdE)
  have qb: "4096 * q < 18446744073709551616" using unat_u64_less [of b] pq by simp
  have n: "(unat b - unat a + 4095) div 4096 = q - p" using pq by linarith
  have u: "unat (a + of_nat (4096 * k)) = 4096 * (p + k)" if "k < q - p" for k
  proof -
    have "4096 * (p + k) < 4096 * q" using that by simp
    then have "4096 * (p + k) < 18446744073709551616" using qb by linarith
    then show ?thesis using pq by (simp add: unat_word_ariths unat_of_nat)
  qed
  show ?thesis
  proof (intro set_eqI iffI)
    fix f assume "f \<in> set (frames_between a b)"
    then obtain k where k: "k < q - p" "f = a + of_nat (4096 * k)"
      by (auto simp: frames_between_def n)
    then show "f \<in> {f. page_aligned f \<and> unat a div 4096 \<le> unat f div 4096 \<and> unat f div 4096 < unat b div 4096}"
      using u [OF k(1)] pq by (simp add: page_aligned_iff del: of_nat_mult)
  next
    fix f assume "f \<in> {f. page_aligned f \<and> unat a div 4096 \<le> unat f div 4096 \<and> unat f div 4096 < unat b div 4096}"
    then obtain r where r: "unat f = 4096 * r" "p \<le> r" "r < q"
      using pq by (auto simp: page_aligned_iff mod_eq_0_iff_dvd elim!: dvdE)
    then have "unat (a + of_nat (4096 * (r - p))) = unat f" using u [of "r - p"] by simp
    then have "f = a + of_nat (4096 * (r - p))" by (simp only: word_unat_eq_iff)
    moreover have "r - p \<in> set [0..<q - p]" using r by simp
    ultimately show "f \<in> set (frames_between a b)" unfolding frames_between_def n set_map by (rule image_eqI)
  qed
qed

section \<open>The loops\<close>

lemma fold_mark_True:
  assumes "fa_inv fa" "set is \<subseteq> {..<frame_count fa}"
  shows "same_layout fa (fold (\<lambda>i fa. mark fa i True) is fa)"
    "used (fold (\<lambda>i fa. mark fa i True) is fa) j = (j \<in> set is \<or> used fa j)"
proof -
  have "same_layout fa (fold (\<lambda>i fa. mark fa i True) is fa) \<and>
    used (fold (\<lambda>i fa. mark fa i True) is fa) j = (j \<in> set is \<or> used fa j)"
    using assms
  proof (induction "is" arbitrary: fa)
    case (Cons i "is")
    have fc: "frame_count (mark fa i True) = frame_count fa" by (simp add: mark_def Let_def)
    from Cons.prems have "i < frame_count fa" by simp
    then have bm: "i div 64 < length (bitmap fa)" using Cons.prems(1) by (rule word_in_bitmap [rotated])
    have IH: "same_layout (mark fa i True) (fold (\<lambda>i fa. mark fa i True) is (mark fa i True)) \<and>
      used (fold (\<lambda>i fa. mark fa i True) is (mark fa i True)) j = (j \<in> set is \<or> used (mark fa i True) j)"
      by (rule Cons.IH) (use Cons.prems fc in auto)
    then show ?case using same_layout_trans [OF same_layout_mark [of fa i True]] used_mark [OF bm, of True j]
      by auto
  qed simp
  then show "same_layout fa (fold (\<lambda>i fa. mark fa i True) is fa)"
    "used (fold (\<lambda>i fa. mark fa i True) is fa) j = (j \<in> set is \<or> used fa j)" by auto
qed

text \<open>The bitmap sits at the first frame and does not wrap around the address space.\<close>

definition bitmap_placed :: "frame_allocator \<Rightarrow> bool" where
  "bitmap_placed fa \<longleftrightarrow> bitmap_addr fa = first_frame fa \<and>
     unat (first_frame fa) + 8 * bitmap_words fa < 2 ^ 64"

definition bitmap_index :: "frame_allocator \<Rightarrow> nat \<Rightarrow> bool" where
  "bitmap_index fa i \<longleftrightarrow> 4096 * i < 8 * bitmap_words fa"

lemma is_bitmap_frame_eq:
  assumes "fa_inv fa" "bitmap_placed fa" "i < frame_count fa"
  shows "is_bitmap_frame fa i = Inr (bitmap_index fa i)"
proof -
  have b: "unat (first_frame fa) + 4096 * i < 2 ^ 64" using assms(1,3) by (auto simp: fa_inv_def)
  then have ib: "i < 2 ^ 52" by simp
  have off: "mul_chk (of_nat i) FRAME_SIZE = Inr (of_nat (4096 * i))"
    using ib by (simp add: mul_chk_def FRAME_SIZE_def unat_of_nat)
  have fr: "add_chk (first_frame fa) (of_nat (4096 * i)) = Inr (frame_addr fa i)"
    using b by (simp add: add_chk_def frame_addr_def unat_of_nat del: of_nat_mult)
  have ua: "unat (frame_addr fa i) = unat (first_frame fa) + 4096 * i"
    using unat_frame_addr [OF assms(1,3)] .
  have wb: "unat (first_frame fa) + 8 * bitmap_words fa < 2 ^ 64" using assms(2) by (simp add: bitmap_placed_def)
  then have uw: "unat (of_nat (bitmap_words fa * 8) :: u64) = 8 * bitmap_words fa"
    by (simp only: unat_of_nat) simp
  have be: "add_chk (first_frame fa) (of_nat (bitmap_words fa * 8)) =
      Inr (first_frame fa + of_nat (bitmap_words fa * 8))"
    using wb uw by (simp add: add_chk_def del: of_nat_mult)
  have ub: "unat (first_frame fa + of_nat (bitmap_words fa * 8)) = unat (first_frame fa) + 8 * bitmap_words fa"
    using wb uw by (simp add: unat_add_small del: of_nat_mult)
  show ?thesis
    using assms(2) off fr be by (simp add: is_bitmap_frame_def bitmap_placed_def bitmap_index_def
        word_le_nat_alt word_less_nat_alt ua ub del: of_nat_mult)
qed

lemma bitmap_placed_layout: "same_layout a b \<Longrightarrow> bitmap_placed b = bitmap_placed a"
  by (simp add: bitmap_placed_def same_layout_def)

lemma bitmap_index_layout: "same_layout a b \<Longrightarrow> bitmap_index b = bitmap_index a"
  by (simp add: bitmap_index_def same_layout_def fun_eq_iff)

text \<open>The effect of the freeing loops on one frame: \<open>P\<close> says the loop visits it.\<close>

definition freed_when :: "frame_allocator \<Rightarrow> (u64 \<Rightarrow> bool) \<Rightarrow> frame_allocator \<Rightarrow> bool" where
  "freed_when s P s' \<longleftrightarrow> same_layout s s' \<and>
     (\<forall>i<frame_count s. used s' i = (used s i \<and> \<not> (P (frame_addr s i) \<and> \<not> bitmap_index s i)))"

lemma freed_when_trans:
  assumes "freed_when a P b" "freed_when b Q c"
  shows "freed_when a (\<lambda>f. P f \<or> Q f) c"
proof -
  have lay: "same_layout a b" "same_layout b c" using assms by (auto simp: freed_when_def)
  then have "same_layout a c" by (rule same_layout_trans)
  moreover have "frame_count b = frame_count a" using lay by (simp add: same_layout_def)
  ultimately show ?thesis using assms
    by (auto simp: freed_when_def frame_addr_layout [OF lay(1)] bitmap_index_layout [OF lay(1)])
qed

lemma free_region_frame_effect:
  assumes inv: "fa_inv s" "bitmap_placed s" and al: "page_aligned f"
    and run: "free_region_frame f s = Inr s'"
  shows "freed_when s (\<lambda>g. g = f) s'"
proof (cases "first_frame s \<le> f \<and> unat (f - first_frame s) div 4096 < frame_count s")
  case True
  let ?i = "unat (f - first_frame s) div 4096"
  have fi: "frame_addr s ?i = f"
    using frame_addr_of_index [of s f] inv(1) al True by (simp add: fa_inv_def)
  have s': "s' = (if bitmap_index s ?i then s else mark s ?i False)"
    using run True is_bitmap_frame_eq [OF inv, of ?i] by (simp add: free_region_frame_def Let_def)
  have bm: "?i div 64 < length (bitmap s)" using word_in_bitmap [OF inv(1)] True by simp
  have idx: "frame_addr s i = f \<longleftrightarrow> i = ?i" if "i < frame_count s" for i
    using frame_addr_inject [OF inv(1) that, of ?i] True fi by simp
  show ?thesis
    using idx used_mark [OF bm, of False] by (auto simp: s' freed_when_def simp del: of_nat_mult)
next
  case False
  then have "s' = s" using run by (auto simp: free_region_frame_def Let_def split: if_splits)
  moreover have "frame_addr s i \<noteq> f" if "i < frame_count s" for i
    using index_of_frame_addr [OF inv(1) that] False that by auto
  ultimately show ?thesis by (auto simp: freed_when_def)
qed

lemma freed_when_keeps:
  "freed_when s P s' \<Longrightarrow> fa_inv s \<Longrightarrow> bitmap_placed s \<Longrightarrow> fa_inv s' \<and> bitmap_placed s'"
  using fa_inv_layout [of s s'] bitmap_placed_layout [of s s'] by (auto simp: freed_when_def)

lemma freed_when_cong: "freed_when s P s' \<Longrightarrow> (\<And>f. P f = Q f) \<Longrightarrow> freed_when s Q s'"
  by (simp add: freed_when_def)

lemma for_each_freed:
  assumes "\<And>x s s'. x \<in> set xs \<Longrightarrow> fa_inv s \<Longrightarrow> bitmap_placed s \<Longrightarrow> body x s = Inr s' \<Longrightarrow> freed_when s (P x) s'"
    and "fa_inv s" "bitmap_placed s" "for_each body xs s = Inr s'"
  shows "freed_when s (\<lambda>f. \<exists>x\<in>set xs. P x f) s'"
  using assms
proof (induction xs arbitrary: s)
  case (Cons x xs)
  then obtain s1 where s1: "body x s = Inr s1" "for_each body xs s1 = Inr s'"
    by (auto simp: bind_res_Inr_iff)
  have f1: "freed_when s (P x) s1" using Cons.prems(1) [of x s s1] Cons.prems(2,3) s1(1) by simp
  have "freed_when s1 (\<lambda>f. \<exists>x\<in>set xs. P x f) s'"
    by (rule Cons.IH) (use Cons.prems(1) freed_when_keeps [OF f1] Cons.prems(2,3) s1(2) in auto)
  with f1 show ?case by (auto intro: freed_when_cong [OF freed_when_trans])
qed (auto simp: freed_when_def)

lemma free_region_effect:
  assumes "fa_inv s" "bitmap_placed s" "free_region r s = Inr s'"
  shows "freed_when s (usable_frame [r]) s'"
proof (cases "region_kind r = Usable")
  case True
  then obtain a b where ab: "align_up (region_start r) FRAME_SIZE = Inr a"
      "align_down (region_end r) FRAME_SIZE = Inr b"
    and run: "for_each free_region_frame (frames_between a b) s = Inr s'"
    using assms(3) by (auto simp: free_region_def bind_res_Inr_iff)
  note A = align_up_page [OF ab(1)] and B = align_down_page [OF ab(2)]
  have mem: "f \<in> set (frames_between a b) \<longleftrightarrow> usable_frame [r] f" for f
    using aligned_between(1) [of f "region_start r"] aligned_between(2) [of f "region_end r"] True
    by (auto simp: set_frames_between [OF A(1) B(1)] A(2) B(2) usable_frame_def)
  have "freed_when s (\<lambda>f. \<exists>x\<in>set (frames_between a b). f = x) s'"
  proof (rule for_each_freed [OF _ assms(1,2) run])
    fix x s s'
    assume "x \<in> set (frames_between a b)" "fa_inv s" "bitmap_placed s" "free_region_frame x s = Inr s'"
    then show "freed_when s (\<lambda>f. f = x) s'"
      using free_region_frame_effect mem by (auto simp: usable_frame_def)
  qed
  then show ?thesis by (rule freed_when_cong) (auto simp: mem)
next
  case False
  then show ?thesis using assms(3) by (auto simp: free_region_def freed_when_def usable_frame_def)
qed

lemma free_regions_effect:
  assumes "fa_inv s" "bitmap_placed s" "for_each free_region rs s = Inr s'"
  shows "freed_when s (usable_frame rs) s'"
proof -
  have "freed_when s (\<lambda>f. \<exists>r\<in>set rs. usable_frame [r] f) s'"
    by (rule for_each_freed [OF _ assms]) (auto intro: free_region_effect)
  then show ?thesis by (rule freed_when_cong) (auto simp: usable_frame_def)
qed

section \<open>The result of initialisation\<close>

lemma compute_usable_range_from_bounds:
  assumes "compute_usable_range_from rs lo hi t = Inr (a, b, c)"
  shows "a \<le> lo" "hi \<le> b"
    "\<And>r. r \<in> set rs \<Longrightarrow> region_kind r = Usable \<Longrightarrow> a \<le> region_start r \<and> region_end r \<le> b"
proof -
  have "a \<le> lo \<and> hi \<le> b \<and>
    (\<forall>r\<in>set rs. region_kind r = Usable \<longrightarrow> a \<le> region_start r \<and> region_end r \<le> b)"
    using assms
  proof (induction rs arbitrary: lo hi t)
    case (Cons r rs)
    show ?case
    proof (cases "region_kind r = Usable")
      case True
      then obtain t' where "compute_usable_range_from rs
          (if region_start r < lo then region_start r else lo)
          (if region_end r > hi then region_end r else hi) t' = Inr (a, b, c)"
        using Cons.prems by (auto simp: bind_res_Inr_iff)
      note IH = Cons.IH [OF this]
      then have "a \<le> region_start r" "a \<le> lo" "region_end r \<le> b" "hi \<le> b"
        by (auto split: if_splits)
      with IH show ?thesis by simp
    next
      case False
      with Cons show ?thesis by simp
    qed
  qed simp
  then show "a \<le> lo" "hi \<le> b"
    "\<And>r. r \<in> set rs \<Longrightarrow> region_kind r = Usable \<Longrightarrow> a \<le> region_start r \<and> region_end r \<le> b" by auto
qed

lemma init_frames_layout:
  assumes "init_frames regions = Inr fa"
  obtains lo hi tot fa0 fa2 where
    "compute_usable_range_from regions (- 1) 0 0 = Inr (lo, hi, tot)"
    "bitmap_words fa0 = (frame_count fa0 + 63) div 64"
    "\<And>r. r \<in> set regions \<Longrightarrow> region_kind r = Usable \<Longrightarrow> lo \<le> region_start r \<and> region_end r \<le> hi"
    "unat (first_frame fa0) = 4096 * ((unat lo + 4095) div 4096)"
    "frame_count fa0 = unat hi div 4096 - (unat lo + 4095) div 4096"
    "fa_inv fa0" "bitmap_placed fa0"
    "for_each free_region regions (fold (\<lambda>i fa. mark fa i True) [0..<frame_count fa0] fa0) = Inr fa2"
    "fa = fold (\<lambda>i fa. mark fa i True) [0..<min (8 * bitmap_words fa0 div 4096 + 1) (frame_count fa0)] fa2"
proof -
  from assms obtain lo hi tot first last span addr fa2 d0 bend d1 where
    range: "compute_usable_range_from regions (- 1) 0 0 = Inr (lo, hi, tot)" and
    first: "align_up lo FRAME_SIZE = Inr first" and last: "align_down hi FRAME_SIZE = Inr last" and
    span: "sub_chk last first = Inr span" and addr: "align_up first 8 = Inr addr" and
    loop: "for_each free_region regions (fold (\<lambda>i fa. mark fa i True) [0..<unat span div 4096]
       \<lparr>first_frame = first, frame_count = unat span div 4096, bitmap_addr = addr,
        bitmap = replicate ((unat span div 4096 + 64 - 1) div 64) 0,
        bitmap_words = (unat span div 4096 + 64 - 1) div 64\<rparr>) = Inr fa2" and
    d0: "sub_chk addr first = Inr d0" and
    bend: "add_chk addr (of_nat ((unat span div 4096 + 64 - 1) div 64 * 8)) = Inr bend" and
    d1: "sub_chk bend first = Inr d1" and
    fa: "fa = fold (\<lambda>i fa. mark fa i True) [unat d0 div 4096..<min (unat d1 div 4096 + 1) (unat span div 4096)] fa2"
    unfolding init_frames_def compute_usable_range_def Let_def
    by (auto simp: bind_res_Inr_iff split: prod.splits)
  let ?n = "unat span div 4096"
  let ?w = "(?n + 63) div 64"
  have e63: "?n + 64 - 1 = ?n + 63" by simp
  note loop = loop [unfolded e63] and bend = bend [unfolded e63]
  let ?fa0 = "\<lparr>first_frame = first, frame_count = ?n, bitmap_addr = addr,
        bitmap = replicate ?w 0, bitmap_words = ?w\<rparr>"
  note F = align_up_page [OF first] and L = align_down_page [OF last]
  have addr_eq: "addr = first" by (rule align_up_8_aligned [OF addr F(1)])
  have span_eq: "span = last - first" "first \<le> last" using span by (auto simp: sub_chk_Inr_iff)
  then have us: "unat span = unat last - unat first" by (simp add: unat_sub_le)
  then have n: "?n = unat hi div 4096 - (unat lo + 4095) div 4096"
    using F(2) L(2) by (simp add: diff_mult_distrib2 [symmetric])
  have fl: "unat first \<le> unat last" using span_eq(2) by (simp add: word_le_nat_alt)
  have "4096 * ?n \<le> unat span" by simp
  then have "unat first + 4096 * ?n \<le> unat last" using us fl by linarith
  then have lim: "unat first + 4096 * ?n < 2 ^ 64" by (rule le_less_trans) simp
  have inv: "fa_inv ?fa0" using F(1) lim by (simp add: fa_inv_def)
  have wb: "?w * 8 < 2 ^ 64" using lim by simp
  then have uw: "unat (of_nat (?w * 8) :: u64) = ?w * 8" by (simp only: unat_of_nat) simp
  have bend': "unat first + ?w * 8 < 2 ^ 64" "bend = first + of_nat (?w * 8)"
    using bend uw by (simp_all add: add_chk_Inr_iff addr_eq del: of_nat_mult)
  have placed: "bitmap_placed ?fa0" using bend'(1) by (simp add: bitmap_placed_def addr_eq mult.commute)
  have "d0 = 0" using d0 by (simp add: sub_chk_Inr_iff addr_eq)
  moreover have "unat d1 = 8 * ?w"
    using d1 uw by (auto simp: sub_chk_Inr_iff bend'(2) simp del: of_nat_mult)
  ultimately have fa': "fa = fold (\<lambda>i fa. mark fa i True) [0..<min (8 * ?w div 4096 + 1) ?n] fa2"
    using fa by simp
  have flds: "first_frame ?fa0 = first" "frame_count ?fa0 = ?n" "bitmap_words ?fa0 = ?w" by simp_all
  show thesis
  proof (rule that [of lo hi tot ?fa0 fa2, unfolded flds])
    show "lo \<le> region_start r \<and> region_end r \<le> hi" if "r \<in> set regions" "region_kind r = Usable" for r
      using compute_usable_range_from_bounds(3) [OF range that] .
  qed (fact range refl F(2) n inv placed loop fa')+
qed

lemma usable_frame_index:
  assumes "usable_frame regions f"
    and "\<And>r. r \<in> set regions \<Longrightarrow> region_kind r = Usable \<Longrightarrow> lo \<le> region_start r \<and> region_end r \<le> hi"
    and "unat (first_frame fa) = 4096 * ((unat lo + 4095) div 4096)"
    and "frame_count fa = unat hi div 4096 - (unat lo + 4095) div 4096"
    and "fa_inv fa"
  obtains i where "i < frame_count fa" "f = frame_addr fa i"
proof -
  from assms(1) obtain r where r: "r \<in> set regions" "region_kind r = Usable"
      "unat (region_start r) \<le> unat f" "unat f + 4096 \<le> unat (region_end r)"
    and al: "page_aligned f" by (auto simp: usable_frame_def)
  from al obtain k where k: "unat f = 4096 * k" by (auto simp: page_aligned_iff mod_eq_0_iff_dvd elim: dvdE)
  have "unat lo \<le> unat f" "unat f + 4096 \<le> unat hi"
    using assms(2) [OF r(1,2)] r(3,4) by (auto simp: word_le_nat_alt)
  then have a: "(unat lo + 4095) div 4096 \<le> k" and b: "k < unat hi div 4096"
    using k ceil_page_le lt_floor_page by simp_all
  let ?i = "k - (unat lo + 4095) div 4096"
  have i: "?i < frame_count fa" using diff_less_mono [OF b a] assms(4) by simp
  have "unat (frame_addr fa ?i) = unat f" using unat_frame_addr [OF assms(5) i] assms(3) a k
    by (simp add: add_mult_distrib2 [symmetric])
  then have "f = frame_addr fa ?i" by (simp add: word_unat_eq_iff)
  with i show thesis by (rule that)
qed

text \<open>
  When initialisation returns, the free frames are exactly the whole frames inside usable
  regions that lie beyond the bitmap; the bitmap itself is never handed out.
\<close>

lemma init_frames_spec:
  assumes "init_frames regions = Inr fa"
  shows "fa_inv fa" "bitmap_placed fa"
    "\<exists>lo hi tot. compute_usable_range_from regions (- 1) 0 0 = Inr (lo, hi, tot) \<and>
       unat (bitmap_addr fa) = 4096 * ((unat lo + 4095) div 4096) \<and>
       bitmap_words fa = (unat hi div 4096 - (unat lo + 4095) div 4096 + 63) div 64"
    "free_frames fa = {f. usable_frame regions f \<and> unat (bitmap_addr fa) + 8 * bitmap_words fa < unat f}"
proof -
  from init_frames_layout [OF assms] obtain lo hi tot fa0 fa2 where
    range: "compute_usable_range_from regions (- 1) 0 0 = Inr (lo, hi, tot)" and
    words: "bitmap_words fa0 = (frame_count fa0 + 63) div 64" and
    bounds: "\<And>r. r \<in> set regions \<Longrightarrow> region_kind r = Usable \<Longrightarrow> lo \<le> region_start r \<and> region_end r \<le> hi" and
    ff: "unat (first_frame fa0) = 4096 * ((unat lo + 4095) div 4096)" and
    fc: "frame_count fa0 = unat hi div 4096 - (unat lo + 4095) div 4096" and
    inv0: "fa_inv fa0" and pl0: "bitmap_placed fa0" and
    loop: "for_each free_region regions (fold (\<lambda>i fa. mark fa i True) [0..<frame_count fa0] fa0) = Inr fa2" and
    fa: "fa = fold (\<lambda>i fa. mark fa i True) [0..<min (8 * bitmap_words fa0 div 4096 + 1) (frame_count fa0)] fa2"
    by blast
  let ?fa1 = "fold (\<lambda>i fa. mark fa i True) [0..<frame_count fa0] fa0"
  have lay1: "same_layout fa0 ?fa1" and u1: "\<And>j. used ?fa1 j = (j \<in> set [0..<frame_count fa0] \<or> used fa0 j)"
    using fold_mark_True [OF inv0, of "[0..<frame_count fa0]"] by (simp_all add: lessThan_atLeast0)
  have "fa_inv ?fa1" "bitmap_placed ?fa1"
    using inv0 pl0 fa_inv_layout [OF lay1] bitmap_placed_layout [OF lay1] by auto
  then have fr: "freed_when ?fa1 (usable_frame regions) fa2" by (rule free_regions_effect [OF _ _ loop])
  then have lay2: "same_layout fa0 fa2" using same_layout_trans [OF lay1] by (simp add: freed_when_def)
  then have inv2: "fa_inv fa2" using fa_inv_layout inv0 by simp
  have fc2: "frame_count fa2 = frame_count fa0" using lay2 by (simp add: same_layout_def)
  have sub: "set [0..<min (8 * bitmap_words fa0 div 4096 + 1) (frame_count fa0)] \<subseteq> {..<frame_count fa2}"
    using fc2 by auto
  note F = fold_mark_True [OF inv2 sub, folded fa]
  have lay: "same_layout fa0 fa" using same_layout_trans [OF lay2 F(1)] .
  show inv: "fa_inv fa" and pl: "bitmap_placed fa"
    using inv0 pl0 fa_inv_layout [OF lay] bitmap_placed_layout [OF lay] by auto
  have eqs: "frame_count fa = frame_count fa0" "bitmap_words fa = bitmap_words fa0"
    "frame_addr fa = frame_addr fa0" "frame_count ?fa1 = frame_count fa0"
    "frame_addr ?fa1 = frame_addr fa0" "first_frame fa = first_frame fa0"
    using lay lay1 frame_addr_layout [OF lay] frame_addr_layout [OF lay1] by (auto simp: same_layout_def)
  show "\<exists>lo hi tot. compute_usable_range_from regions (- 1) 0 0 = Inr (lo, hi, tot) \<and>
       unat (bitmap_addr fa) = 4096 * ((unat lo + 4095) div 4096) \<and>
       bitmap_words fa = (unat hi div 4096 - (unat lo + 4095) div 4096 + 63) div 64"
    using range words ff fc pl by (simp add: bitmap_placed_def eqs)
  have used_fa: "used fa i \<longleftrightarrow> \<not> (usable_frame regions (frame_addr fa0 i) \<and> 8 * bitmap_words fa0 < 4096 * i)"
    if i: "i < frame_count fa0" for i
  proof -
    have "used fa2 i = (\<not> (usable_frame regions (frame_addr fa0 i) \<and> \<not> 4096 * i < 8 * bitmap_words fa0))"
      using fr u1 i bitmap_index_layout [OF lay1] by (simp add: freed_when_def eqs bitmap_index_def)
    moreover have "i < 8 * bitmap_words fa0 div 4096 + 1 \<longleftrightarrow> \<not> 8 * bitmap_words fa0 < 4096 * i"
      using less_eq_div_iff_mult_less_eq [of 4096 i "8 * bitmap_words fa0"] by (auto simp: less_Suc_eq_le mult.commute)
    ultimately show ?thesis using F(2) [of i] i by auto
  qed
  show "free_frames fa = {f. usable_frame regions f \<and> unat (bitmap_addr fa) + 8 * bitmap_words fa < unat f}"
  proof (intro set_eqI iffI)
    fix f assume "f \<in> free_frames fa"
    then obtain i where i: "i < frame_count fa0" "f = frame_addr fa0 i" "\<not> used fa i"
      by (auto simp: free_frames_def eqs)
    then show "f \<in> {f. usable_frame regions f \<and> unat (bitmap_addr fa) + 8 * bitmap_words fa < unat f}"
      using used_fa [OF i(1)] pl unat_frame_addr [OF inv0 i(1)] by (simp add: bitmap_placed_def eqs)
  next
    fix f assume "f \<in> {f. usable_frame regions f \<and> unat (bitmap_addr fa) + 8 * bitmap_words fa < unat f}"
    then have f: "usable_frame regions f" "unat (bitmap_addr fa) + 8 * bitmap_words fa < unat f" by auto
    obtain i where i: "i < frame_count fa0" "f = frame_addr fa0 i"
      using usable_frame_index [OF f(1) bounds ff fc inv0] by blast
    then have "\<not> used fa i"
      using used_fa [OF i(1)] f pl unat_frame_addr [OF inv0 i(1)] by (simp add: bitmap_placed_def eqs)
    with i show "f \<in> free_frames fa" by (auto simp: free_frames_def eqs)
  qed
qed

section \<open>Initialisation returns on a sane memory map\<close>

text \<open>
  Usable regions are not inverted, do not reach the last page of the address space, their
  sizes add up to less than \<open>2 ^ 64\<close>, and at least one of them holds a whole frame.
\<close>

definition usable_sizes :: "MemoryRegion list \<Rightarrow> nat" where
  "usable_sizes rs = sum_list (map (\<lambda>r. unat (region_end r) - unat (region_start r))
     (filter (\<lambda>r. region_kind r = Usable) rs))"

definition sane_map :: "MemoryRegion list \<Rightarrow> bool" where
  "sane_map rs \<longleftrightarrow>
     (\<forall>r\<in>set rs. region_kind r = Usable \<longrightarrow>
        region_start r \<le> region_end r \<and> unat (region_end r) + 4096 < 2 ^ 64) \<and>
     usable_sizes rs < 2 ^ 64 \<and> (\<exists>f. usable_frame rs f)"

lemma compute_usable_range_from_ok:
  assumes "\<forall>r\<in>set rs. region_kind r = Usable \<longrightarrow> region_start r \<le> region_end r"
    and "unat t + usable_sizes rs < 2 ^ 64"
  shows "\<exists>a b c. compute_usable_range_from rs lo hi t = Inr (a, b, c) \<and>
    (b = hi \<or> (\<exists>r\<in>set rs. region_kind r = Usable \<and> b = region_end r))"
  using assms
proof (induction rs arbitrary: lo hi t)
  case (Cons r rs)
  show ?case
  proof (cases "region_kind r = Usable")
    case True
    then have le: "region_start r \<le> region_end r" using Cons.prems(1) by simp
    let ?d = "region_end r - region_start r"
    have ud: "unat ?d = unat (region_end r) - unat (region_start r)" using le by (rule unat_sub_le)
    have b: "unat t + unat ?d + usable_sizes rs < 2 ^ 64"
      using Cons.prems(2) True ud by (simp add: usable_sizes_def)
    then have t': "add_chk t ?d = Inr (t + ?d)" "unat (t + ?d) = unat t + unat ?d"
      by (simp_all add: add_chk_def unat_add_small)
    have "unat (t + ?d) + usable_sizes rs < 2 ^ 64" using b t'(2) by simp
    with Cons.IH [of "t + ?d" "if region_start r < lo then region_start r else lo"
        "if region_end r > hi then region_end r else hi"] Cons.prems(1)
    show ?thesis using True le t'(1) by (auto simp: sub_chk_def split: if_splits)
  next
    case False
    with Cons.IH [of t lo hi] Cons.prems show ?thesis by (auto simp: usable_sizes_def)
  qed
qed simp

lemma align_up_ok: "1 \<le> a \<Longrightarrow> unat x + unat a < 2 ^ 64 \<Longrightarrow> \<exists>y. align_up x a = Inr y"
proof -
  assume a: "1 \<le> a" "unat x + unat a < 2 ^ 64"
  then have "1 \<le> unat a" by (simp add: word_le_nat_alt)
  then have "1 \<le> x + a" using a(2) by (simp add: word_le_nat_alt unat_add_small)
  then show ?thesis using a by (simp add: align_up_def add_chk_def sub_chk_def)
qed

lemma align_down_ok: "\<exists>y. align_down x FRAME_SIZE = Inr y"
  by (simp add: align_down_def sub_chk_def FRAME_SIZE_def)

lemma free_region_frame_ok:
  assumes "fa_inv s \<and> bitmap_placed s"
  shows "\<exists>s'. free_region_frame f s = Inr s' \<and> fa_inv s' \<and> bitmap_placed s'"
proof -
  have "fa_inv (mark s i False)" "bitmap_placed (mark s i False)" for i
    using assms bitmap_placed_layout [OF same_layout_mark] by simp_all
  then show ?thesis using assms is_bitmap_frame_eq [of s "unat (f - first_frame s) div 4096"]
    by (simp add: free_region_frame_def Let_def)
qed

lemma free_region_ok:
  assumes "fa_inv s \<and> bitmap_placed s"
    and "region_kind r = Usable \<longrightarrow> region_start r \<le> region_end r \<and> unat (region_end r) + 4096 < 2 ^ 64"
  shows "\<exists>s'. free_region r s = Inr s' \<and> fa_inv s' \<and> bitmap_placed s'"
proof (cases "region_kind r = Usable")
  case True
  then have "unat (region_start r) + 4096 < 2 ^ 64" using assms(2) by (simp add: word_le_nat_alt)
  then obtain a where a: "align_up (region_start r) FRAME_SIZE = Inr a"
    using align_up_ok [of FRAME_SIZE "region_start r"] by (auto simp: FRAME_SIZE_def)
  obtain b where b: "align_down (region_end r) FRAME_SIZE = Inr b" using align_down_ok by blast
  have "\<exists>s'. for_each free_region_frame (frames_between a b) s = Inr s' \<and> fa_inv s' \<and> bitmap_placed s'"
    by (rule for_each_progress) (use free_region_frame_ok assms(1) in auto)
  with True a b show ?thesis by (simp add: free_region_def)
qed (use assms(1) in \<open>simp add: free_region_def\<close>)

lemma init_frames_ok:
  assumes "sane_map rs"
  shows "\<exists>fa. init_frames rs = Inr fa"
proof -
  from assms have reg: "\<forall>r\<in>set rs. region_kind r = Usable \<longrightarrow>
      region_start r \<le> region_end r \<and> unat (region_end r) + 4096 < 2 ^ 64"
    and sz: "usable_sizes rs < 2 ^ 64" by (auto simp: sane_map_def)
  obtain lo hi tot where range: "compute_usable_range_from rs (- 1) 0 0 = Inr (lo, hi, tot)"
    and hi: "hi = 0 \<or> (\<exists>r\<in>set rs. region_kind r = Usable \<and> hi = region_end r)"
    using compute_usable_range_from_ok [of rs 0 "- 1" 0] reg sz by auto
  note bounds = compute_usable_range_from_bounds(3) [OF range]
  obtain f r where f: "page_aligned f" "r \<in> set rs" "region_kind r = Usable"
      "unat (region_start r) \<le> unat f" "unat f + 4096 \<le> unat (region_end r)"
    using assms by (auto simp: sane_map_def usable_frame_def)
  have fb: "unat lo \<le> unat f" "unat f + 4096 \<le> unat hi"
    using bounds [OF f(2,3)] f(4,5) by (auto simp: word_le_nat_alt)
  have hib: "unat hi + 4096 < 2 ^ 64" using hi reg by auto
  have lob: "unat lo + 4096 < 2 ^ 64" using fb hib by simp
  obtain first where first: "align_up lo FRAME_SIZE = Inr first"
    using align_up_ok [of FRAME_SIZE lo] lob by (auto simp: FRAME_SIZE_def)
  obtain last where last: "align_down hi FRAME_SIZE = Inr last" using align_down_ok by blast
  note F = align_up_page [OF first] and L = align_down_page [OF last]
  have "(unat lo + 4095) div 4096 \<le> unat f div 4096" "unat f div 4096 < unat hi div 4096"
    using aligned_between(1) [OF f(1), of lo] aligned_between(2) [OF f(1), of hi] fb by auto
  then have lt: "unat first + 4096 \<le> unat last" using F(2) L(2) by linarith
  then have span: "sub_chk last first = Inr (last - first)" "unat (last - first) = unat last - unat first"
    by (auto simp: sub_chk_def word_le_nat_alt intro!: unat_sub_le)
  have lastb: "unat last + 4096 < 2 ^ 64" using L(2) hib by (metis div_times_less_eq_dividend le_less_trans add_le_mono1 mult.commute)
  obtain addr where addr: "align_up first 8 = Inr addr"
    using align_up_ok [of 8 first] lt lastb by auto
  have addr_eq: "addr = first" by (rule align_up_8_aligned [OF addr F(1)])
  let ?n = "unat (last - first) div 4096"
  let ?w = "(?n + 63) div 64"
  let ?fa0 = "\<lparr>first_frame = first, frame_count = ?n, bitmap_addr = addr,
        bitmap = replicate ?w 0, bitmap_words = ?w\<rparr>"
  have n1: "1 \<le> ?n" using span(2) lt by (simp add: div_greater_zero_iff)
  have nl: "unat first + 4096 * ?n \<le> unat last" using span(2) lt by simp
  have w8: "?w * 8 \<le> 4096 * ?n" using n1 by linarith
  have inv: "fa_inv ?fa0" using F(1) nl lastb by (simp add: fa_inv_def)
  have wb: "unat first + ?w * 8 < 2 ^ 64" using w8 nl lastb by linarith
  have placed: "bitmap_placed ?fa0" using wb by (simp add: bitmap_placed_def addr_eq mult.commute)
  let ?fa1 = "fold (\<lambda>i fa. mark fa i True) [0..<?n] ?fa0"
  have lay1: "same_layout ?fa0 ?fa1" using fold_mark_True(1) [OF inv, of "[0..<?n]"] by (simp add: lessThan_atLeast0)
  have "fa_inv ?fa1 \<and> bitmap_placed ?fa1"
    using inv placed fa_inv_layout [OF lay1] bitmap_placed_layout [OF lay1] by auto
  then obtain fa2 where loop: "for_each free_region rs ?fa1 = Inr fa2"
    using for_each_progress [of rs "\<lambda>s. fa_inv s \<and> bitmap_placed s" free_region ?fa1] free_region_ok reg by blast
  have uw: "unat (of_nat (?w * 8) :: u64) = ?w * 8" using wb by (simp only: unat_of_nat) simp
  have bend: "add_chk addr (of_nat (?w * 8)) = Inr (first + of_nat (?w * 8))"
    using wb uw by (simp add: add_chk_def addr_eq del: of_nat_mult)
  have "first \<le> first + of_nat (?w * 8)"
    using wb uw by (simp add: word_le_nat_alt unat_add_small del: of_nat_mult)
  then have d1: "sub_chk (first + of_nat (?w * 8)) first = Inr (of_nat (?w * 8))"
    by (simp add: sub_chk_def del: of_nat_mult)
  have e63: "k + 64 - 1 = k + 63" for k :: nat by simp
  have d0: "sub_chk first first = Inr 0" by (simp add: sub_chk_def)
  show ?thesis
    unfolding init_frames_def compute_usable_range_def Let_def range first last span(1) addr
      bind_res_simps prod.case e63 loop bend d1
    by (simp only: bind_res_simps addr_eq d0 d1 e63) simp
qed

end
