(* ===== verification/Bump_Heap.thy ===== *)
theory Bump_Heap
  imports Frame_Init
begin

text \<open>
  The early heap (\<^verbatim>\<open>kernel/src/mm/mod.rs\<close>): a bump allocator over one physical region, and
  the count of usable frames. The second half relates it to the frame allocator that
  \<^verbatim>\<open>kernel_main\<close> initialises from the same memory map.
\<close>

record bump_allocator =
  bump_base :: u64
  bump_next :: u64
  bump_limit :: u64

definition new_bump :: bump_allocator where
  "new_bump = \<lparr>bump_base = 0, bump_next = 0, bump_limit = 0\<rparr>"

definition init_heap :: "u64 \<Rightarrow> u64 \<Rightarrow> bump_allocator \<Rightarrow> bump_allocator" where
  "init_heap start end b = b\<lparr>bump_base := start, bump_next := start, bump_limit := end\<rparr>"

definition bump_allocate :: "bump_allocator \<Rightarrow> u64 \<Rightarrow> u64 \<Rightarrow> (u64 option \<times> bump_allocator) res" where
  "bump_allocate b sz align =
     bind_res (sub_chk align 1) (\<lambda>mask.
     bind_res (add_chk (bump_next b) mask) (\<lambda>s.
     let aligned = s AND NOT mask
     in case checked_add aligned sz of
          None \<Rightarrow> Inr (None, b)
        | Some end \<Rightarrow>
            if end > bump_limit b then Inr (None, b)
            else Inr (Some aligned, b\<lparr>bump_next := end\<rparr>)))"

definition alloc_early :: "u64 \<Rightarrow> u64 \<Rightarrow> bump_allocator \<Rightarrow> (u64 option \<times> bump_allocator) res" where
  "alloc_early sz align b = bump_allocate b sz align"

fun count_usable_from :: "MemoryRegion list \<Rightarrow> u64 \<Rightarrow> u64 res" where
  "count_usable_from [] count = Inr count"
| "count_usable_from (r # rs) count =
     (if region_kind r = Usable
      then bind_res (sub_chk (region_end r) (region_start r)) (\<lambda>sz.
           bind_res (add_chk count (sz div 4096)) (count_usable_from rs))
      else count_usable_from rs count)"

definition count_usable_frames :: "MemoryRegion list \<Rightarrow> u64 res" where
  "count_usable_frames rs = count_usable_from rs 0"

section \<open>Allocation\<close>

definition bump_inv :: "bump_allocator \<Rightarrow> bool" where
  "bump_inv b \<longleftrightarrow> bump_base b \<le> bump_next b \<and> bump_next b \<le> bump_limit b"

lemma and_not_le: "x AND NOT m \<le> (x :: u64)"
  by (simp add: word_and_le2)

text \<open>Rounding up to a power of two.\<close>

lemma unat_pow2: "k < 64 \<Longrightarrow> unat (2 ^ k :: u64) = 2 ^ k"
proof -
  assume "k < 64"
  then have "(2 :: nat) ^ k < 2 ^ 64" by (intro power_strict_increasing) auto
  then have "unat (of_nat (2 ^ k) :: u64) = 2 ^ k" by (simp only: unat_of_nat) simp
  then show ?thesis by simp
qed

lemma and_not_mask_bounds:
  shows "unat (x AND NOT (2 ^ k - 1) :: u64) = unat x - unat x mod 2 ^ k"
proof -
  have m: "(2 ^ k - 1 :: u64) = mask k" by (simp add: mask_eq_exp_minus_1)
  have "(x AND NOT (mask k)) + (x AND mask k) = (x AND NOT (mask k)) OR (x AND mask k)"
    by (rule disjunctive_add) (auto simp: bit_simps)
  also have "\<dots> = x" by (rule bit_eqI) (auto simp: bit_simps)
  finally have "x AND NOT (mask k) = x - take_bit k x" by (simp add: take_bit_eq_mask algebra_simps)
  moreover have t: "unat (take_bit k x) = unat x mod 2 ^ k"
    by (simp only: unsigned_take_bit_eq) (simp only: take_bit_eq_mod)
  moreover have "take_bit k x \<le> x" using t by (simp add: word_le_nat_alt)
  ultimately show ?thesis using m by (simp add: unat_sub_le)
qed

lemma bump_allocate_Some:
  assumes "bump_allocate b sz align = Inr (Some p, b')"
  shows "unat p + unat sz \<le> unat (bump_limit b)" "bump_next b' = p + sz"
    "unat (bump_next b') = unat p + unat sz"
    "bump_base b' = bump_base b" "bump_limit b' = bump_limit b"
    "p = (bump_next b + (align - 1)) AND NOT (align - 1)"
    "unat (bump_next b) + unat (align - 1) < 2 ^ 64" "1 \<le> align"
proof -
  let ?p = "(bump_next b + (align - 1)) AND NOT (align - 1)"
  have mask: "1 \<le> align" and add: "unat (bump_next b) + unat (align - 1) < 2 ^ 64"
    using assms by (auto simp: bump_allocate_def bind_res_Inr_iff sub_chk_Inr_iff add_chk_Inr_iff)
  have "(case checked_add ?p sz of None \<Rightarrow> Inr (None, b) | Some end \<Rightarrow>
      if end > bump_limit b then Inr (None, b) else Inr (Some ?p, b\<lparr>bump_next := end\<rparr>)) =
      (Inr (Some p, b') :: (u64 option \<times> bump_allocator) res)"
    using assms by (auto simp: bump_allocate_def bind_res_Inr_iff sub_chk_Inr_iff add_chk_Inr_iff Let_def)
  then have c: "unat ?p + unat sz < 2 ^ 64" "?p + sz \<le> bump_limit b" "p = ?p"
      "b' = b\<lparr>bump_next := ?p + sz\<rparr>"
    by (auto simp: checked_add_def split: if_splits)
  then show "unat p + unat sz \<le> unat (bump_limit b)" "bump_next b' = p + sz"
    "unat (bump_next b') = unat p + unat sz" "bump_base b' = bump_base b" "bump_limit b' = bump_limit b"
    by (simp_all add: word_le_nat_alt unat_add_small)
  show "p = ?p" "unat (bump_next b) + unat (align - 1) < 2 ^ 64" "1 \<le> align"
    using c(3) add mask by auto
qed

lemma bump_allocate_block:
  assumes "bump_inv b" "k < 64" "bump_allocate b sz (2 ^ k) = Inr (Some p, b')"
  shows "unat (bump_next b) \<le> unat p" "unat p mod 2 ^ k = 0" "bump_inv b'"
    "unat p + unat sz = unat (bump_next b')"
proof -
  note S = bump_allocate_Some [OF assms(3)]
  let ?m = "2 ^ k - 1 :: u64"
  have "(1 :: u64) \<le> 2 ^ k" using unat_pow2 [OF assms(2)] by (simp add: word_le_nat_alt)
  then have um: "unat ?m = 2 ^ k - 1" using unat_pow2 [OF assms(2)] by (simp add: unat_sub_le)
  have s: "unat (bump_next b + ?m) = unat (bump_next b) + (2 ^ k - 1)"
    using S(7) um by (simp add: unat_add_small)
  have up: "unat p = unat (bump_next b + ?m) - unat (bump_next b + ?m) mod 2 ^ k"
    using S(6) and_not_mask_bounds [where k = k and x = "bump_next b + ?m"] by simp
  have "unat (bump_next b + ?m) mod 2 ^ k < 2 ^ k" by (rule mod_less_divisor) simp
  then show a: "unat (bump_next b) \<le> unat p" using up s by linarith
  show "unat p mod 2 ^ k = 0" using up by (simp add: minus_mod_eq_mult_div)
  show "unat p + unat sz = unat (bump_next b')" using S(3) by simp
  show "bump_inv b'" using assms(1) a S(1,3,4,5) by (auto simp: bump_inv_def word_le_nat_alt)
qed

lemma bump_allocate_None_keeps:
  "bump_allocate b sz align = Inr (None, b') \<Longrightarrow> b' = b"
  by (auto simp: bump_allocate_def bind_res_Inr_iff Let_def split: option.splits if_splits)

text \<open>A run of requests \<open>(sz, log2 align)\<close>; the blocks handed out, in order.\<close>

fun bump_run :: "bump_allocator \<Rightarrow> (u64 \<times> nat) list \<Rightarrow> ((u64 \<times> u64) list \<times> bump_allocator) res" where
  "bump_run b [] = Inr ([], b)"
| "bump_run b ((sz, k) # rs) =
     bind_res (bump_allocate b sz (2 ^ k)) (\<lambda>(r, b').
     bind_res (bump_run b' rs) (\<lambda>(blocks, b'').
     Inr (case r of None \<Rightarrow> blocks | Some p \<Rightarrow> (p, sz) # blocks, b'')))"

fun ordered_blocks :: "nat \<Rightarrow> nat \<Rightarrow> (u64 \<times> u64) list \<Rightarrow> bool" where
  "ordered_blocks lo hi [] = (lo \<le> hi)"
| "ordered_blocks lo hi ((p, sz) # bs) = (lo \<le> unat p \<and> ordered_blocks (unat p + unat sz) hi bs)"

lemma ordered_blocks_mono: "ordered_blocks lo hi bs \<Longrightarrow> lo' \<le> lo \<Longrightarrow> hi \<le> hi' \<Longrightarrow> ordered_blocks lo' hi' bs"
  by (induction lo hi bs arbitrary: lo' rule: ordered_blocks.induct) auto

lemma ordered_blocks_bounds:
  "ordered_blocks lo hi bs \<Longrightarrow> (p, n) \<in> set bs \<Longrightarrow> lo \<le> unat p \<and> unat p + unat n \<le> hi"
proof (induction lo hi bs rule: ordered_blocks.induct)
  case (2 lo hi q m bs)
  then have rest: "ordered_blocks (unat q + unat m) hi bs" "lo \<le> unat q" by auto
  have le: "a \<le> hi" if "ordered_blocks a hi bs" for a
    using that by (induction a hi bs rule: ordered_blocks.induct) auto
  from 2 rest le [OF rest(1)] show ?case by auto
qed simp

lemma bump_run_spec:
  assumes "bump_inv b" "\<And>s k. (s, k) \<in> set rs \<Longrightarrow> k < 64" "bump_run b rs = Inr (blocks, b')"
  shows "bump_inv b' \<and> bump_limit b' = bump_limit b \<and> bump_base b' = bump_base b \<and>
    ordered_blocks (unat (bump_next b)) (unat (bump_next b')) blocks"
  using assms
proof (induction b rs arbitrary: blocks rule: bump_run.induct)
  case (2 b sz k rs)
  from "2.prems"(3) obtain r b1 bs where
    st: "bump_allocate b sz (2 ^ k) = Inr (r, b1)" and
    run: "bump_run b1 rs = Inr (bs, b')" and
    bl: "blocks = (case r of None \<Rightarrow> bs | Some p \<Rightarrow> (p, sz) # bs)"
    by (auto simp: bind_res_Inr_iff)
  show ?case
  proof (cases r)
    case None
    then have "b1 = b" using st bump_allocate_None_keeps by simp
    with None bl run "2.IH" [OF st refl _ _ run] "2.prems"(1,2) show ?thesis by auto
  next
    case (Some p)
    note S = bump_allocate_Some [OF st [unfolded Some]]
      and B = bump_allocate_block [OF "2.prems"(1) _ st [unfolded Some]]
    have k: "k < 64" using "2.prems"(2) by auto
    have "bump_inv b' \<and> bump_limit b' = bump_limit b1 \<and> bump_base b' = bump_base b1 \<and>
        ordered_blocks (unat (bump_next b1)) (unat (bump_next b')) bs"
      using "2.IH" [OF st refl B(3) [OF k] _ run] "2.prems"(2) by auto
    then show ?thesis using Some bl S(4,5) B(1) [OF k] B(4) [OF k] by auto
  qed
qed simp

section \<open>The heap and the frame allocator share memory\<close>

text \<open>
  What \<^verbatim>\<open>kernel_main\<close> does with the memory map: the frame allocator is initialised from all
  regions, then the early heap from one of the usable ones.
\<close>

definition boot_memory :: "MemoryRegion list \<Rightarrow> (frame_allocator \<times> bump_allocator) res" where
  "boot_memory boot_regions =
     bind_res (find_heap_region boot_regions) (\<lambda>usable.
     bind_res (init_frames (collect_regions boot_regions)) (\<lambda>fa.
     Inr (fa, case usable of None \<Rightarrow> new_bump
              | Some r \<Rightarrow> init_heap (region_start r) (region_end r) new_bump)))"

lemma boot_memory_bump_inv:
  assumes "boot_memory rs = Inr (fa, b)"
  shows "bump_inv b"
proof -
  from assms obtain u where "find_heap_region rs = Inr u"
    and b: "b = (case u of None \<Rightarrow> new_bump | Some r \<Rightarrow> init_heap (region_start r) (region_end r) new_bump)"
    by (auto simp: boot_memory_def bind_res_Inr_iff)
  then show ?thesis
    by (cases u) (auto simp: bump_inv_def new_bump_def init_heap_def word_le_nat_alt
        dest: find_heap_region_Some(3))
qed

end
