(* ===== verification/Memory_Properties.thy ===== *)
theory Memory_Properties
  imports Bump_Heap
begin

text \<open>
  The properties of the physical memory managers: initialisation of the frame allocator,
  its refinement of a set of free frames, the early heap's blocks, and what the two
  managers have in common after boot.
\<close>


definition sample_map :: "MemoryRegion list" where
  "sample_map = [\<lparr>region_start = 0, region_end = 0x1000, region_kind = Reserved\<rparr>,
     \<lparr>region_start = 0x100000, region_end = 0x400000, region_kind = Usable\<rparr>]"

lemma sample_map_sane: "sane_map sample_map"
proof -
  have "usable_frame sample_map 0x100000"
    by (simp add: usable_frame_def sample_map_def page_aligned_def)
  then show ?thesis unfolding sane_map_def by (auto simp: sample_map_def usable_sizes_def)
qed


text \<open>C2: the bitmap allocator refines a set of free frames. Allocation returns the lowest free frame and removes
  it, and fails exactly when the set is empty; freeing an allocated frame restores the set; freeing an
  address outside the managed range changes nothing. Every step keeps the invariant.\<close>

theorem frame_allocator_refines_set:
  assumes "fa_inv fa"
  shows "(case allocate_frame fa of
      (None, fa') \<Rightarrow> free_frames fa = {} \<and> free_frames fa' = {} \<and> fa_inv fa'
    | (Some f, fa') \<Rightarrow> f \<in> free_frames fa \<and> (\<forall>g\<in>free_frames fa. f \<le> g) \<and> free_frames fa' = free_frames fa - {f} \<and>
        fa_inv fa' \<and> free_frames (free_frame fa' f) = free_frames fa) \<and>
    (g \<in> managed_frames fa \<longrightarrow> free_frames (free_frame fa g) = insert g (free_frames fa)) \<and> fa_inv (free_frame fa g)"
proof -
  obtain r fa' where al: "allocate_frame fa = (r, fa')" by fastforce
  have "fa_inv (free_frame fa g)"
    using assms by (simp add: free_frame_def Let_def)
  moreover have "case (r, fa') of
      (None, fa') \<Rightarrow> free_frames fa = {} \<and> free_frames fa' = {} \<and> fa_inv fa'
    | (Some f, fa') \<Rightarrow> f \<in> free_frames fa \<and> (\<forall>g\<in>free_frames fa. f \<le> g) \<and> free_frames fa' = free_frames fa - {f} \<and>
        fa_inv fa' \<and> free_frames (free_frame fa' f) = free_frames fa"
  proof (cases r)
    case None
    then show ?thesis using allocate_frame_None [OF assms] al by auto
  next
    case (Some f)
    then show ?thesis using allocate_frame_Some [OF assms] fa.alloc_release [OF assms] al by auto
  qed
  ultimately show ?thesis using fa.release_give [OF assms] al by simp
qed

lemma sample_fa: "fa_inv \<lparr>first_frame = 0x10000, frame_count = 2, bitmap_addr = 0x10000, bitmap = [1], bitmap_words = 1\<rparr>"
  by (simp add: fa_inv_def page_aligned_def)

theorem frame_allocator_refines_set_witness:
  "case allocate_frame \<lparr>first_frame = 0x10000, frame_count = 2, bitmap_addr = 0x10000, bitmap = [1], bitmap_words = 1\<rparr> of
     (None, fa') \<Rightarrow> False
   | (Some f, fa') \<Rightarrow> f = 0x11000 \<and> fa_inv fa' \<and> free_frames (free_frame fa' f) = {0x11000}"
proof -
  have "free_frames \<lparr>first_frame = 0x10000, frame_count = 2, bitmap_addr = 0x10000, bitmap = [1], bitmap_words = 1\<rparr> = {0x11000}"
    by (auto simp: free_frames_def used_def frame_addr_def less_2_cases_iff bit_1_iff intro!: image_eqI [of _ _ 1])
  then show ?thesis using frame_allocator_refines_set [OF sample_fa]
    by (auto split: prod.splits option.splits)
qed

text \<open>No frame is handed out twice: \<open>n\<close> allocations in a row return pairwise different free frames, as many as
  there are, and exactly these are no longer free.\<close>

theorem frames_handed_out_once:
  assumes "fa_inv fa" "take_frames allocate_frame n fa = (fs, fa')"
  shows "distinct fs \<and> set fs \<subseteq> free_frames fa \<and> free_frames fa' = free_frames fa - set fs \<and>
    length fs = min n (card (free_frames fa)) \<and> fa_inv fa'"
  using fa.take_frames_spec [OF assms] by blast

theorem frames_handed_out_once_witness:
  "distinct (fst (take_frames allocate_frame 5
     \<lparr>first_frame = 0x10000, frame_count = 2, bitmap_addr = 0x10000, bitmap = [1], bitmap_words = 1\<rparr>))"
  using frames_handed_out_once [OF sample_fa, of 5] by (metis prod.collapse)

text \<open>C34: the early heap's blocks never overlap. In any run of allocations with power-of-two alignments, the
  blocks handed out follow each other in address order without overlap and lie within the heap, which
  keeps its base and limit.\<close>

theorem heap_blocks_disjoint:
  assumes "bump_inv b" "\<forall>(s, k)\<in>set rs. k < 64" "bump_run b rs = Inr (blocks, b')"
  shows "bump_inv b' \<and> bump_base b' = bump_base b \<and> bump_limit b' = bump_limit b \<and>
    ordered_blocks (unat (bump_base b)) (unat (bump_limit b)) blocks \<and>
    (\<forall>(p, n)\<in>set blocks. unat (bump_base b) \<le> unat p \<and> unat p + unat n \<le> unat (bump_limit b))"
proof -
  have r: "bump_inv b' \<and> bump_limit b' = bump_limit b \<and> bump_base b' = bump_base b \<and>
      ordered_blocks (unat (bump_next b)) (unat (bump_next b')) blocks"
    by (rule bump_run_spec [OF assms(1) _ assms(3)]) (use assms(2) in auto)
  have ord: "ordered_blocks (unat (bump_next b)) (unat (bump_next b')) blocks" using r by blast
  have le: "unat (bump_base b) \<le> unat (bump_next b)" "unat (bump_next b') \<le> unat (bump_limit b)"
    using assms(1) r by (auto simp: bump_inv_def word_le_nat_alt)
  have "ordered_blocks (unat (bump_base b)) (unat (bump_limit b)) blocks"
    by (rule ordered_blocks_mono [OF ord le])
  then show ?thesis using r ordered_blocks_bounds by blast
qed

theorem heap_blocks_disjoint_witness:
  "\<exists>blocks b'. bump_run \<lparr>bump_base = 0x1000, bump_next = 0x1000, bump_limit = 0x2000\<rparr> [(0x10, 4), (0x20, 4)] = Inr (blocks, b') \<and>
     ordered_blocks 0x1000 0x2000 blocks"
proof -
  let ?b = "\<lparr>bump_base = 0x1000, bump_next = 0x1000, bump_limit = 0x2000 :: u64\<rparr>"
  obtain blocks b' where r: "bump_run ?b [(0x10, 4), (0x20, 4)] = Inr (blocks, b')"
    by (simp add: bump_allocate_def chk_defs checked_add_def Let_def)
  have "bump_inv ?b" by (simp add: bump_inv_def)
  from heap_blocks_disjoint [OF this _ r] r show ?thesis by simp
qed

text \<open>C35: after boot the early heap and the frame allocator own the same memory. When a memory map of at most 64 regions has
  a region for the heap, every page-aligned frame that lies inside the heap and beyond the allocator's bitmap is
  also a free frame of the allocator, so the two managers hand out overlapping memory.\<close>

theorem boot_heap_overlaps_frames:
  assumes "boot_memory rs = Inr (fa, b)" "find_heap_region rs = Inr (Some r)" "length rs \<le> 64"
    and "page_aligned f" "unat (bump_base b) \<le> unat f" "unat f + 4096 \<le> unat (bump_limit b)"
    and "unat (bitmap_addr fa) + 8 * bitmap_words fa < unat f"
  shows "f \<in> free_frames fa \<and> bump_inv b"
proof -
  have i: "init_frames rs = Inr fa" and b: "b = init_heap (region_start r) (region_end r) new_bump"
    using assms(1-3) by (auto simp: boot_memory_def collect_regions_def bind_res_Inr_iff)
  have "r \<in> set rs" "region_kind r = Usable" using find_heap_region_Some [OF assms(2)] by auto
  then have "usable_frame rs f" unfolding usable_frame_def using assms(4-6) b by (auto simp: init_heap_def)
  then show ?thesis using init_frames_spec(4) [OF i] assms(7) boot_memory_bump_inv [OF assms(1)] by simp
qed

theorem boot_heap_overlaps_frames_witness:
  "\<exists>fa b. boot_memory sample_map = Inr (fa, b) \<and> 0x300000 \<in> free_frames fa \<and>
     unat (bump_base b) \<le> 0x300000 \<and> 0x300000 + 4096 \<le> unat (bump_limit b)"
proof -
  obtain fa where i: "init_frames sample_map = Inr fa" using init_frames_ok [OF sample_map_sane] by blast
  let ?r = "\<lparr>region_start = 0x100000, region_end = 0x400000, region_kind = Usable\<rparr>"
  have h: "find_heap_region sample_map = Inr (Some ?r)" by (simp add: sample_map_def chk_defs)
  let ?b = "init_heap 0x100000 0x400000 new_bump"
  have bm: "boot_memory sample_map = Inr (fa, ?b)"
    using i h by (simp add: boot_memory_def collect_regions_def sample_map_def)
  have "compute_usable_range_from sample_map (- 1) 0 0 = Inr (0x100000, 0x400000, 0x300000)"
    by (simp add: sample_map_def chk_defs)
  then have fields: "unat (bitmap_addr fa) = 0x100000" "bitmap_words fa = 12"
    using init_frames_spec(3) [OF i] by auto
  show ?thesis
    using boot_heap_overlaps_frames [OF bm h _, of "0x300000"] bm fields
    by (auto simp: sample_map_def page_aligned_def init_heap_def)
qed

end
