(* ===== verification/Page_Table.thy ===== *)
theory Page_Table
  imports Frame_Allocator
begin

text \<open>
  The x86_64 four-level page tables (\<^verbatim>\<open>kernel/src/mm/page_table.rs\<close>). Tables live in the
  physical memory of the machine state, one per frame, and missing tables are taken from the
  frame allocator. \<open>KERNEL_CR3\<close> is part of the state; the value of the \<^verbatim>\<open>cr3\<close> register is an
  argument of \<open>capture_kernel_page_table\<close>.
\<close>

record machine =
  phys :: mem
  falloc :: frame_allocator
  kernel_cr3 :: u64

definition PAGE_PRESENT :: u64 where "PAGE_PRESENT = 1"
definition PAGE_WRITABLE :: u64 where "PAGE_WRITABLE = 2"
definition PAGE_USER :: u64 where "PAGE_USER = 4"
definition PAGE_EXECUTE :: u64 where "PAGE_EXECUTE = 0x8000000000000000"

section \<open>Operations\<close>

definition capture_kernel_page_table :: "u64 \<Rightarrow> machine \<Rightarrow> machine" where
  "capture_kernel_page_table cr3_register m = m\<lparr>kernel_cr3 := cr3_register\<rparr>"

definition alloc_frame :: "machine \<Rightarrow> u64 option \<times> machine" where
  "alloc_frame m = (case allocate_frame (falloc m) of (r, fa) \<Rightarrow> (r, m\<lparr>falloc := fa\<rparr>))"

definition read_entry :: "machine \<Rightarrow> u64 \<Rightarrow> nat \<Rightarrow> u64" where
  "read_entry m table index = read_u64 (phys m) (entry_addr table index)"

definition write_entry :: "machine \<Rightarrow> u64 \<Rightarrow> nat \<Rightarrow> u64 \<Rightarrow> machine" where
  "write_entry m table index v = m\<lparr>phys := write_u64 (phys m) (entry_addr table index) v\<rparr>"

definition zero_frame :: "machine \<Rightarrow> u64 \<Rightarrow> machine" where
  "zero_frame m f = m\<lparr>phys := fill_bytes (phys m) f 0 4096\<rparr>"

definition next_table :: "machine \<Rightarrow> u64 \<Rightarrow> nat \<Rightarrow> bool \<Rightarrow> u64 option \<times> machine" where
  "next_table m table index create =
     (let value = read_entry m table index
      in if value AND PAGE_PRESENT \<noteq> 0 then (Some (value AND NOT 0xFFF), m)
         else if \<not> create then (None, m)
         else case alloc_frame m of
                (None, m') \<Rightarrow> (None, m')
              | (Some frame, m') \<Rightarrow>
                  (Some frame, write_entry (zero_frame m' frame) table index
                     (frame OR PAGE_PRESENT OR PAGE_WRITABLE OR PAGE_USER)))"

definition pml4_index :: "u64 \<Rightarrow> nat" where "pml4_index virt = unat (drop_bit 39 virt AND 0x1FF)"
definition pdpt_index :: "u64 \<Rightarrow> nat" where "pdpt_index virt = unat (drop_bit 30 virt AND 0x1FF)"
definition pd_index :: "u64 \<Rightarrow> nat" where "pd_index virt = unat (drop_bit 21 virt AND 0x1FF)"
definition pt_index :: "u64 \<Rightarrow> nat" where "pt_index virt = unat (drop_bit 12 virt AND 0x1FF)"

definition new_page_table :: "machine \<Rightarrow> u64 option \<times> machine" where
  "new_page_table m =
     (case alloc_frame m of
        (None, m') \<Rightarrow> (None, m')
      | (Some root, m') \<Rightarrow>
          let m1 = zero_frame m' root
          in (Some root,
              if kernel_cr3 m1 \<noteq> 0
              then fold (\<lambda>i m. write_entry m root i (read_entry m (kernel_cr3 m) i)) [0..<512] m1
              else m1))"

definition map_page :: "machine \<Rightarrow> u64 \<Rightarrow> u64 \<Rightarrow> u64 \<Rightarrow> u64 \<Rightarrow> bool \<times> machine" where
  "map_page m root virt paddr flags =
     (case next_table m root (pml4_index virt) True of
        (None, m1) \<Rightarrow> (False, m1)
      | (Some pdpt, m1) \<Rightarrow>
        (case next_table m1 pdpt (pdpt_index virt) True of
           (None, m2) \<Rightarrow> (False, m2)
         | (Some pd, m2) \<Rightarrow>
           (case next_table m2 pd (pd_index virt) True of
              (None, m3) \<Rightarrow> (False, m3)
            | (Some pt, m3) \<Rightarrow>
                (True, write_entry m3 pt (pt_index virt) (paddr OR flags OR PAGE_PRESENT)))))"

fun map_region_from :: "machine \<Rightarrow> u64 \<Rightarrow> u64 \<Rightarrow> u64 \<Rightarrow> u64 \<Rightarrow> nat list \<Rightarrow> (bool \<times> machine) res" where
  "map_region_from m root virt_base phys_base flags [] = Inr (True, m)"
| "map_region_from m root virt_base phys_base flags (i # is) =
     bind_res (mul_chk (of_nat i) 4096) (\<lambda>off.
     bind_res (add_chk virt_base off) (\<lambda>v.
     bind_res (add_chk phys_base off) (\<lambda>p.
     case map_page m root v p flags of
       (False, m') \<Rightarrow> Inr (False, m')
     | (True, m') \<Rightarrow> map_region_from m' root virt_base phys_base flags is)))"

definition map_region :: "machine \<Rightarrow> u64 \<Rightarrow> u64 \<Rightarrow> u64 \<Rightarrow> nat \<Rightarrow> u64 \<Rightarrow> (bool \<times> machine) res" where
  "map_region m root virt_base phys_base pages flags =
     map_region_from m root virt_base phys_base flags [0..<pages]"

definition translate :: "machine \<Rightarrow> u64 \<Rightarrow> u64 \<Rightarrow> u64 option" where
  "translate m root virt =
     (case fst (next_table m root (pml4_index virt) False) of
        None \<Rightarrow> None
      | Some pdpt \<Rightarrow>
        (case fst (next_table m pdpt (pdpt_index virt) False) of
           None \<Rightarrow> None
         | Some pd \<Rightarrow>
           (case fst (next_table m pd (pd_index virt) False) of
              None \<Rightarrow> None
            | Some pt \<Rightarrow>
                let entry = read_entry m pt (pt_index virt)
                in if entry AND PAGE_PRESENT = 0 then None
                   else Some ((entry AND NOT 0xFFF) OR (virt AND 0xFFF)))))"

definition page_table_root :: "u64 \<Rightarrow> u64 option" where
  "page_table_root cr3 = (if cr3 = 0 then None else Some cr3)"

section \<open>The tree of tables\<close>

text \<open>One step of the walk, and the table a path of indices leads to.\<close>

definition walk_step :: "machine \<Rightarrow> u64 \<Rightarrow> nat \<Rightarrow> u64 option" where
  "walk_step m t i = fst (next_table m t i False)"

fun table_at :: "machine \<Rightarrow> u64 \<Rightarrow> nat list \<Rightarrow> u64 option" where
  "table_at m t [] = Some t"
| "table_at m t (i # is) = (case walk_step m t i of None \<Rightarrow> None | Some u \<Rightarrow> table_at m u is)"

definition virt_path :: "u64 \<Rightarrow> nat list" where
  "virt_path v = [pml4_index v, pdpt_index v, pd_index v]"

definition leaf :: "machine \<Rightarrow> u64 \<Rightarrow> u64 \<Rightarrow> u64 option" where
  "leaf m root v = map_option (\<lambda>pt. read_entry m pt (pt_index v)) (table_at m root (virt_path v))"

definition path_ok :: "nat list \<Rightarrow> bool" where
  "path_ok p \<longleftrightarrow> length p \<le> 3 \<and> (\<forall>i\<in>set p. i < 512)"

text \<open>
  A well-formed table: the tables of its tree are pairwise different frames, none of them
  free. This is what the allocator guarantees for every table it provides.
\<close>

definition pt_wf :: "machine \<Rightarrow> u64 \<Rightarrow> bool" where
  "pt_wf m root \<longleftrightarrow> fa_inv (falloc m) \<and> page_aligned root \<and>
     (\<forall>p t. path_ok p \<and> table_at m root p = Some t \<longrightarrow> t \<notin> free_frames (falloc m)) \<and>
     (\<forall>p q t. path_ok p \<and> path_ok q \<and> table_at m root p = Some t \<and> table_at m root q = Some t \<longrightarrow> p = q)"

lemma pt_wfD:
  assumes "pt_wf m root"
  shows "fa_inv (falloc m)" "page_aligned root"
    "\<And>p t. path_ok p \<Longrightarrow> table_at m root p = Some t \<Longrightarrow> t \<notin> free_frames (falloc m)"
    "\<And>p q t. path_ok p \<Longrightarrow> path_ok q \<Longrightarrow> table_at m root p = Some t \<Longrightarrow> table_at m root q = Some t \<Longrightarrow> p = q"
  using assms unfolding pt_wf_def by blast+

lemma index_bound:
  "pml4_index v < 512" "pdpt_index v < 512" "pd_index v < 512" "pt_index v < 512"
proof -
  have "unat (w AND 0x1FF :: u64) < 512" for w
  proof -
    have "w AND 0x1FF = take_bit 9 w" by (simp add: take_bit_eq_mask mask_eq_exp_minus_1)
    then show ?thesis by (simp add: take_bit_eq_mod unat_mod)
  qed
  then show "pml4_index v < 512" "pdpt_index v < 512" "pd_index v < 512" "pt_index v < 512"
    by (simp_all add: pml4_index_def pdpt_index_def pd_index_def pt_index_def)
qed

lemma path_ok_virt_path [simp]: "path_ok (virt_path v)"
  by (simp add: path_ok_def virt_path_def index_bound)

lemma path_ok_snoc: "path_ok (p @ [i]) \<longleftrightarrow> path_ok p \<and> length p < 3 \<and> i < 512"
  by (auto simp: path_ok_def)

lemma walk_step_eq:
  "walk_step m t i = (let v = read_entry m t i in if v AND 1 \<noteq> 0 then Some (frame_of v) else None)"
  by (simp add: walk_step_def next_table_def Let_def PAGE_PRESENT_def frame_of_def)

lemma walk_step_cong: "read_entry m t i = read_entry m' t i \<Longrightarrow> walk_step m t i = walk_step m' t i"
  by (simp add: walk_step_eq)

lemma walk_step_aligned: "walk_step m t i = Some u \<Longrightarrow> page_aligned u"
  by (auto simp: walk_step_eq Let_def split: if_splits)

lemma table_at_snoc:
  "table_at m t (p @ [i]) = (case table_at m t p of None \<Rightarrow> None | Some u \<Rightarrow> walk_step m u i)"
  by (induction m t p rule: table_at.induct) (auto split: option.splits)

lemma table_at_aligned: "page_aligned t \<Longrightarrow> table_at m t p = Some u \<Longrightarrow> page_aligned u"
  by (induction m t p rule: table_at.induct) (auto split: option.splits dest: walk_step_aligned)

lemma translate_leaf:
  "translate m root v =
     (case leaf m root v of None \<Rightarrow> None
      | Some e \<Rightarrow> if e AND 1 = 0 then None else Some (frame_of e OR (v AND 0xFFF)))"
  by (simp add: translate_def leaf_def virt_path_def PAGE_PRESENT_def frame_of_def Let_def
      flip: walk_step_def split: option.splits)

lemma table_at_prefix:
  "table_at m t (p @ q) = (case table_at m t p of None \<Rightarrow> None | Some u \<Rightarrow> table_at m u q)"
  by (induction m t p rule: table_at.induct) (auto split: option.splits)

definition tables :: "machine \<Rightarrow> u64 \<Rightarrow> u64 set" where
  "tables m root = {t. \<exists>p. path_ok p \<and> table_at m root p = Some t}"

lemma tablesI: "path_ok p \<Longrightarrow> table_at m root p = Some t \<Longrightarrow> t \<in> tables m root"
  by (auto simp: tables_def)

lemma pt_wf_tables_not_free: "pt_wf m root \<Longrightarrow> t \<in> tables m root \<Longrightarrow> t \<notin> free_frames (falloc m)"
  by (auto simp: tables_def pt_wf_def)

section \<open>Effect of one write on the tree\<close>

lemma read_write_entry:
  assumes "page_aligned t" "page_aligned t'" "i < 512" "j < 512"
  shows "read_entry (write_entry m t i v) t' j = (if t = t' \<and> i = j then v else read_entry m t' j)"
  using assms read_u64_write_u64_entry [of t t' i j] by (auto simp: read_entry_def write_entry_def)

lemma read_zero_frame:
  assumes "page_aligned f" "page_aligned t" "i < 512"
  shows "read_entry (zero_frame m f) t i = (if t = f then 0 else read_entry m t i)"
  using assms by (simp add: read_entry_def zero_frame_def read_u64_zero_frame read_u64_fill_other_frame)

lemma entry_frame:
  assumes "page_aligned f"
  shows "frame_of (f OR PAGE_PRESENT OR PAGE_WRITABLE OR PAGE_USER) = f"
    "(f OR PAGE_PRESENT OR PAGE_WRITABLE OR PAGE_USER) AND 1 \<noteq> 0"
proof -
  have "frame_of (f OR PAGE_PRESENT OR PAGE_WRITABLE OR PAGE_USER) = frame_of f OR frame_of 7"
    by (simp add: frame_of_def PAGE_PRESENT_def PAGE_WRITABLE_def PAGE_USER_def or.assoc bit.conj_disj_distrib2)
  then show "frame_of (f OR PAGE_PRESENT OR PAGE_WRITABLE OR PAGE_USER) = f"
    using assms by (simp add: frame_of_def [of 7])
  have "bit ((f OR PAGE_PRESENT OR PAGE_WRITABLE OR PAGE_USER) AND 1) 0"
    by (simp add: bit_simps PAGE_PRESENT_def)
  then show "(f OR PAGE_PRESENT OR PAGE_WRITABLE OR PAGE_USER) AND 1 \<noteq> 0" by (metis bit_0_eq bot_apply bot_bool_def)
qed

text \<open>Linking a fresh zeroed table \<open>f\<close> under entry \<open>i\<close> of the table at path \<open>p\<close>.\<close>

definition link_table :: "machine \<Rightarrow> u64 \<Rightarrow> nat \<Rightarrow> u64 \<Rightarrow> machine" where
  "link_table m t i f = write_entry (zero_frame m f) t i (f OR PAGE_PRESENT OR PAGE_WRITABLE OR PAGE_USER)"

lemma read_link_table:
  assumes "page_aligned t" "page_aligned f" "page_aligned t'" "i < 512" "j < 512" "t \<noteq> f"
  shows "read_entry (link_table m t i f) t' j =
    (if t' = t \<and> j = i then f OR PAGE_PRESENT OR PAGE_WRITABLE OR PAGE_USER
     else if t' = f then 0 else read_entry m t' j)"
  using assms by (auto simp: link_table_def read_write_entry read_zero_frame)

lemma table_at_link_table:
  assumes wf: "pt_wf m root" and t: "table_at m root p = Some t" and pi: "path_ok (p @ [i])"
    and f: "f \<in> free_frames (falloc m)" "page_aligned f" and q: "path_ok q"
  shows "table_at (link_table m t i f) root q =
    (if take (Suc (length p)) q = p @ [i] then if length q = Suc (length p) then Some f else None
     else table_at m root q)"
  using q
proof (induction q rule: rev_induct)
  case (snoc j q)
  have okq: "path_ok q" "j < 512" and okp: "path_ok p" "i < 512" using snoc.prems pi by (auto simp: path_ok_snoc)
  note al = pt_wfD(2) [OF wf]
  have tf: "t \<noteq> f" using pt_wfD(3) [OF wf okp(1) t] f by blast
  note rd = read_link_table [OF table_at_aligned [OF al t] f(2) _ okp(2) okq(2) tf, of _ m]
  let ?n = "Suc (length p)"
  show ?case
  proof (cases "take ?n q = p @ [i]")
    case True
    then have len: "?n \<le> length q" by (metis length_append_singleton length_take min.cobounded1)
    have "walk_step (link_table m t i f) f j = None"
      using tf f(2) by (simp add: walk_step_eq rd)
    then show ?thesis using snoc.IH [OF okq(1)] True len by (auto simp: table_at_snoc)
  next
    case False
    note IH = snoc.IH [OF okq(1)] False
    have iff: "take ?n (q @ [j]) = p @ [i] \<longleftrightarrow> q = p \<and> j = i"
    proof
      assume a: "take ?n (q @ [j]) = p @ [i]"
      have "length q < ?n" using False a by (metis append.right_neutral diff_is_0_eq not_less take0 take_append)
      with a have "q @ [j] = p @ [i]" by simp
      then show "q = p \<and> j = i" by simp
    qed simp
    show ?thesis
    proof (cases "table_at m root q")
      case None
      then show ?thesis using IH t iff by (auto simp: table_at_snoc)
    next
      case (Some u)
      have uf: "u \<noteq> f" using pt_wfD(3) [OF wf okq(1) Some] f by blast
      have ut: "u = t \<longleftrightarrow> q = p" using pt_wfD(4) [OF wf okq(1) okp(1) Some] t Some by auto
      note r = rd [OF table_at_aligned [OF al Some]]
      show ?thesis using IH Some iff uf ut r entry_frame [OF f(2)]
        by (auto simp: table_at_snoc walk_step_eq Let_def)
    qed
  qed
qed simp

lemma falloc_link_table [simp]: "falloc (link_table m t i f) = falloc m" "kernel_cr3 (link_table m t i f) = kernel_cr3 m"
  by (simp_all add: link_table_def write_entry_def zero_frame_def)

lemma table_at_falloc [simp]: "table_at (m\<lparr>falloc := x\<rparr>) t p = table_at m t p"
  by (induction p arbitrary: t) (simp_all add: walk_step_eq read_entry_def Let_def)

lemma leaf_falloc [simp]: "leaf (m\<lparr>falloc := x\<rparr>) t v = leaf m t v"
  by (simp add: leaf_def read_entry_def)

lemma translate_falloc [simp]: "translate (m\<lparr>falloc := x\<rparr>) t v = translate m t v"
  by (simp add: translate_leaf)

lemma link_table_falloc: "link_table (m\<lparr>falloc := x\<rparr>) t i f = (link_table m t i f)\<lparr>falloc := x\<rparr>"
  by (simp add: link_table_def write_entry_def zero_frame_def)

lemma tables_falloc [simp]: "tables (m\<lparr>falloc := x\<rparr>) root = tables m root"
  by (simp add: tables_def)

text \<open>
  What extending the tree keeps: the tree stays well-formed and only grows by frames that
  were free, the old tables stay where they are, every address translates as before, and no
  memory outside the tree and the free frames is written.
\<close>

definition pt_grows :: "u64 \<Rightarrow> machine \<Rightarrow> machine \<Rightarrow> bool" where
  "pt_grows root m m' \<longleftrightarrow> pt_wf m' root \<and> kernel_cr3 m' = kernel_cr3 m
     \<and> free_frames (falloc m') \<subseteq> free_frames (falloc m) \<and> same_layout (falloc m) (falloc m')
     \<and> tables m' root \<subseteq> tables m root \<union> free_frames (falloc m)
     \<and> (\<forall>p t. path_ok p \<and> table_at m root p = Some t \<longrightarrow> table_at m' root p = Some t)
     \<and> (\<forall>x. frame_of x \<notin> tables m root \<union> free_frames (falloc m) \<longrightarrow> phys m' x = phys m x)"

definition same_translation :: "u64 \<Rightarrow> machine \<Rightarrow> machine \<Rightarrow> bool" where
  "same_translation root m m' \<longleftrightarrow> (\<forall>v. translate m' root v = translate m root v)"

lemma same_layout_managed: "same_layout a b \<Longrightarrow> managed_frames b = managed_frames a"
  unfolding managed_frames_def by (simp add: frame_addr_layout) (simp add: same_layout_def)

lemma pt_grows_refl: "pt_wf m root \<Longrightarrow> pt_grows root m m"
  by (auto simp: pt_grows_def)

lemma pt_grows_trans:
  assumes "pt_grows root a b" "pt_grows root b c"
  shows "pt_grows root a c"
proof -
  have wr: "phys c x = phys a x" if "frame_of x \<notin> tables a root \<union> free_frames (falloc a)" for x
    using assms that unfolding pt_grows_def by (metis Un_iff subset_iff)
  have "tables c root \<subseteq> tables a root \<union> free_frames (falloc a)"
    "free_frames (falloc c) \<subseteq> free_frames (falloc a)" "same_layout (falloc a) (falloc c)"
    using assms same_layout_trans [of "falloc a" "falloc b" "falloc c"] unfolding pt_grows_def by blast+
  then show ?thesis using assms wr unfolding pt_grows_def by (auto simp only:)
qed

lemma pt_grows_falloc:
  assumes wf: "pt_wf m root" and "fa_inv fa'" "free_frames fa' \<subseteq> free_frames (falloc m)" "same_layout (falloc m) fa'"
  shows "pt_grows root m (m\<lparr>falloc := fa'\<rparr>)"
  using assms unfolding pt_grows_def pt_wf_def by (auto simp: tables_def)

lemma pt_wf_link_table:
  assumes wf: "pt_wf m root" and t: "table_at m root p = Some t" and pi: "path_ok (p @ [i])"
    and f: "f \<in> free_frames (falloc m)" "page_aligned f"
    and fa: "fa_inv fa'" "free_frames fa' = free_frames (falloc m) - {f}"
  shows "pt_wf ((link_table m t i f)\<lparr>falloc := fa'\<rparr>) root"
proof -
  note ta = table_at_link_table [OF wf t pi f]
  let ?on = "\<lambda>q. take (Suc (length p)) q = p @ [i]"
  have tab: "(?on q \<and> q = p @ [i] \<and> u = f) \<or> (\<not> ?on q \<and> table_at m root q = Some u)"
    if "path_ok q" "table_at (link_table m t i f) root q = Some u" for q u
    using that ta [OF that(1)] by (auto split: if_splits)
  have "u \<noteq> f" if "path_ok q" "table_at m root q = Some u" for q u
    using pt_wfD(3) [OF wf that] f by blast
  then have nf: "u = f \<longleftrightarrow> q = p @ [i]"
    if "path_ok q" "table_at (link_table m t i f) root q = Some u" for q u
    using tab [OF that] that(1) by auto
  have "p' = q'" if "path_ok p'" "path_ok q'" "table_at (link_table m t i f) root p' = Some u"
    "table_at (link_table m t i f) root q' = Some u" for p' q' u
  proof (cases "u = f")
    case True
    with nf that show ?thesis by blast
  next
    case False
    with tab [OF that(1,3)] tab [OF that(2,4)] that show ?thesis by (auto dest: pt_wfD(4) [OF wf])
  qed
  moreover have "u \<notin> free_frames fa'" if "path_ok q" "table_at (link_table m t i f) root q = Some u" for q u
    using tab [OF that] that(1) fa(2) by (auto dest: pt_wfD(3) [OF wf])
  ultimately show ?thesis unfolding pt_wf_def using fa(1) pt_wfD(2) [OF wf] by auto
qed

lemma link_table_other:
  assumes "page_aligned t" "i < 512" "page_aligned f" "frame_of x \<noteq> t" "frame_of x \<noteq> f"
  shows "phys (link_table m t i f) x = phys m x"
  using assms by (simp add: link_table_def write_entry_def zero_frame_def write_u64_entry_other_frame fill_bytes_frame)

lemma walk_step_None_path:
  "table_at m root p = Some t \<Longrightarrow> walk_step m t i = None \<Longrightarrow> take (Suc (length p)) q = p @ [i] \<Longrightarrow>
   table_at m root q = None"
  using table_at_prefix [of m root "p @ [i]" "drop (Suc (length p)) q"]
  by (metis append_take_drop_id option.case(1) option.simps(5) table_at_snoc)

lemma translate_link_table:
  assumes wf: "pt_wf m root" and t: "table_at m root p = Some t" and pi: "path_ok (p @ [i])"
    and f: "f \<in> free_frames (falloc m)" "page_aligned f" and none: "walk_step m t i = None"
  shows "translate (link_table m t i f) root v = translate m root v"
proof -
  let ?q = "virt_path v" and ?m = "link_table m t i f"
  have p: "path_ok p" "i < 512" "length p < 3" using pi by (auto simp: path_ok_snoc)
  note al = pt_wfD(2) [OF wf]
  have tf: "t \<noteq> f" using pt_wfD(3) [OF wf p(1) t] f by blast
  note rd = read_link_table [OF table_at_aligned [OF al t] f(2) _ p(2) index_bound(4) tf, of _ m v]
  note ta = table_at_link_table [OF wf t pi f path_ok_virt_path, of v]
  show ?thesis
  proof (cases "take (Suc (length p)) ?q = p @ [i]")
    case True
    then have "table_at m root ?q = None" by (rule walk_step_None_path [OF t none])
    moreover have "read_entry ?m f (pt_index v) = 0" using rd [OF f(2)] tf by simp
    ultimately show ?thesis using ta True by (simp add: translate_leaf leaf_def)
  next
    case False
    have "read_entry ?m u (pt_index v) = read_entry m u (pt_index v)" if u: "table_at m root ?q = Some u" for u
    proof -
      have "u \<noteq> f" using pt_wfD(3) [OF wf path_ok_virt_path u] f by blast
      moreover have "u \<noteq> t" using pt_wfD(4) [OF wf path_ok_virt_path p(1) u] t p(3) by (auto simp: virt_path_def)
      ultimately show ?thesis using rd [OF table_at_aligned [OF al u]] by simp
    qed
    with ta False have "leaf ?m root v = leaf m root v"
      by (cases "table_at m root ?q") (simp_all add: leaf_def)
    then show ?thesis by (simp add: translate_leaf)
  qed
qed

lemma pt_grows_link_table:
  assumes wf: "pt_wf m root" and t: "table_at m root p = Some t" and pi: "path_ok (p @ [i])"
    and f: "f \<in> free_frames (falloc m)" "page_aligned f" and none: "walk_step m t i = None"
    and fa: "fa_inv fa'" "free_frames fa' = free_frames (falloc m) - {f}" "same_layout (falloc m) fa'"
  shows "pt_grows root m ((link_table m t i f)\<lparr>falloc := fa'\<rparr>)"
proof -
  have p: "path_ok p" "i < 512" using pi by (auto simp: path_ok_snoc)
  note ta = table_at_link_table [OF wf t pi f]
  have keep: "table_at (link_table m t i f) root q = Some u" if "path_ok q" "table_at m root q = Some u" for q u
    using ta [OF that(1)] walk_step_None_path [OF t none, of q] that(2) by auto
  have sub: "tables (link_table m t i f) root \<subseteq> tables m root \<union> free_frames (falloc m)"
    using ta f(1) unfolding tables_def by (fastforce split: if_splits)
  have "t \<in> tables m root" by (rule tablesI [OF p(1) t])
  then have "phys (link_table m t i f) x = phys m x" if "frame_of x \<notin> tables m root \<union> free_frames (falloc m)" for x
    using that link_table_other [OF table_at_aligned [OF pt_wfD(2) [OF wf] t] p(2) f(2)] f(1) by (metis Un_iff)
  with keep sub fa pt_wf_link_table [OF wf t pi f fa(1,2)] show ?thesis
    unfolding pt_grows_def by auto
qed

section \<open>The operations on a well-formed tree\<close>

lemma pt_grows_wf: "pt_grows root m m' \<Longrightarrow> pt_wf m' root"
  by (simp add: pt_grows_def)

lemma next_table_create:
  assumes wf: "pt_wf m root" and t: "table_at m root p = Some t" and pi: "path_ok (p @ [i])"
    and run: "next_table m t i True = (r, m')"
  shows "pt_grows root m m'" "same_translation root m m'"
    "\<And>u. r = Some u \<Longrightarrow> table_at m' root (p @ [i]) = Some u"
    "r = None \<Longrightarrow> free_frames (falloc m) = {}"
    "card (free_frames (falloc m)) \<le> Suc (card (free_frames (falloc m')))"
proof -
  have "pt_grows root m m' \<and> same_translation root m m' \<and> (\<forall>u. r = Some u \<longrightarrow> table_at m' root (p @ [i]) = Some u)
    \<and> (r = None \<longrightarrow> free_frames (falloc m) = {})
    \<and> card (free_frames (falloc m)) \<le> Suc (card (free_frames (falloc m')))"
  proof (cases "walk_step m t i")
    case (Some u)
    then have "r = Some u" "m' = m" using run
      by (auto simp: walk_step_def next_table_def Let_def split: if_splits)
    then show ?thesis using wf t Some by (simp add: pt_grows_refl same_translation_def table_at_snoc)
  next
    case None
    then have np: "read_entry m t i AND PAGE_PRESENT = 0"
      by (auto simp: walk_step_eq Let_def PAGE_PRESENT_def split: if_splits)
    obtain o1 fa' where al: "allocate_frame (falloc m) = (o1, fa')" by fastforce
    show ?thesis
    proof (cases o1)
      case n: None
      note a = allocate_frame_None [OF pt_wfD(1) [OF wf] al [unfolded n]]
      have "r = None" "m' = m\<lparr>falloc := fa'\<rparr>"
        using run np al n by (auto simp: next_table_def alloc_frame_def Let_def)
      then show ?thesis using a wf by (simp add: pt_grows_falloc same_translation_def)
    next
      case (Some f)
      note a = allocate_frame_Some [OF pt_wfD(1) [OF wf] al [unfolded Some]]
      have pf: "page_aligned f" using fa.alloc_aligned [OF pt_wfD(1) [OF wf] al [unfolded Some]] .
      have r: "r = Some f" "m' = (link_table m t i f)\<lparr>falloc := fa'\<rparr>"
        using run np al Some by (auto simp: next_table_def alloc_frame_def Let_def link_table_def
            write_entry_def zero_frame_def)
      have "table_at m' root (p @ [i]) = Some f"
        using table_at_link_table [OF wf t pi a(1) pf pi] by (simp add: r)
      moreover have "card (free_frames (falloc m)) \<le> Suc (card (free_frames (falloc m')))"
        using a(1,3) by (simp add: r card_Diff_singleton_if)
      ultimately show ?thesis
        using pt_grows_link_table [OF wf t pi a(1) pf None a(4,3,5)] translate_link_table [OF wf t pi a(1) pf None]
        by (simp add: r same_translation_def)
    qed
  qed
  then show "pt_grows root m m'" "same_translation root m m'"
    "\<And>u. r = Some u \<Longrightarrow> table_at m' root (p @ [i]) = Some u"
    "r = None \<Longrightarrow> free_frames (falloc m) = {}"
    "card (free_frames (falloc m)) \<le> Suc (card (free_frames (falloc m')))" by blast+
qed

text \<open>Writing an entry of a last-level table changes the leaf of that page and nothing else.\<close>

definition same_page :: "u64 \<Rightarrow> u64 \<Rightarrow> bool" where
  "same_page v w \<longleftrightarrow> virt_path v = virt_path w \<and> pt_index v = pt_index w"

lemma table_at_write_leaf:
  assumes wf: "pt_wf m root" and t: "table_at m root p = Some t" and p: "path_ok p" "length p = 3" "i < 512"
    and q: "path_ok q"
  shows "table_at (write_entry m t i e) root q = table_at m root q"
  using q
proof (induction q rule: rev_induct)
  case (snoc j q)
  have okq: "path_ok q" "j < 512" "length q < 3" using snoc.prems by (auto simp: path_ok_snoc)
  note al = pt_wfD(2) [OF wf]
  show ?case
  proof (cases "table_at m root q")
    case (Some u)
    have "u \<noteq> t" using pt_wfD(4) [OF wf okq(1) p(1) Some] t okq(3) p(2) by auto
    then have "read_entry (write_entry m t i e) u j = read_entry m u j"
      using read_write_entry [OF table_at_aligned [OF al t] table_at_aligned [OF al Some] p(3) okq(2)] by simp
    then show ?thesis using snoc.IH [OF okq(1)] Some by (simp add: table_at_snoc walk_step_eq)
  qed (use snoc.IH [OF okq(1)] in \<open>simp add: table_at_snoc\<close>)
qed simp

lemma write_leaf:
  assumes wf: "pt_wf m root" and t: "table_at m root (virt_path v) = Some t"
  shows "pt_grows root m (write_entry m t (pt_index v) e)"
    "leaf (write_entry m t (pt_index v) e) root w = (if same_page v w then Some e else leaf m root w)"
proof -
  let ?m = "write_entry m t (pt_index v) e"
  have len: "length (virt_path v) = 3" by (simp add: virt_path_def)
  note ta = table_at_write_leaf [OF wf t path_ok_virt_path len index_bound(4), of _ v]
  note al = pt_wfD(2) [OF wf]
  have falloc: "falloc ?m = falloc m" "kernel_cr3 ?m = kernel_cr3 m" by (simp_all add: write_entry_def)
  have wf': "pt_wf ?m root" using wf ta unfolding pt_wf_def falloc by metis
  have tab: "tables ?m root = tables m root" using ta by (auto simp: tables_def)
  have "t \<in> tables m root" by (rule tablesI [OF path_ok_virt_path t])
  then have "phys ?m x = phys m x" if "frame_of x \<notin> tables m root" for x
    using that write_u64_entry_other_frame [OF table_at_aligned [OF al t] index_bound(4)]
    by (simp add: write_entry_def) metis
  with wf' tab ta falloc show "pt_grows root m ?m" by (simp add: pt_grows_def)
  show "leaf ?m root w = (if same_page v w then Some e else leaf m root w)"
  proof (cases "table_at m root (virt_path w)")
    case None
    then have "virt_path v \<noteq> virt_path w" using t by auto
    then show ?thesis using ta [OF path_ok_virt_path [of w]] None by (simp add: leaf_def same_page_def)
  next
    case (Some u)
    have "virt_path v = virt_path w \<longleftrightarrow> t = u"
      using pt_wfD(4) [OF wf path_ok_virt_path [of w] path_ok_virt_path [of v] Some] t Some by (metis option.inject)
    moreover have "read_entry ?m u (pt_index w) =
      (if t = u \<and> pt_index v = pt_index w then e else read_entry m u (pt_index w))"
      by (rule read_write_entry [OF table_at_aligned [OF al t] table_at_aligned [OF al Some] index_bound(4) index_bound(4)])
    ultimately show ?thesis using ta [OF path_ok_virt_path [of w]] Some by (simp add: leaf_def same_page_def)
  qed
qed

lemma same_translation_trans: "same_translation root a b \<Longrightarrow> same_translation root b c \<Longrightarrow> same_translation root a c"
  by (simp add: same_translation_def)

lemma virt_path_snoc:
  "virt_path v = ([] @ [pml4_index v]) @ [pdpt_index v] @ [pd_index v]"
  "path_ok ([] @ [pml4_index v])" "path_ok ([pml4_index v] @ [pdpt_index v])"
  "path_ok ([pml4_index v, pdpt_index v] @ [pd_index v])"
  by (simp_all add: virt_path_def path_ok_def index_bound)

definition map_post :: "u64 \<Rightarrow> u64 \<Rightarrow> u64 \<Rightarrow> bool \<Rightarrow> machine \<Rightarrow> machine \<Rightarrow> bool" where
  "map_post root v e ok m m' \<longleftrightarrow> pt_grows root m m'
     \<and> (ok \<longrightarrow> (\<forall>w. translate m' root w =
           (if same_page v w then if e AND 1 = 0 then None else Some (frame_of e OR (w AND 0xFFF))
            else translate m root w)))
     \<and> (\<not> ok \<longrightarrow> same_translation root m m' \<and> card (free_frames (falloc m)) < 3)
     \<and> card (free_frames (falloc m)) \<le> card (free_frames (falloc m')) + 3"

lemma map_post_write:
  assumes g: "pt_grows root m m3" "same_translation root m m3" and t: "table_at m3 root (virt_path v) = Some t"
    and c: "card (free_frames (falloc m)) \<le> card (free_frames (falloc m3)) + 3"
  shows "map_post root v e True m (write_entry m3 t (pt_index v) e)"
proof -
  note w = write_leaf [OF pt_grows_wf [OF g(1)] t, of e]
  have "translate (write_entry m3 t (pt_index v) e) root u =
    (if same_page v u then if e AND 1 = 0 then None else Some (frame_of e OR (u AND 0xFFF))
     else translate m root u)" for u
    using w(2) [of u] g(2) by (simp add: translate_leaf same_translation_def)
  moreover have "falloc (write_entry m3 t (pt_index v) e) = falloc m3" by (simp add: write_entry_def)
  ultimately show ?thesis using pt_grows_trans [OF g(1) w(1)] c by (simp add: map_post_def)
qed

lemma map_page_post:
  assumes wf: "pt_wf m root" and run: "map_page m root v paddr flags = (ok, m')"
  shows "map_post root v (paddr OR flags OR PAGE_PRESENT) ok m m'"
proof -
  obtain o1 m1 where n1: "next_table m root (pml4_index v) True = (o1, m1)" by fastforce
  note s1 = next_table_create [OF wf table_at.simps(1) virt_path_snoc(2) n1]
  note wf1 = pt_grows_wf [OF s1(1)]
  show ?thesis
  proof (cases o1)
    case None
    with run n1 s1 show ?thesis by (simp add: map_page_def map_post_def)
  next
    case (Some t1)
    note t1 = s1(3) [OF Some]
    obtain o2 m2 where n2: "next_table m1 t1 (pdpt_index v) True = (o2, m2)" by fastforce
    note s2 = next_table_create [OF wf1 t1 [unfolded append_Nil] virt_path_snoc(3) n2]
    note g2 = pt_grows_trans [OF s1(1) s2(1)] same_translation_trans [OF s1(2) s2(2)]
    note wf2 = pt_grows_wf [OF s2(1)]
    show ?thesis
    proof (cases o2)
      case n: None
      with run n1 n2 Some g2 s1(5) s2(4) show ?thesis by (simp add: map_page_def map_post_def)
    next
      case o2: (Some t2)
      note t2 = s2(3) [OF o2]
      obtain o3 m3 where n3: "next_table m2 t2 (pd_index v) True = (o3, m3)" by fastforce
      note s3 = next_table_create [OF wf2 t2 [unfolded append_Cons append_Nil] virt_path_snoc(4) n3]
      note g3 = pt_grows_trans [OF g2(1) s3(1)] same_translation_trans [OF g2(2) s3(2)]
      show ?thesis
      proof (cases o3)
        case n: None
        with run n1 n2 n3 Some o2 g3 s1(5) s2(5) s3(4) show ?thesis by (simp add: map_page_def map_post_def)
      next
        case o3: (Some t3)
        have "table_at m3 root (virt_path v) = Some t3" using s3(3) [OF o3] by (simp add: virt_path_def)
        moreover have "card (free_frames (falloc m)) \<le> card (free_frames (falloc m3)) + 3"
          using s1(5) s2(5) s3(5) by linarith
        note map_post_write [OF g3 calculation this, of "paddr OR flags OR PAGE_PRESENT"]
        with run n1 n2 n3 Some o2 o3 show ?thesis by (auto simp: map_page_def)
      qed
    qed
  qed
qed

end
