(* ===== verification/Address_Space.thy ===== *)
theory Address_Space
  imports Page_Table
begin

text \<open>
  What the page-table operations mean for translations: page numbers, contiguous regions
  (\<open>map_region\<close>), new address spaces (\<open>new_page_table\<close>) and the properties of the component.
\<close>

section \<open>Pages as numbers\<close>

text \<open>The walk looks at bits 12 to 47 only: the page number modulo \<open>2\<^sup>3\<^sup>6\<close>.\<close>

definition page_no :: "u64 \<Rightarrow> nat" where
  "page_no v = unat v div 4096 mod 2 ^ 36"

lemma unat_index_bits: "unat (drop_bit k (v :: u64) AND 0x1FF) = unat v div 2 ^ k mod 512"
proof -
  have "drop_bit k v AND 0x1FF = take_bit 9 (drop_bit k v)" by (simp add: take_bit_eq_mask mask_eq_exp_minus_1)
  then show ?thesis by (simp add: take_bit_eq_mod unat_mod unat_drop_bit_eq flip: drop_bit_eq_div)
qed

lemma digit_512: "(512 * x + a mod 512) mod 512 = (a mod 512 :: nat)" "(512 * x + a mod 512) div 512 = x"
  by simp_all

lemma index_page_no:
  "pt_index v = page_no v mod 512" "pd_index v = page_no v div 512 mod 512"
  "pdpt_index v = page_no v div 512 div 512 mod 512" "pml4_index v = page_no v div 512 div 512 div 512"
proof -
  let ?n = "unat v div 4096"
  have p: "unat v div 2 ^ 12 = ?n" "unat v div 2 ^ 21 = ?n div 512" "unat v div 2 ^ 30 = ?n div 512 div 512"
    "unat v div 2 ^ 39 = ?n div 512 div 512 div 512"
    by (simp_all add: div_mult2_eq [symmetric])
  have k: "2 ^ 36 = 512 * (512 * (512 * (512 :: nat)))" by simp
  have q: "page_no v = 512 * (512 * (512 * (?n div 512 div 512 div 512 mod 512) + ?n div 512 div 512 mod 512)
      + ?n div 512 mod 512) + ?n mod 512"
    unfolding page_no_def k mod_mult2_eq ..
  show "pt_index v = page_no v mod 512" "pd_index v = page_no v div 512 mod 512"
    "pdpt_index v = page_no v div 512 div 512 mod 512" "pml4_index v = page_no v div 512 div 512 div 512"
    unfolding pt_index_def pd_index_def pdpt_index_def pml4_index_def unat_index_bits p q
    by (simp_all only: digit_512 mod_mod_trivial)
qed

lemma same_page_iff: "same_page v w \<longleftrightarrow> page_no v = page_no w"
proof
  assume "same_page v w"
  then have s: "page_no v mod 512 = page_no w mod 512" "page_no v div 512 mod 512 = page_no w div 512 mod 512"
    "page_no v div 512 div 512 mod 512 = page_no w div 512 div 512 mod 512"
    "page_no v div 512 div 512 div 512 = page_no w div 512 div 512 div 512"
    by (auto simp: same_page_def virt_path_def index_page_no)
  have e: "n = 512 * (512 * (512 * (n div 512 div 512 div 512) + n div 512 div 512 mod 512)
      + n div 512 mod 512) + n mod 512" for n :: nat
    by (simp only: mult_div_mod_eq)
  show "page_no v = page_no w" by (subst (1 2) e) (simp only: s)
qed (simp add: same_page_def virt_path_def index_page_no)

lemma same_page_sym: "same_page v w = same_page w v"
  by (auto simp: same_page_iff)

lemma unat_page_offset:
  assumes "unat base + 4096 * n \<le> 2 ^ 64" "i < n" "k < 4096"
  shows "unat (base + of_nat (4096 * i + k) :: u64) = unat base + 4096 * i + k"
proof -
  have "4096 * i + k < 4096 * n" using assms(2,3) by simp
  then have "unat base + (4096 * i + k) < 2 ^ 64" using assms(1) by linarith
  then show ?thesis by (simp add: unat_word_ariths unat_of_nat)
qed

lemma page_no_offset:
  assumes "page_aligned base" "unat base + 4096 * n \<le> 2 ^ 64" "i < n" "k < 4096"
  shows "page_no (base + of_nat (4096 * i + k)) = (unat base div 4096 + i) mod 2 ^ 36"
proof -
  obtain q where q: "unat base = 4096 * q" using assms(1) by (auto simp: page_aligned_iff mod_eq_0_iff_dvd elim: dvdE)
  have "(4096 * q + 4096 * i + k) div 4096 = q + i" using assms(4) by simp
  then show ?thesis unfolding page_no_def unat_page_offset [OF assms(2-4)] q by simp
qed

lemma page_no_offset_inj:
  assumes "page_aligned base" "unat base + 4096 * n \<le> 2 ^ 64" "n \<le> 2 ^ 36" "i < n" "j < n"
    and "same_page (base + of_nat (4096 * i)) (base + of_nat (4096 * j))"
  shows "i = j"
proof -
  let ?b = "unat base div 4096" and ?M = "2 ^ 36 :: nat"
  have *: "i = j" if "(?b + i) mod ?M = (?b + j) mod ?M" "i \<le> j" "j < n" for i j
  proof -
    from that(1,2) have "?M dvd (j - i)" by (metis add_diff_cancel_left mod_eq_dvd_iff_nat nat_add_left_cancel_le)
    moreover have "j - i < ?M" using that(3) assms(3) by linarith
    ultimately have "j - i = 0" by (meson gr0I nat_dvd_not_less)
    then show "i = j" using that(2) by simp
  qed
  have "(?b + i) mod ?M = (?b + j) mod ?M"
    using assms(6) page_no_offset [OF assms(1,2,4), of 0] page_no_offset [OF assms(1,2,5), of 0] by (simp add: same_page_iff)
  then show ?thesis using * [of i j] * [of j i] assms(4,5) by (metis nat_le_linear)
qed

text \<open>An entry with an aligned address and flags below bit 12 translates to that address.\<close>

lemma frame_of_entry: "frame_of (paddr OR flags OR PAGE_PRESENT) = frame_of paddr OR frame_of flags"
proof -
  have "frame_of 1 = 0" by (simp add: frame_of_def)
  then show ?thesis by (simp add: frame_of_def PAGE_PRESENT_def bit.conj_disj_distrib2)
qed

lemma not_bit_below: "unat (w :: u64) < 2 ^ n \<Longrightarrow> \<not> bit w n"
  by (simp add: bit_iff_odd_drop_bit flip: unat_drop_bit_eq) (metis div_less drop_bit_eq_div even_zero unat_drop_bit_eq unat_eq_0 unsigned_0)

lemma entry_present: "(paddr OR flags OR PAGE_PRESENT) AND 1 \<noteq> 0"
proof -
  have "bit ((paddr OR flags OR PAGE_PRESENT) AND 1) 0" by (simp add: bit_simps PAGE_PRESENT_def)
  then show ?thesis by (metis bit_0_eq bot_apply bot_bool_def)
qed

lemma aligned_or_offset: "page_aligned a \<Longrightarrow> k < 4096 \<Longrightarrow> a OR of_nat k = a + of_nat k"
proof -
  assume a: "page_aligned a" "k < 4096"
  have "a AND of_nat k = 0"
  proof (rule bit_word_eqI)
    fix n
    assume n: "n < LENGTH(64)"
    have "\<not> bit a n" if "n < 12"
    proof -
      have "\<not> bit (take_bit 12 a) n" using a(1) by (simp add: page_aligned_def and_FFF)
      then show ?thesis using that n by (simp add: bit_take_bit_iff)
    qed
    moreover have "\<not> bit (of_nat k :: u64) n" if "12 \<le> n"
    proof -
      have "take_bit 12 k = k" using a(2) by (simp add: take_bit_nat_eq_self)
      then have "\<not> bit k n" using that by (metis bit_take_bit_iff not_less)
      then show ?thesis by (simp add: bit_of_nat_iff)
    qed
    ultimately show "bit (a AND of_nat k) n = bit (0 :: u64) n"
      by (cases "n < 12") (simp_all add: bit_and_iff)
  qed
  then show ?thesis by (simp add: disjunctive_add_eq_or)
qed

lemma offset_and_FFF: "page_aligned a \<Longrightarrow> k < 4096 \<Longrightarrow> (a + of_nat k) AND 0xFFF = of_nat k"
  using frame_of_offset [of a k] and_not_FFF_or [of "a + of_nat k"] by (simp add: frame_of_def)

lemma entry_translation:
  assumes "page_aligned paddr" "flags AND 0xFFF = flags" "page_aligned v" "k < 4096"
  shows "frame_of (paddr OR flags OR PAGE_PRESENT) OR ((v + of_nat k) AND 0xFFF) = paddr + of_nat k"
proof -
  have "frame_of flags = 0" using assms(2) by (metis and_zero_eq and.assoc bit.conj_cancel_right frame_of_def)
  then show ?thesis using assms by (simp add: frame_of_entry offset_and_FFF aligned_or_offset)
qed

section \<open>Regions\<close>

lemma map_region_from_step:
  assumes "unat vb + 4096 * n \<le> 2 ^ 64" "unat pb + 4096 * n \<le> 2 ^ 64" "i < n"
  shows "map_region_from m root vb pb flags (i # is) =
    (case map_page m root (vb + of_nat (4096 * i)) (pb + of_nat (4096 * i)) flags of
       (False, m') \<Rightarrow> Inr (False, m') | (True, m') \<Rightarrow> map_region_from m' root vb pb flags is)"
proof -
  have lt: "4096 * i < 4096 * n" using assms(3) by simp
  then have "i * 4096 < 2 ^ 64" using assms(1) by linarith
  then have u: "unat (of_nat i :: u64) * unat (4096 :: u64) = i * 4096" "unat (of_nat (4096 * i) :: u64) = 4096 * i"
    by (simp_all add: unat_of_nat del: of_nat_mult)
  have e: "(of_nat i * 4096 :: u64) = of_nat (4096 * i)" by simp
  have m: "mul_chk (of_nat i :: u64) 4096 = Inr (of_nat (4096 * i))"
    using u \<open>i * 4096 < 2 ^ 64\<close> e unfolding mul_chk_def by (simp del: of_nat_mult)
  have "unat vb + 4096 * i < 2 ^ 64" "unat pb + 4096 * i < 2 ^ 64" using assms(1,2) lt by linarith+
  then have "add_chk vb (of_nat (4096 * i)) = Inr (vb + of_nat (4096 * i))"
    "add_chk pb (of_nat (4096 * i)) = Inr (pb + of_nat (4096 * i))"
    using u(2) unfolding add_chk_def by (simp_all del: of_nat_mult)
  then show ?thesis unfolding map_region_from.simps m by (simp del: of_nat_mult)
qed

definition region_post :: "u64 \<Rightarrow> u64 \<Rightarrow> u64 \<Rightarrow> u64 \<Rightarrow> nat set \<Rightarrow> machine \<Rightarrow> machine \<Rightarrow> bool" where
  "region_post root vb pb flags S m m' \<longleftrightarrow> pt_grows root m m' \<and>
     (\<forall>w. (\<forall>i\<in>S. \<not> same_page (vb + of_nat (4096 * i)) w) \<longrightarrow> translate m' root w = translate m root w) \<and>
     (\<forall>i\<in>S. \<forall>w. same_page (vb + of_nat (4096 * i)) w \<longrightarrow>
        translate m' root w = Some (frame_of ((pb + of_nat (4096 * i)) OR flags OR PAGE_PRESENT) OR (w AND 0xFFF)))"

lemma region_post_Cons:
  assumes "map_post root (vb + of_nat (4096 * i)) ((pb + of_nat (4096 * i)) OR flags OR PAGE_PRESENT) True m m1"
    and "region_post root vb pb flags S m1 m'"
    and "\<And>j. j \<in> S \<Longrightarrow> \<not> same_page (vb + of_nat (4096 * i)) (vb + of_nat (4096 * j))"
  shows "region_post root vb pb flags (insert i S) m m'"
proof -
  have tr: "translate m1 root w =
      (if same_page (vb + of_nat (4096 * i)) w
       then Some (frame_of ((pb + of_nat (4096 * i)) OR flags OR PAGE_PRESENT) OR (w AND 0xFFF))
       else translate m root w)" for w
    using assms(1) entry_present by (simp add: map_post_def del: of_nat_mult)
  have "\<not> same_page (vb + of_nat (4096 * j)) w" if "j \<in> S" "same_page (vb + of_nat (4096 * i)) w" for j w
    using assms(3) [OF that(1)] that(2) by (simp add: same_page_iff del: of_nat_mult)
  moreover have "pt_grows root m m'"
    using assms(1,2) pt_grows_trans unfolding region_post_def map_post_def by blast
  ultimately show ?thesis using assms(2) tr unfolding region_post_def by (auto simp del: of_nat_mult)
qed

lemma map_region_from_post:
  assumes b: "page_aligned vb" "unat vb + 4096 * n \<le> 2 ^ 64" "unat pb + 4096 * n \<le> 2 ^ 64" "n \<le> 2 ^ 36"
    and idx: "set is \<subseteq> {..<n}" "distinct is" and wf: "pt_wf m root"
  shows "\<exists>ok m'. map_region_from m root vb pb flags is = Inr (ok, m') \<and>
    (ok \<longrightarrow> region_post root vb pb flags (set is) m m') \<and> pt_grows root m m' \<and>
    (3 * length is \<le> card (free_frames (falloc m)) \<longrightarrow> ok)"
  using idx wf
proof (induction "is" arbitrary: m)
  case Nil
  then show ?case by (intro exI [of _ True] exI [of _ m]) (simp add: region_post_def pt_grows_refl)
next
  case (Cons i "is")
  have i: "i < n" and idx': "set is \<subseteq> {..<n}" "distinct is" "i \<notin> set is" using Cons.prems by auto
  let ?v = "vb + of_nat (4096 * i)" and ?p = "pb + of_nat (4096 * i)"
  obtain ok1 m1 where mp: "map_page m root ?v ?p flags = (ok1, m1)" by fastforce
  note post = map_page_post [OF Cons.prems(3) mp]
  note step = map_region_from_step [OF b(2,3) i, of m root flags "is", unfolded mp]
  show ?case
  proof (cases ok1)
    case False
    then show ?thesis using step post by (auto simp: map_post_def)
  next
    case True
    then have g: "pt_grows root m m1" "card (free_frames (falloc m)) \<le> card (free_frames (falloc m1)) + 3"
      using post by (auto simp: map_post_def)
    obtain ok m' where IH: "map_region_from m1 root vb pb flags is = Inr (ok, m')"
      "ok \<longrightarrow> region_post root vb pb flags (set is) m1 m'" "pt_grows root m1 m'"
      "3 * length is \<le> card (free_frames (falloc m1)) \<longrightarrow> ok"
      using Cons.IH [OF idx'(1,2) pt_grows_wf [OF g(1)]] by blast
    have "\<not> same_page ?v (vb + of_nat (4096 * j))" if "j \<in> set is" for j
      using page_no_offset_inj [OF b(1,2,4) i, of j] that idx' by (auto simp del: of_nat_mult)
    then have "ok \<longrightarrow> region_post root vb pb flags (set (i # is)) m m'"
      using region_post_Cons [of root vb i pb flags m m1 "set is" m'] post True IH(2) by simp
    then show ?thesis using step True IH pt_grows_trans [OF g(1) IH(3)] g(2) by auto
  qed
qed

section \<open>New address spaces\<close>

lemma fold_copy_entries:
  assumes "page_aligned root" "page_aligned k" "root \<noteq> k" "n \<le> 512"
  shows "let m' = fold (\<lambda>i m. write_entry m root i (read_entry m k i)) [0..<n] m
    in falloc m' = falloc m \<and> kernel_cr3 m' = kernel_cr3 m
      \<and> (\<forall>x. frame_of x \<noteq> root \<longrightarrow> phys m' x = phys m x)
      \<and> (\<forall>i<n. read_entry m' root i = read_entry m k i)"
  using assms(4)
proof (induction n)
  case (Suc n)
  define c where "c = fold (\<lambda>i m. write_entry m root i (read_entry m k i)) [0..<n] m"
  from Suc have IH: "falloc c = falloc m" "kernel_cr3 c = kernel_cr3 m"
    "\<And>x. frame_of x \<noteq> root \<Longrightarrow> phys c x = phys m x" "\<And>i. i < n \<Longrightarrow> read_entry c root i = read_entry m k i"
    by (auto simp: Let_def c_def)
  have k: "read_entry c k n = read_entry m k n" unfolding read_entry_def
    by (rule read_u64_cong_frame) (use assms(2,3) Suc.prems IH(3) in auto)
  have "read_entry (write_entry c root n (read_entry c k n)) root i = read_entry m k i" if "i < Suc n" for i
    using read_write_entry [OF assms(1) assms(1), of n i c] Suc.prems that IH(4) k by (auto simp: less_Suc_eq)
  moreover have "phys (write_entry c root n (read_entry c k n)) x = phys m x" if "frame_of x \<noteq> root" for x
    using that IH(3) Suc.prems assms(1) by (simp add: write_entry_def write_u64_entry_other_frame)
  moreover have "falloc (write_entry c root n v) = falloc c" "kernel_cr3 (write_entry c root n v) = kernel_cr3 c" for v
    by (simp_all add: write_entry_def)
  ultimately show ?case using IH(1,2) by (simp add: c_def [symmetric] Let_def)
qed simp

lemma table_at_cong:
  assumes "page_aligned t" "\<And>q u. table_at m t q = Some u \<Longrightarrow> length q < length p \<Longrightarrow> \<forall>i\<in>set q. i < 512 \<Longrightarrow>
      \<forall>x. frame_of x = u \<longrightarrow> phys m' x = phys m x" "\<forall>i\<in>set p. i < 512"
  shows "table_at m' t p = table_at m t p"
  using assms
proof (induction p rule: rev_induct)
  case (snoc i p)
  have IH: "table_at m' t p = table_at m t p" by (rule snoc.IH) (use snoc.prems in \<open>auto simp: less_Suc_eq\<close>)
  show ?case
  proof (cases "table_at m t p")
    case (Some u)
    have "read_entry m' u i = read_entry m u i" unfolding read_entry_def
      using snoc.prems(2) [OF Some] snoc.prems(3) table_at_aligned [OF snoc.prems(1) Some]
      by (intro read_u64_cong_frame) auto
    then show ?thesis using IH Some by (simp add: table_at_snoc walk_step_eq)
  qed (simp add: table_at_snoc IH)
qed simp

text \<open>The tree under an entry shared with another top-level table.\<close>

lemma table_at_Cons_ne: "table_at m t (i # p) = (case table_at m t [i] of None \<Rightarrow> None | Some u \<Rightarrow> table_at m u p)"
  by (simp split: option.splits)

lemma walk_step_path: "walk_step m t i = table_at m t [i]"
  by (simp split: option.splits)

lemma new_page_table_entries:
  assumes inv: "fa_inv (falloc m)" and k: "page_aligned (kernel_cr3 m)" "kernel_cr3 m \<notin> free_frames (falloc m)"
    and run: "new_page_table m = (Some root, m')"
  shows "root \<in> free_frames (falloc m)" "page_aligned root" "fa_inv (falloc m')"
    "free_frames (falloc m') = free_frames (falloc m) - {root}" "kernel_cr3 m' = kernel_cr3 m"
    "\<And>x. frame_of x \<noteq> root \<Longrightarrow> phys m' x = phys m x"
    "\<And>i. i < 512 \<Longrightarrow> read_entry m' root i = (if kernel_cr3 m = 0 then 0 else read_entry m (kernel_cr3 m) i)"
proof -
  obtain fa' where al: "allocate_frame (falloc m) = (Some root, fa')"
    using run by (auto simp: new_page_table_def alloc_frame_def Let_def split: prod.splits option.splits)
  note a = allocate_frame_Some [OF inv al]
  have al': "page_aligned root" by (rule fa.alloc_aligned [OF inv al])
  let ?z = "zero_frame (m\<lparr>falloc := fa'\<rparr>) root"
  let ?c = "fold (\<lambda>i m. write_entry m root i (read_entry m (kernel_cr3 m) i)) [0..<512] ?z"
  have m': "m' = (if kernel_cr3 m \<noteq> 0 then ?c else ?z)"
    using run al by (auto simp: new_page_table_def alloc_frame_def zero_frame_def)
  have cr3: "fold (\<lambda>i m. write_entry m root i (read_entry m (kernel_cr3 m) i)) is s =
      fold (\<lambda>i m. write_entry m root i (read_entry m k i)) is s" if "kernel_cr3 s = k" for "is" s k
    using that by (induction "is" arbitrary: s) (simp_all add: write_entry_def)
  have ne: "root \<noteq> kernel_cr3 m" using a(1) k(2) by auto
  have z: "falloc ?z = fa'" "kernel_cr3 ?z = kernel_cr3 m" "\<And>x. frame_of x \<noteq> root \<Longrightarrow> phys ?z x = phys m x"
    using al' by (simp_all add: zero_frame_def fill_bytes_frame)
  have rz: "read_entry ?z t i = (if t = root then 0 else read_entry m t i)" if "page_aligned t" "i < 512" for t i
    using read_zero_frame [OF al' that] by (simp add: read_entry_def)
  note c = fold_copy_entries [OF al' k(1) ne order_refl, of ?z, folded cr3 [OF z(2)], unfolded Let_def z(1,2)]
  show "root \<in> free_frames (falloc m)" "page_aligned root" using a(1) al' by auto
  have "falloc m' = fa'" using c z(1) unfolding m' by (auto split: if_split)
  then show "fa_inv (falloc m')" "free_frames (falloc m') = free_frames (falloc m) - {root}" using a by auto
  show "kernel_cr3 m' = kernel_cr3 m" using c z(2) unfolding m' by (auto split: if_split)
  show "phys m' x = phys m x" if "frame_of x \<noteq> root" for x using c z(3) [OF that] that unfolding m' by (auto split: if_split)
  show "read_entry m' root i = (if kernel_cr3 m = 0 then 0 else read_entry m (kernel_cr3 m) i)" if "i < 512" for i
    using c rz [OF al' that] rz [OF k(1) that] ne that unfolding m' by (auto split: if_split)
qed

lemma table_at_new_root:
  assumes wf: "pt_wf m (kernel_cr3 m)" and k: "kernel_cr3 m \<noteq> 0" and run: "new_page_table m = (Some root, m')"
    and p: "path_ok p" "p \<noteq> []"
  shows "table_at m' root p = table_at m (kernel_cr3 m) p" "table_at m' (kernel_cr3 m) p = table_at m (kernel_cr3 m) p"
proof -
  let ?k = "kernel_cr3 m"
  have kf: "?k \<notin> free_frames (falloc m)" using pt_wfD(3) [OF wf, of "[]" ?k] by (simp add: path_ok_def)
  note e = new_page_table_entries [OF pt_wfD(1,2) [OF wf] kf run]
  obtain i q where pq: "p = i # q" using p(2) by (cases p) auto
  have i: "i < 512" "\<forall>j\<in>set q. j < 512" "length q < 3" using p(1) pq by (auto simp: path_ok_def)
  have notroot: "u \<noteq> root" if "table_at m ?k r = Some u" "path_ok r" for r u
    using pt_wfD(3) [OF wf that(2,1)] e(1) by blast
  have w: "walk_step m' root i = walk_step m ?k i" using e(7) [OF i(1)] k by (simp add: walk_step_eq)
  have below: "table_at m' u q = table_at m u q" if u: "walk_step m ?k i = Some u" for u
  proof (rule table_at_cong [OF walk_step_aligned [OF u] _ i(2)])
    fix r v
    assume r: "table_at m u r = Some v" "length r < length q" "\<forall>i\<in>set r. i < 512"
    have "table_at m ?k (i # r) = Some v" using r u by simp
    moreover have "path_ok (i # r)" using r i by (auto simp: path_ok_def)
    ultimately have "v \<noteq> root" by (rule notroot)
    then show "\<forall>x. frame_of x = v \<longrightarrow> phys m' x = phys m x" using e(6) by auto
  qed
  show "table_at m' root p = table_at m ?k p" using w below by (simp add: pq split: option.splits)
  have kr: "?k \<noteq> root" using notroot [of "[]" ?k] by (simp add: path_ok_def)
  have "read_entry m' ?k i = read_entry m ?k i" unfolding read_entry_def
    by (rule read_u64_cong_frame) (use e(6) kr pt_wfD(2) [OF wf] i in auto)
  then have "walk_step m' ?k i = walk_step m ?k i" by (rule walk_step_cong)
  then show "table_at m' ?k p = table_at m ?k p" using below by (simp add: pq split: option.splits)
qed

lemma new_page_table_wf:
  assumes wf: "pt_wf m (kernel_cr3 m)" and k: "kernel_cr3 m \<noteq> 0" and run: "new_page_table m = (Some root, m')"
  shows "pt_wf m' root"
proof -
  let ?k = "kernel_cr3 m"
  have kf: "?k \<notin> free_frames (falloc m)" using pt_wfD(3) [OF wf, of "[]" ?k] by (simp add: path_ok_def)
  note e = new_page_table_entries [OF pt_wfD(1,2) [OF wf] kf run]
  note ta = table_at_new_root(1) [OF wf k run]
  have tab: "p = [] \<and> t = root \<or> p \<noteq> [] \<and> t \<noteq> root \<and> table_at m ?k p = Some t"
    if "path_ok p" "table_at m' root p = Some t" for p t
  proof (cases "p = []")
    case False
    then have "table_at m ?k p = Some t" using ta that by simp
    moreover have "t \<noteq> root" using pt_wfD(3) [OF wf that(1) calculation] e(1) by blast
    ultimately show ?thesis using False by simp
  qed (use that in simp)
  have "t \<notin> free_frames (falloc m')" if "path_ok p" "table_at m' root p = Some t" for p t
    using tab [OF that] pt_wfD(3) [OF wf that(1)] e(4) by auto
  moreover have "p = q" if "path_ok p" "path_ok q" "table_at m' root p = Some t" "table_at m' root q = Some t" for p q t
    using tab [OF that(1,3)] tab [OF that(2,4)] pt_wfD(4) [OF wf that(1,2)] by auto
  ultimately show ?thesis using e(2,3) unfolding pt_wf_def by blast
qed

lemma leaf_new_root:
  assumes wf: "pt_wf m (kernel_cr3 m)" and k: "kernel_cr3 m \<noteq> 0" and run: "new_page_table m = (Some root, m')"
  shows "leaf m' root v = leaf m (kernel_cr3 m) v" "leaf m' (kernel_cr3 m) v = leaf m (kernel_cr3 m) v"
proof -
  let ?k = "kernel_cr3 m"
  have kf: "?k \<notin> free_frames (falloc m)" using pt_wfD(3) [OF wf, of "[]" ?k] by (simp add: path_ok_def)
  note e = new_page_table_entries [OF pt_wfD(1,2) [OF wf] kf run]
  have "virt_path v \<noteq> []" by (simp add: virt_path_def)
  note ta = table_at_new_root [OF wf k run path_ok_virt_path this]
  have "read_entry m' u (pt_index v) = read_entry m u (pt_index v)" if u: "table_at m ?k (virt_path v) = Some u" for u
    unfolding read_entry_def
    by (rule read_u64_cong_frame [OF table_at_aligned [OF pt_wfD(2) [OF wf] u] index_bound(4)])
      (use e(1,6) pt_wfD(3) [OF wf path_ok_virt_path u] in metis)
  with ta show "leaf m' root v = leaf m ?k v" "leaf m' ?k v = leaf m ?k v"
    by (cases "table_at m ?k (virt_path v)"; simp add: leaf_def)+
qed

lemma table_at_zero_root:
  assumes "page_aligned root" "\<And>i. i < 512 \<Longrightarrow> read_entry m root i = 0" "path_ok p"
  shows "table_at m root p = (if p = [] then Some root else None)"
  using assms by (cases p) (auto simp: path_ok_def walk_step_eq)

lemma pt_wf_zero_root:
  assumes "fa_inv (falloc m)" "page_aligned root" "root \<notin> free_frames (falloc m)"
    "\<And>i. i < 512 \<Longrightarrow> read_entry m root i = 0"
  shows "pt_wf m root" "translate m root v = None"
proof -
  have ta: "table_at m root p = (if p = [] then Some root else None)" if "path_ok p" for p
    by (rule table_at_zero_root [OF assms(2,4) that])
  show "pt_wf m root" using assms(1-3) ta unfolding pt_wf_def by (auto split: if_splits)
  have "table_at m root (virt_path v) = None" using ta [OF path_ok_virt_path [of v]] by (simp add: virt_path_def)
  then show "translate m root v = None" by (simp add: translate_leaf leaf_def)
qed

lemma new_page_table_keeps_tree:
  assumes wf: "pt_wf m r" and k: "page_aligned (kernel_cr3 m)" "kernel_cr3 m \<notin> free_frames (falloc m)"
    and run: "new_page_table m = (Some root, m')"
  shows "path_ok p \<Longrightarrow> table_at m' r p = table_at m r p" "pt_wf m' r" "root \<notin> tables m' r"
proof -
  note e = new_page_table_entries [OF pt_wfD(1) [OF wf] k run]
  have ta: "table_at m' r p = table_at m r p" if p: "path_ok p" for p
  proof (rule table_at_cong [OF pt_wfD(2) [OF wf]])
    fix q u
    assume q: "table_at m r q = Some u" "length q < length p" "\<forall>i\<in>set q. i < 512"
    then have "path_ok q" using p by (auto simp: path_ok_def)
    then have "u \<noteq> root" using pt_wfD(3) [OF wf _ q(1)] e(1) by blast
    then show "\<forall>x. frame_of x = u \<longrightarrow> phys m' x = phys m x" using e(6) by blast
  qed (use p in \<open>simp add: path_ok_def\<close>)
  show "path_ok p \<Longrightarrow> table_at m' r p = table_at m r p" by (rule ta)
  have tab: "tables m' r = tables m r" using ta by (auto simp: tables_def)
  show "pt_wf m' r" using wf ta e(3,4) unfolding pt_wf_def by (metis Diff_iff)
  show "root \<notin> tables m' r" unfolding tab using pt_wf_tables_not_free [OF wf] e(1) by blast
qed

text \<open>Two top-level tables with the same entry share everything below it.\<close>

lemma shared_entry_leaf:
  assumes "walk_step m r1 (pml4_index v) = walk_step m r2 (pml4_index v)"
  shows "leaf m r1 v = leaf m r2 v"
  using assms by (simp add: leaf_def virt_path_def)

lemma map_page_shared:
  assumes wf: "pt_wf m r1" and r2: "page_aligned r2" "r2 \<notin> tables m r1" "r2 \<notin> free_frames (falloc m)"
    and sh: "walk_step m r1 (pml4_index v) = Some u" "walk_step m r2 (pml4_index v) = Some u"
    and run: "map_page m r1 v paddr flags = (ok, m')"
  shows "translate m' r2 v = translate m' r1 v"
proof -
  have g: "pt_grows r1 m m'" using map_page_post [OF wf run] by (simp add: map_post_def)
  have "path_ok [pml4_index v]" by (simp add: path_ok_def index_bound)
  moreover have "table_at m r1 [pml4_index v] = Some u" using sh by simp
  ultimately have "table_at m' r1 [pml4_index v] = Some u" using g unfolding pt_grows_def by blast
  then have w1: "walk_step m' r1 (pml4_index v) = Some u" unfolding walk_step_path .
  have "read_entry m' r2 (pml4_index v) = read_entry m r2 (pml4_index v)" unfolding read_entry_def
    by (rule read_u64_cong_frame [OF r2(1) index_bound(1)]) (use g r2 in \<open>auto simp: pt_grows_def\<close>)
  with sh(2) have "walk_step m' r2 (pml4_index v) = Some u" using walk_step_cong by metis
  with w1 show ?thesis using shared_entry_leaf [of m' r1 v r2] by (simp add: translate_leaf)
qed

section \<open>Properties\<close>

text \<open>What the walk computes from a leaf entry: the mapped frame when all flags lie in the low twelve bits, and the frame with
  bit 63 set when \<open>PAGE_EXECUTE\<close> is among them.\<close>

lemma entry_frame_low:
  assumes "page_aligned paddr" "flags AND 0xFFF = flags"
  shows "frame_of (paddr OR flags OR PAGE_PRESENT) OR (w AND 0xFFF) = paddr + (w AND 0xFFF)"
proof -
  have "w = frame_of w + of_nat (unat w mod 4096)" "of_nat (unat w mod 4096) = w AND 0xFFF"
    using and_not_FFF_or [of w] by (simp_all add: frame_of_def unat_and_FFF [symmetric])
  then show ?thesis
    using entry_translation [OF assms page_aligned_frame_of, of "unat w mod 4096" w] by simp
qed

lemma entry_frame_execute:
  assumes "page_aligned paddr" "flags AND 0xFFF = flags"
  shows "frame_of (paddr OR (PAGE_EXECUTE OR flags) OR PAGE_PRESENT) OR (w AND 0xFFF) = PAGE_EXECUTE OR (paddr + (w AND 0xFFF))"
proof -
  have "frame_of (paddr OR (PAGE_EXECUTE OR flags) OR PAGE_PRESENT) = PAGE_EXECUTE OR frame_of (paddr OR flags OR PAGE_PRESENT)"
    unfolding frame_of_entry by (simp add: frame_of_def PAGE_EXECUTE_def bit.conj_disj_distrib2 or.left_commute)
  then show ?thesis using entry_frame_low [OF assms, of w] by (simp add: or.assoc)
qed

text \<open>C3: on a well-formed page table, \<open>map\<close> of any address with any flags either succeeds, and then every address of the
  mapped page translates to the frame part of the entry written (address, flags and present bit combined) with its
  page offset, while every other address translates as before; or fails, which needs fewer than three
  free frames, and then changes no translation. For a page-aligned address and flags within the low twelve bits
  the page translates to the address that was mapped. With \<open>PAGE_EXECUTE\<close> (bit 63), which the loader passes for
  executable sections, it translates to that address with bit 63 set. In all cases the table stays
  well-formed and no memory but its tables and free frames is written.\<close>

theorem map_page_translate:
  assumes "pt_wf m root" and "map_page m root virt paddr flags = (ok, m')"
  shows "pt_wf m' root \<and>
    (\<forall>w. translate m' root w =
       (if ok \<and> page_no w = page_no virt then Some (frame_of (paddr OR flags OR PAGE_PRESENT) OR (w AND 0xFFF))
        else translate m root w)) \<and>
    (ok \<and> page_aligned paddr \<and> flags AND 0xFFF = flags \<longrightarrow>
       (\<forall>w. page_no w = page_no virt \<longrightarrow> translate m' root w = Some (paddr + (w AND 0xFFF)))) \<and>
    (\<forall>f. ok \<and> page_aligned paddr \<and> f AND 0xFFF = f \<and> flags = PAGE_EXECUTE OR f \<longrightarrow>
       (\<forall>w. page_no w = page_no virt \<longrightarrow> translate m' root w = Some (PAGE_EXECUTE OR (paddr + (w AND 0xFFF))))) \<and>
    (ok \<or> card (free_frames (falloc m)) < 3) \<and>
    {x. phys m' x \<noteq> phys m x} \<subseteq> {x. frame_of x \<in> tables m root \<union> free_frames (falloc m)}"
proof -
  note post = map_page_post [OF assms, unfolded map_post_def]
  then have g: "pt_grows root m m'" by simp
  have t: "translate m' root w =
      (if ok \<and> page_no w = page_no virt then Some (frame_of (paddr OR flags OR PAGE_PRESENT) OR (w AND 0xFFF))
       else translate m root w)" for w
    using post entry_present [of paddr flags] by (auto simp: same_page_iff same_translation_def)
  moreover have "translate m' root w = Some (paddr + (w AND 0xFFF))"
    if "ok" "page_aligned paddr" "flags AND 0xFFF = flags" "page_no w = page_no virt" for w
    using t [of w] that(1,4) entry_frame_low [OF that(2,3), of w] by simp
  moreover have "translate m' root w = Some (PAGE_EXECUTE OR (paddr + (w AND 0xFFF)))"
    if "ok" "page_aligned paddr" "f AND 0xFFF = f" "flags = PAGE_EXECUTE OR f" "page_no w = page_no virt" for f w
    using t [of w] that(1,5) entry_frame_execute [OF that(2,3), of w] unfolding that(4) by simp
  moreover have "pt_wf m' root" using pt_grows_wf [OF g] .
  moreover have "{x. phys m' x \<noteq> phys m x} \<subseteq> {x. frame_of x \<in> tables m root \<union> free_frames (falloc m)}"
    using g unfolding pt_grows_def by blast
  ultimately show ?thesis using post by (intro conjI allI impI) auto
qed

text \<open>A machine with an empty table at 0x1000 and 63 free frames from 0x10000 on.\<close>

definition sample_machine :: machine where
  "sample_machine = \<lparr>phys = (\<lambda>_. 0),
     falloc = \<lparr>first_frame = 0x10000, frame_count = 64, bitmap_addr = 0x10000, bitmap = [1], bitmap_words = 1\<rparr>,
     kernel_cr3 = 0x1000\<rparr>"

lemma sample_fa_inv: "fa_inv (falloc sample_machine)"
  by (simp add: sample_machine_def fa_inv_def page_aligned_def)

lemma sample_read_entry: "i < 512 \<Longrightarrow> read_entry sample_machine t i = 0"
proof -
  have "read_bytes (\<lambda>_. 0) a 8 = replicate 8 0" for a by (simp add: read_bytes_def map_replicate_trivial)
  then have "read_u64 (\<lambda>_. 0) a = 0" for a by (simp add: read_u64_def from_le_def numeral_eq_Suc)
  then show ?thesis by (simp add: read_entry_def sample_machine_def)
qed

lemma sample_frees: "0x1000 \<notin> free_frames (falloc sample_machine)" "10 \<le> card (free_frames (falloc sample_machine))"
proof -
  let ?fa = "falloc sample_machine"
  have "unat g \<ge> 0x10000" if "g \<in> free_frames ?fa" for g
    using that unat_frame_addr [OF sample_fa_inv] by (auto simp: free_frames_def) (simp add: sample_machine_def)
  then show "0x1000 \<notin> free_frames ?fa" by fastforce
  have "frame_addr ?fa ` {1..10} \<subseteq> free_frames ?fa"
    by (auto simp: free_frames_def sample_machine_def used_def bit_1_iff)
  moreover have "inj_on (frame_addr ?fa) {1..10}"
    by (rule inj_onI) (use frame_addr_inject [OF sample_fa_inv] in \<open>auto simp: sample_machine_def\<close>)
  then have "card (frame_addr ?fa ` {1..10}) = 10" by (simp add: card_image)
  ultimately show "10 \<le> card (free_frames ?fa)" by (metis card_mono finite_free_frames)
qed

lemma sample_pt_wf: "pt_wf sample_machine 0x1000"
  by (rule pt_wf_zero_root) (use sample_fa_inv sample_frees sample_read_entry in \<open>auto simp: page_aligned_def\<close>)

text \<open>The same machine after one page has been mapped through the table at 0x1000.\<close>

definition sample_mapped :: machine where
  "sample_mapped = snd (map_page sample_machine 0x1000 0x400000 0x9000 7)"

lemma sample_mapped:
  "pt_wf sample_mapped 0x1000" "kernel_cr3 sample_mapped = 0x1000" "7 \<le> card (free_frames (falloc sample_mapped))"
  "\<exists>u. walk_step sample_mapped 0x1000 (pml4_index 0x400000) = Some u"
proof -
  let ?r = "map_page sample_machine 0x1000 0x400000 0x9000 7"
  have run: "map_page sample_machine 0x1000 0x400000 0x9000 7 = (fst ?r, sample_mapped)" by (simp add: sample_mapped_def)
  note post = map_page_post [OF sample_pt_wf run, unfolded map_post_def]
  have "pt_grows 0x1000 sample_machine sample_mapped" using post by blast
  then show "pt_wf sample_mapped 0x1000" "kernel_cr3 sample_mapped = 0x1000"
    by (simp_all add: pt_grows_def sample_machine_def)
  show "7 \<le> card (free_frames (falloc sample_mapped))" using post sample_frees(2) by linarith
  have "fst ?r" using post sample_frees(2) by linarith
  then have "translate sample_mapped 0x1000 0x400000 \<noteq> None"
    using post entry_present [of "0x9000" 7] by (simp add: same_page_iff)
  then show "\<exists>u. walk_step sample_mapped 0x1000 (pml4_index 0x400000) = Some u"
    by (auto simp: translate_leaf leaf_def virt_path_def split: option.splits)
qed

theorem map_page_translate_witness:
  "fst (map_page sample_machine 0x1000 0x400000 0x9000 7) \<and>
   translate (snd (map_page sample_machine 0x1000 0x400000 0x9000 7)) 0x1000 0x400123 = Some 0x9123"
proof -
  let ?r = "map_page sample_machine 0x1000 0x400000 0x9000 7"
  have run: "map_page sample_machine 0x1000 0x400000 0x9000 7 = (fst ?r, snd ?r)" by simp
  have h: "page_aligned 0x9000" "(7 :: u64) AND 0xFFF = 7" by (simp_all add: page_aligned_def)
  note t = map_page_translate [OF sample_pt_wf run]
  have ok: "fst ?r" using t sample_frees(2) by linarith
  have "page_no 0x400123 = page_no 0x400000" by (simp add: page_no_def)
  then have "translate (snd ?r) 0x1000 0x400123 = Some (0x9000 + (0x400123 AND 0xFFF))" using t ok h by blast
  with ok show ?thesis by simp
qed

text \<open>\<open>map_region\<close> of at most \<open>2\<^sup>3\<^sup>6\<close> pages that fit the address space does not panic. When it
  reports success the \<open>i\<close>-th page of the range translates, offset by offset, to the \<open>i\<close>-th frame and no
  other address is affected; three free frames per page are enough for success.\<close>

theorem map_region_translate:
  assumes "pt_wf m root" "page_aligned vb" "page_aligned pb" "flags AND 0xFFF = flags"
    and "unat vb + 4096 * n \<le> 2 ^ 64" "unat pb + 4096 * n \<le> 2 ^ 64" "n \<le> 2 ^ 36"
  shows "\<exists>ok m'. map_region m root vb pb n flags = Inr (ok, m') \<and> pt_wf m' root \<and>
    (3 * n \<le> card (free_frames (falloc m)) \<longrightarrow> ok) \<and>
    (ok \<longrightarrow> (\<forall>i<n. \<forall>k<4096. translate m' root (vb + of_nat (4096 * i + k)) = Some (pb + of_nat (4096 * i + k)))) \<and>
    (ok \<longrightarrow> (\<forall>w. (\<forall>i<n. page_no w \<noteq> page_no (vb + of_nat (4096 * i))) \<longrightarrow> translate m' root w = translate m root w))"
proof -
  obtain ok m' where r: "map_region m root vb pb n flags = Inr (ok, m')"
    "ok \<Longrightarrow> region_post root vb pb flags {0..<n} m m'" "pt_grows root m m'"
    "3 * n \<le> card (free_frames (falloc m)) \<longrightarrow> ok"
    using map_region_from_post [OF assms(2,5,6,7), of "[0..<n]", OF _ _ assms(1), of flags]
    by (simp add: map_region_def lessThan_atLeast0) blast
  have "translate m' root (vb + of_nat (4096 * i + k)) = Some (pb + of_nat (4096 * i + k))"
    if "ok" "i < n" "k < 4096" for i k
  proof -
    have al: "page_aligned (b + of_nat (4096 * i))" if "page_aligned b" "unat b + 4096 * n \<le> 2 ^ 64" for b
      using unat_page_offset [OF that(2) \<open>i < n\<close>, of 0] that(1) by (simp add: page_aligned_iff)
    have eq: "b + of_nat (4096 * i + k) = (b + of_nat (4096 * i)) + of_nat k" for b :: u64 by simp
    have "same_page (vb + of_nat (4096 * i)) (vb + of_nat (4096 * i + k))"
      using page_no_offset [OF assms(2,5) that(2,3)] page_no_offset [OF assms(2,5) that(2), of 0]
      by (simp only: same_page_iff add_0_right)
    then have "translate m' root (vb + of_nat (4096 * i + k)) =
        Some (frame_of ((pb + of_nat (4096 * i)) OR flags OR PAGE_PRESENT) OR ((vb + of_nat (4096 * i + k)) AND 0xFFF))"
      using r(2) [OF that(1)] that(2) unfolding region_post_def by (simp del: of_nat_mult of_nat_add)
    also have "\<dots> = Some (pb + of_nat (4096 * i + k))"
      unfolding eq using entry_translation [OF al [OF assms(3,6)] assms(4) al [OF assms(2,5)] that(3)] by simp
    finally show ?thesis .
  qed
  moreover have "translate m' root w = translate m root w"
    if "ok" "\<forall>i<n. page_no w \<noteq> page_no (vb + of_nat (4096 * i))" for w
    using r(2) [OF that(1)] that(2) unfolding region_post_def same_page_iff by (metis atLeastLessThan_iff)
  ultimately show ?thesis using r pt_grows_wf [OF r(3)] by blast
qed

theorem map_region_translate_witness:
  "\<exists>m'. map_region sample_machine 0x1000 0x400000 0x90000 1 7 = Inr (True, m') \<and>
     translate m' 0x1000 (0x400000 + of_nat (4096 * 0 + 0xABC)) = Some (0x90000 + of_nat (4096 * 0 + 0xABC))"
proof -
  have h: "page_aligned 0x400000" "page_aligned 0x90000" "(7 :: u64) AND 0xFFF = 7"
    "unat (0x400000 :: u64) + 4096 * 1 \<le> 2 ^ 64" "unat (0x90000 :: u64) + 4096 * 1 \<le> 2 ^ 64" "1 \<le> (2 :: nat) ^ 36"
    by (simp_all add: page_aligned_def)
  from map_region_translate [OF sample_pt_wf h] sample_frees(2)
  obtain m' where "map_region sample_machine 0x1000 0x400000 0x90000 1 7 = Inr (True, m')"
    "\<forall>i<1. \<forall>k<4096. translate m' 0x1000 (0x400000 + of_nat (4096 * i + k)) = Some (0x90000 + of_nat (4096 * i + k))"
    by auto
  then have "translate m' 0x1000 (0x400000 + of_nat (4096 * 0 + 0xABC)) = Some (0x90000 + of_nat (4096 * 0 + 0xABC))"
    by (simp only: less_one all_simps simp_thms)
  then show ?thesis using \<open>map_region _ _ _ _ _ _ = _\<close> by blast
qed

text \<open>C11: a new address space translates every address exactly as the captured kernel table does, is
  well-formed, uses a frame that was free before, and leaves the kernel's own translations unchanged.\<close>

theorem new_page_table_keeps_kernel:
  assumes "pt_wf m (kernel_cr3 m)" "kernel_cr3 m \<noteq> 0" "new_page_table m = (Some root, m')"
  shows "pt_wf m' root \<and> root \<in> free_frames (falloc m) \<and> root \<notin> free_frames (falloc m') \<and>
    (\<forall>v. translate m' root v = translate m (kernel_cr3 m) v \<and>
         translate m' (kernel_cr3 m') v = translate m (kernel_cr3 m) v)"
proof -
  have kf: "kernel_cr3 m \<notin> free_frames (falloc m)" using pt_wfD(3) [OF assms(1), of "[]" "kernel_cr3 m"] by (simp add: path_ok_def)
  note e = new_page_table_entries [OF pt_wfD(1,2) [OF assms(1)] kf assms(3)]
  show ?thesis using e(1,4,5) new_page_table_wf [OF assms] leaf_new_root [OF assms] by (simp add: translate_leaf)
qed

lemma new_page_table_succeeds:
  assumes "fa_inv (falloc m)" "0 < card (free_frames (falloc m))"
  shows "\<exists>root m'. new_page_table m = (Some root, m')"
proof -
  obtain o1 fa' where al: "allocate_frame (falloc m) = (o1, fa')" by fastforce
  have "o1 \<noteq> None" using allocate_frame_None(1) [OF assms(1)] al assms(2) by force
  then show ?thesis using al by (auto simp: new_page_table_def alloc_frame_def Let_def)
qed

theorem new_page_table_keeps_kernel_witness:
  "\<exists>root m'. new_page_table sample_machine = (Some root, m') \<and> root \<in> free_frames (falloc sample_machine) \<and>
     translate m' root 0x1234 = translate sample_machine 0x1000 0x1234"
proof -
  obtain root m' where run: "new_page_table sample_machine = (Some root, m')"
    using new_page_table_succeeds [OF sample_fa_inv] sample_frees(2) by fastforce
  have k: "kernel_cr3 sample_machine = 0x1000" by (simp add: sample_machine_def)
  have "pt_wf sample_machine (kernel_cr3 sample_machine)" "kernel_cr3 sample_machine \<noteq> 0"
    using sample_pt_wf by (simp_all add: k)
  from new_page_table_keeps_kernel [OF this run] run show ?thesis unfolding k by blast
qed

text \<open>C40: address spaces are not isolated. When the kernel's top-level entry for an address is present, two
  address spaces created one after the other share the tables below it: a page mapped in the first one
  at that address is then mapped to the same frame in the second.\<close>

theorem new_page_tables_share_mappings:
  assumes "pt_wf m (kernel_cr3 m)" "kernel_cr3 m \<noteq> 0" "walk_step m (kernel_cr3 m) (pml4_index virt) = Some u"
    and "new_page_table m = (Some r1, m1)" "new_page_table m1 = (Some r2, m2)"
    and "map_page m2 r1 virt paddr flags = (True, m3)"
  shows "translate m3 r2 virt = Some (frame_of (paddr OR flags OR PAGE_PRESENT) OR (virt AND 0xFFF))"
proof -
  let ?k = "kernel_cr3 m" and ?i = "pml4_index virt"
  have i: "path_ok [?i]" and nil: "path_ok []" by (simp_all add: path_ok_def index_bound)
  have k: "page_aligned ?k" "?k \<notin> free_frames (falloc m)"
    using pt_wfD(2) [OF assms(1)] pt_wfD(3) [OF assms(1) nil] by simp_all
  note e1 = new_page_table_entries [OF pt_wfD(1) [OF assms(1)] k assms(4)]
  note wf1 = new_page_table_wf [OF assms(1,2,4)]
  note kt1 = new_page_table_keeps_tree [OF assms(1) k assms(4)]
  have k1: "pt_wf m1 (kernel_cr3 m1)" "kernel_cr3 m1 \<noteq> 0" "page_aligned (kernel_cr3 m1)"
    "kernel_cr3 m1 \<notin> free_frames (falloc m1)" using kt1(2) e1(4,5) assms(2) k by auto
  note e2 = new_page_table_entries [OF pt_wfD(1) [OF wf1] k1(3,4) assms(5)]
  note kt2 = new_page_table_keeps_tree [OF wf1 k1(3,4) assms(5)]
  have w: "table_at m2 r1 [?i] = Some u" "table_at m2 r2 [?i] = Some u"
    using kt2(1) [OF i] table_at_new_root(1) [OF assms(1,2,4) i] table_at_new_root(1) [OF k1(1,2) assms(5) i]
      kt1(1) [OF i] assms(3) e1(5) by (simp_all del: table_at.simps(2) add: walk_step_path)
  have "translate m3 r2 virt = translate m3 r1 virt"
    using map_page_shared [OF kt2(2) e2(2) kt2(3) _ _ _ assms(6), of u] w e2(4) by (simp add: walk_step_path del: table_at.simps(2))
  also have "\<dots> = Some (frame_of (paddr OR flags OR PAGE_PRESENT) OR (virt AND 0xFFF))"
    using map_page_post [OF kt2(2) assms(6)] entry_present [of paddr flags] by (simp add: map_post_def same_page_iff)
  finally show ?thesis .
qed

theorem new_page_tables_share_mappings_witness:
  "\<exists>r1 m1 r2 m2 m3. new_page_table sample_mapped = (Some r1, m1) \<and> new_page_table m1 = (Some r2, m2) \<and>
     map_page m2 r1 0x400000 0x77000 7 = (True, m3) \<and> translate m3 r2 0x400000 = Some 0x77000"
proof -
  let ?m = sample_mapped
  have k: "pt_wf ?m (kernel_cr3 ?m)" "kernel_cr3 ?m \<noteq> 0" using sample_mapped by simp_all
  obtain u where u: "walk_step ?m (kernel_cr3 ?m) (pml4_index 0x400000) = Some u" using sample_mapped by auto
  obtain r1 m1 where n1: "new_page_table ?m = (Some r1, m1)"
    using new_page_table_succeeds [OF pt_wfD(1) [OF k(1)]] sample_mapped(3) by fastforce
  have kf: "page_aligned (kernel_cr3 ?m)" "kernel_cr3 ?m \<notin> free_frames (falloc ?m)"
    using pt_wfD(2) [OF k(1)] pt_wfD(3) [OF k(1), of "[]"] by (simp_all add: path_ok_def)
  note e1 = new_page_table_entries [OF pt_wfD(1) [OF k(1)] kf n1]
  have c1: "6 \<le> card (free_frames (falloc m1))" using e1(1,4) sample_mapped(3) by simp
  obtain r2 m2 where n2: "new_page_table m1 = (Some r2, m2)" using new_page_table_succeeds [OF e1(3)] c1 by fastforce
  note wf1 = new_page_table_wf [OF k n1]
  have kf1: "page_aligned (kernel_cr3 m1)" "kernel_cr3 m1 \<notin> free_frames (falloc m1)" using kf e1(4,5) by auto
  note e2 = new_page_table_entries [OF e1(3) kf1 n2]
  have c2: "5 \<le> card (free_frames (falloc m2))" using e2(1,4) c1 by simp
  obtain ok m3 where mp: "map_page m2 r1 0x400000 0x77000 7 = (ok, m3)" by fastforce
  have "pt_wf m2 r1" by (rule new_page_table_keeps_tree(2) [OF wf1 kf1 n2])
  from map_page_post [OF this mp] c2 have ok: "ok" by (auto simp: map_post_def)
  with mp have mp': "map_page m2 r1 0x400000 0x77000 7 = (True, m3)" by simp
  have "translate m3 r2 0x400000 = Some 0x77000"
    using new_page_tables_share_mappings [OF k u n1 n2 mp']
    by (simp add: frame_of_def PAGE_PRESENT_def)
  with n1 n2 mp' show ?thesis by blast
qed

text \<open>A page mapped with \<open>PAGE_EXECUTE\<close> (bit 63) translates to its frame with bit 63 set: \<open>translate\<close> clears
  only the low twelve bits of the entry, so the result is not the physical address that was mapped.\<close>

theorem map_page_execute_translate:
  assumes "pt_wf m root" "page_aligned paddr" "unat paddr < 2 ^ 63" "flags AND 0xFFF = flags"
    and "map_page m root virt paddr (PAGE_EXECUTE OR flags) = (True, m')"
  shows "translate m' root virt = Some (PAGE_EXECUTE OR (paddr + (virt AND 0xFFF))) \<and>
    translate m' root virt \<noteq> Some (paddr + (virt AND 0xFFF))"
proof -
  let ?off = "virt AND 0xFFF"
  have t: "translate m' root virt = Some (PAGE_EXECUTE OR (paddr + ?off))"
    using map_page_post [OF assms(1,5)] entry_present [of paddr "PAGE_EXECUTE OR flags"] entry_frame_execute [OF assms(2,4), of virt]
    by (simp add: map_post_def same_page_iff or.assoc)
  have "unat (paddr + ?off) < 2 ^ 63"
  proof -
    obtain q where q: "unat paddr = 4096 * q" using assms(2) by (auto simp: page_aligned_iff mod_eq_0_iff_dvd elim: dvdE)
    then have "q < 2 ^ 51" using assms(3) by simp
    moreover have "unat ?off < 4096" by (simp add: unat_and_FFF)
    ultimately show ?thesis using q by (simp add: unat_word_ariths)
  qed
  then have "\<not> bit (paddr + ?off) 63" using not_bit_below by blast
  moreover have "bit (PAGE_EXECUTE OR (paddr + ?off)) 63" by (simp add: PAGE_EXECUTE_def bit_or_iff)
  ultimately have "PAGE_EXECUTE OR (paddr + ?off) \<noteq> paddr + ?off" by metis
  with t show ?thesis by simp
qed

theorem map_page_execute_translate_witness:
  "translate (snd (map_page sample_machine 0x1000 0x400000 0x9000 (PAGE_EXECUTE OR 4))) 0x1000 0x400000
     = Some 0x8000000000009000"
proof -
  let ?r = "map_page sample_machine 0x1000 0x400000 0x9000 (PAGE_EXECUTE OR 4)"
  have run: "?r = (fst ?r, snd ?r)" by simp
  have "fst ?r" using map_page_post [OF sample_pt_wf run] sample_frees(2) by (auto simp: map_post_def)
  with run have "?r = (True, snd ?r)" by simp
  from map_page_execute_translate [OF sample_pt_wf _ _ _ this] show ?thesis
    by (simp add: page_aligned_def PAGE_EXECUTE_def)
qed

end
