(* ===== verification/Utf8.thy ===== *)
theory Utf8
  imports Prelude
begin

text \<open>
  Strings are the byte sequences of their UTF-8 encoding. \<open>utf8_valid\<close> is the check of
  \<^verbatim>\<open>core::str::from_utf8\<close>; \<open>from_utf8_or_empty\<close> is the kernel's idiom
  \<^verbatim>\<open>from_utf8(..).unwrap_or("")\<close>.
\<close>

definition cont_byte :: "u8 \<Rightarrow> bool" where
  "cont_byte b \<longleftrightarrow> 0x80 \<le> b \<and> b \<le> 0xBF"

definition second_ok :: "u8 \<Rightarrow> u8 \<Rightarrow> bool" where
  "second_ok b c \<longleftrightarrow>
     (if b = 0xE0 then 0xA0 \<le> c \<and> c \<le> 0xBF
      else if b = 0xED then 0x80 \<le> c \<and> c \<le> 0x9F
      else if b = 0xF0 then 0x90 \<le> c \<and> c \<le> 0xBF
      else if b = 0xF4 then 0x80 \<le> c \<and> c \<le> 0x8F
      else cont_byte c)"

fun utf8_valid :: "bytes \<Rightarrow> bool" where
  "utf8_valid [] = True"
| "utf8_valid (b # bs) =
     (if b < 0x80 then utf8_valid bs
      else if 0xC2 \<le> b \<and> b \<le> 0xDF then (case bs of c # cs \<Rightarrow> cont_byte c \<and> utf8_valid cs | _ \<Rightarrow> False)
      else if 0xE0 \<le> b \<and> b \<le> 0xEF then
        (case bs of c # d # cs \<Rightarrow> second_ok b c \<and> cont_byte d \<and> utf8_valid cs | _ \<Rightarrow> False)
      else if 0xF0 \<le> b \<and> b \<le> 0xF4 then
        (case bs of c # d # e # cs \<Rightarrow> second_ok b c \<and> cont_byte d \<and> cont_byte e \<and> utf8_valid cs | _ \<Rightarrow> False)
      else False)"

definition from_utf8_or_empty :: "bytes \<Rightarrow> bytes" where
  "from_utf8_or_empty s = (if utf8_valid s then s else [])"

lemma from_utf8_or_empty_valid [simp]: "utf8_valid s \<Longrightarrow> from_utf8_or_empty s = s"
  by (simp add: from_utf8_or_empty_def)

lemma utf8_steps:
  "x < 0x80 \<Longrightarrow> utf8_valid (x # cs) = utf8_valid cs"
  "\<not> x < 0x80 \<Longrightarrow> 0xC2 \<le> x \<and> x \<le> 0xDF \<Longrightarrow> utf8_valid (x # c # cs) = (cont_byte c \<and> utf8_valid cs)"
  "\<not> x < 0x80 \<Longrightarrow> \<not> (0xC2 \<le> x \<and> x \<le> 0xDF) \<Longrightarrow> 0xE0 \<le> x \<and> x \<le> 0xEF \<Longrightarrow>
     utf8_valid (x # c # d # cs) = (second_ok x c \<and> cont_byte d \<and> utf8_valid cs)"
  "\<not> x < 0x80 \<Longrightarrow> \<not> (0xC2 \<le> x \<and> x \<le> 0xDF) \<Longrightarrow> \<not> (0xE0 \<le> x \<and> x \<le> 0xEF) \<Longrightarrow> 0xF0 \<le> x \<and> x \<le> 0xF4 \<Longrightarrow>
     utf8_valid (x # c # d # e # cs) = (second_ok x c \<and> cont_byte d \<and> cont_byte e \<and> utf8_valid cs)"
  by (simp_all only: utf8_valid.simps list.case if_True if_False simp_thms)

lemma utf8_append: "utf8_valid a \<Longrightarrow> utf8_valid (a @ b) = utf8_valid b"
proof (induction a rule: utf8_valid.induct)
  case (2 x bs)
  consider "x < 0x80" | "\<not> x < 0x80" "0xC2 \<le> x \<and> x \<le> 0xDF"
    | "\<not> x < 0x80" "\<not> (0xC2 \<le> x \<and> x \<le> 0xDF)" "0xE0 \<le> x \<and> x \<le> 0xEF"
    | "\<not> x < 0x80" "\<not> (0xC2 \<le> x \<and> x \<le> 0xDF)" "\<not> (0xE0 \<le> x \<and> x \<le> 0xEF)" "0xF0 \<le> x \<and> x \<le> 0xF4"
    using "2.prems" by (auto split: if_splits)
  then show ?case
  proof cases
    case c1: 1
    then have "utf8_valid bs" using "2.prems" utf8_steps(1) by blast
    then show ?thesis using "2.IH"(1) [OF c1] utf8_steps(1) [OF c1] by simp
  next
    case c2: 2
    with "2.prems" obtain c cs where bs: "bs = c # cs" by (cases bs) auto
    then have "cont_byte c" "utf8_valid cs" using "2.prems" utf8_steps(2) [OF c2] by blast+
    then show ?thesis using "2.IH"(2) [OF c2 bs] utf8_steps(2) [OF c2] bs by simp
  next
    case c3: 3
    with "2.prems" obtain c d cs where bs: "bs = c # d # cs" by (simp split: list.splits)
    then have "second_ok x c" "cont_byte d" "utf8_valid cs" using "2.prems" utf8_steps(3) [OF c3] by blast+
    then show ?thesis using "2.IH"(3) [OF c3 bs refl] utf8_steps(3) [OF c3] bs by simp
  next
    case c4: 4
    with "2.prems" obtain c d e cs where bs: "bs = c # d # e # cs" by (simp split: list.splits)
    then have "second_ok x c" "cont_byte d" "cont_byte e" "utf8_valid cs" using "2.prems" utf8_steps(4) [OF c4] by blast+
    then show ?thesis using "2.IH"(4) [OF c4 bs refl refl] utf8_steps(4) [OF c4] bs by simp
  qed
qed simp

lemma utf8_head_not_cont: "utf8_valid (b # bs) \<Longrightarrow> \<not> cont_byte b"
  by (auto simp: cont_byte_def word_le_nat_alt word_less_nat_alt split: if_splits)

lemma utf8_colon_second:
  assumes "utf8_valid (a # 0x3A # bs)"
  shows "utf8_valid bs" "a < 0x80"
proof -
  show a: "a < 0x80"
  proof (rule ccontr)
    assume n: "\<not> a < 0x80"
    have "\<not> second_ok a 0x3A" "\<not> cont_byte 0x3A" by (simp_all add: second_ok_def cont_byte_def)
    with assms n show False by (simp split: list.splits if_splits)
  qed
  show "utf8_valid bs" using assms utf8_steps(1) [OF a] utf8_steps(1) [of "0x3A"] by simp
qed

end
