(* ===== verification/Registry.thy ===== *)
theory Registry
  imports Bump_Heap Utf8
begin

text \<open>
  The in-memory registry (\<^verbatim>\<open>kernel/src/win32/registry.rs\<close>) and the Win32 path shim
  (\<^verbatim>\<open>kernel/src/win32/fs.rs\<close>). A key that is stored is a copy
  leaked from the early heap: the model keeps the contents in the table and also
  performs the copy in memory.
\<close>

section \<open>Operations\<close>

datatype RegValueType = Dword | Qword | String | Binary

record RegValue =
  ty :: RegValueType
  val_data :: bytes
  val_len :: nat

type_synonym registry = "(bytes \<times> RegValue) option list"

definition MAX_KEYS :: nat where "MAX_KEYS = 256"

definition initial_registry :: registry where
  "initial_registry = replicate MAX_KEYS None"

definition BACKSLASH :: u8 where "BACKSLASH = 0x5C"

text \<open>The three copy loops into the 256-byte buffer.\<close>

fun copy_into :: "bytes \<Rightarrow> bytes \<Rightarrow> bytes" where
  "copy_into buf [] = buf"
| "copy_into buf (b # bs) = (if length buf \<ge> 256 then buf else copy_into (buf @ [b]) bs)"

definition format_path :: "bytes \<Rightarrow> bytes \<Rightarrow> bytes" where
  "format_path key value =
     (let buf1 = copy_into [] key;
          buf2 = (if length buf1 < 256 then buf1 @ [BACKSLASH] else buf1);
          buf3 = copy_into buf2 value
      in if utf8_valid buf3 then buf3 else [])"

text \<open>The registry with what it uses: physical memory and the early heap.\<close>

record reg_state =
  reg :: registry
  reg_mem :: mem
  reg_heap :: bump_allocator

definition leak_str :: "bytes \<Rightarrow> reg_state \<Rightarrow> (bytes \<times> reg_state) res" where
  "leak_str s st =
     bind_res (alloc_early (of_nat (length s)) 1 (reg_heap st)) (\<lambda>(r, h).
       case r of
         None \<Rightarrow> Inl Expect_Failed
       | Some copy \<Rightarrow>
           let m = write_bytes (reg_mem st) copy s
           in Inr (read_bytes m copy (length s), st\<lparr>reg_mem := m, reg_heap := h\<rparr>))"

definition reg_entry :: "RegValueType \<Rightarrow> bytes \<Rightarrow> RegValue" where
  "reg_entry t data =
     (let len = min (length data) 256
      in \<lparr>ty = t, val_data = take len data @ replicate (256 - len) 0, val_len = len\<rparr>)"

definition set_value :: "bytes \<Rightarrow> bytes \<Rightarrow> RegValueType \<Rightarrow> bytes \<Rightarrow> reg_state \<Rightarrow> (bool \<times> reg_state) res" where
  "set_value key value t data st =
     bind_res (leak_str (format_path key value) st) (\<lambda>(leaked, st1).
       let entry = reg_entry t data in
       case position (\<lambda>s. case s of Some (k, _) \<Rightarrow> k = leaked | None \<Rightarrow> False) (reg st1) of
         Some i \<Rightarrow> Inr (True, st1\<lparr>reg := (reg st1)[i := Some (leaked, entry)]\<rparr>)
       | None \<Rightarrow>
           (case position (\<lambda>s. s = None) (reg st1) of
              Some i \<Rightarrow> Inr (True, st1\<lparr>reg := (reg st1)[i := Some (leaked, entry)]\<rparr>)
            | None \<Rightarrow> Inr (False, st1)))"

fun find_value :: "bytes \<Rightarrow> registry \<Rightarrow> RegValue option" where
  "find_value path [] = None"
| "find_value path (s # rs) =
     (case s of
        Some (k, v) \<Rightarrow> if k = path then Some v else find_value path rs
      | None \<Rightarrow> find_value path rs)"

definition get_value :: "bytes \<Rightarrow> bytes \<Rightarrow> reg_state \<Rightarrow> RegValue option" where
  "get_value key value st = find_value (format_path key value) (reg st)"

text \<open>\<^verbatim>\<open>fs.rs\<close>: strip a drive prefix. \<open>is_char_boundary\<close> is what slicing a \<^verbatim>\<open>str\<close> at 2 checks.\<close>

definition MAX_PATH :: nat where "MAX_PATH = 260"

definition is_char_boundary :: "bytes \<Rightarrow> nat \<Rightarrow> bool" where
  "is_char_boundary s i \<longleftrightarrow> i = length s \<or> i = 0 \<or> (i < length s \<and> \<not> cont_byte (s ! i))"

definition normalize :: "bytes \<Rightarrow> bytes option res" where
  "normalize path =
     (if length path > MAX_PATH then Inr None
      else if length path \<ge> 2 \<and> path ! 1 = 0x3A
      then if is_char_boundary path 2 then Inr (Some (drop 2 path)) else Inl Out_Of_Bounds
      else Inr (Some path))"

section \<open>Formatting paths\<close>

lemma copy_into_eq: "length buf \<le> 256 \<Longrightarrow> copy_into buf bs = take 256 (buf @ bs)"
  by (induction buf bs rule: copy_into.induct) auto

lemma format_path_eq:
  "format_path key value = (let p = take 256 (key @ BACKSLASH # value) in if utf8_valid p then p else [])"
proof -
  let ?b1 = "take 256 key"
  have "copy_into (if length ?b1 < 256 then ?b1 @ [BACKSLASH] else ?b1) value = take 256 (key @ BACKSLASH # value)"
    by (cases "length key < 256") (auto simp: copy_into_eq)
  then show ?thesis by (simp add: format_path_def copy_into_eq Let_def)
qed

lemma format_path_short:
  assumes "utf8_valid key" "utf8_valid value" "length key + length value < 256"
  shows "format_path key value = key @ BACKSLASH # value"
proof -
  have "utf8_valid (BACKSLASH # value)" using assms(2) by (simp add: BACKSLASH_def)
  then show ?thesis using assms by (simp add: format_path_eq utf8_append Let_def)
qed

section \<open>The table as a map\<close>

lemma find_value_None: "find_value p r = None \<longleftrightarrow> (\<forall>v. Some (p, v) \<notin> set r)"
  by (induction r) (auto split: option.splits)

lemma find_value_nth: "find_value p r = Some v \<Longrightarrow> \<exists>i<length r. r ! i = Some (p, v)"
proof (induction r)
  case (Cons s r)
  show ?case
  proof (cases "\<exists>w. s = Some (p, w)")
    case True
    with Cons.prems show ?thesis by auto
  next
    case False
    then have "find_value p r = Some v" using Cons.prems by (cases s) auto
    with Cons.IH show ?thesis by auto
  qed
qed simp

lemma find_value_append:
  "find_value p (a @ b) = (case find_value p a of Some v \<Rightarrow> Some v | None \<Rightarrow> find_value p b)"
  by (induction a) (auto split: option.splits)

lemma find_value_update:
  assumes "i < length r" "\<And>j w. j < i \<Longrightarrow> r ! j \<noteq> Some (k, w)" "\<And>q w. q \<noteq> k \<Longrightarrow> r ! i \<noteq> Some (q, w)"
  shows "find_value p (r[i := Some (k, e)]) = (if p = k then Some e else find_value p r)"
proof -
  have u: "r[i := Some (k, e)] = take i r @ Some (k, e) # drop (Suc i) r" "r = take i r @ r ! i # drop (Suc i) r"
    using assms(1) by (simp_all add: upd_conv_take_nth_drop id_take_nth_drop)
  have "find_value k (take i r) = None" unfolding find_value_None
    using assms(1,2) by (auto simp: in_set_conv_nth)
  then have *: "find_value p (r[i := Some (k, e)]) = (if p = k then Some e else
      (case find_value p (take i r) of Some v \<Rightarrow> Some v | None \<Rightarrow> find_value p (drop (Suc i) r)))"
    unfolding u(1) find_value_append by (auto split: option.splits)
  have "find_value p (r ! i # drop (Suc i) r) = find_value p (drop (Suc i) r)" if "p \<noteq> k"
    using assms(3) [OF that] by (cases "r ! i"; simp) fastforce
  then have "find_value p r = (case find_value p (take i r) of Some v \<Rightarrow> Some v | None \<Rightarrow> find_value p (drop (Suc i) r))" if "p \<noteq> k"
    using that by (subst u(2), subst find_value_append) (simp split: option.splits)
  with * show ?thesis by simp
qed

lemma leak_str_Inr:
  assumes "leak_str s st = Inr (k, st')" "length s \<le> 256"
  shows "k = s" "reg st' = reg st"
  using assms read_write_bytes_same [of s]
  by (auto simp: leak_str_def bind_res_Inr_iff Let_def split: option.splits)

lemma format_path_length: "length (format_path key value) \<le> 256"
  by (auto simp: format_path_eq Let_def)

lemma set_value_cases:
  assumes "set_value key value t data st = Inr (ok, st')"
  shows "(ok \<and> (\<exists>i<length (reg st). reg st' = (reg st)[i := Some (format_path key value, reg_entry t data)] \<and>
        (\<forall>j w. j < i \<longrightarrow> reg st ! j \<noteq> Some (format_path key value, w)) \<and>
        (\<forall>q w. q \<noteq> format_path key value \<longrightarrow> reg st ! i \<noteq> Some (q, w)))) \<or>
    (\<not> ok \<and> reg st' = reg st \<and> None \<notin> set (reg st) \<and> get_value key value st = None)"
proof -
  let ?p = "format_path key value"
  let ?hit = "\<lambda>s. case s of Some (k, _) \<Rightarrow> k = ?p | None \<Rightarrow> False"
  obtain st1 where l: "leak_str ?p st = Inr (?p, st1)" "reg st1 = reg st"
    using assms leak_str_Inr [OF _ format_path_length] by (fastforce simp: set_value_def bind_res_Inr_iff)
  show ?thesis
  proof (cases "position ?hit (reg st)")
    case (Some i)
    note d = position_SomeD [OF Some]
    have "ok" "reg st' = (reg st)[i := Some (?p, reg_entry t data)]"
      using assms l Some by (auto simp: set_value_def Let_def)
    moreover have "reg st ! j \<noteq> Some (?p, w)" if "j < i" for j w using d(3) [OF that] by auto
    ultimately show ?thesis using d(1,2) by (intro disjI1 conjI exI [of _ i]) (auto split: option.splits)
  next
    case no_hit: None
    then have nh: "Some (?p, w) \<notin> set (reg st)" for w by (auto simp: position_None_iff)
    show ?thesis
    proof (cases "position (\<lambda>s. s = None) (reg st)")
      case (Some i)
      note d = position_SomeD [OF Some]
      have "ok" "reg st' = (reg st)[i := Some (?p, reg_entry t data)]"
        using assms l Some no_hit by (auto simp: set_value_def Let_def)
      then show ?thesis using d(1,2) nh by (intro disjI1 conjI exI [of _ i]) (auto, metis nth_mem less_trans)
    next
      case None
      then have "\<not> ok" "reg st' = reg st" using assms l no_hit by (auto simp: set_value_def Let_def)
      moreover have "None \<notin> set (reg st)" using None by (auto simp: position_None_iff)
      ultimately show ?thesis using nh by (simp add: get_value_def find_value_None)
    qed
  qed
qed

section \<open>Properties\<close>

text \<open>C31: the registry refines a map from formatted paths to values: a successful \<open>set_value\<close> updates exactly
  the value of its path (data cut to 256 bytes and zero padded), and it reports failure only when the
  path is absent and all 256 slots are taken, leaving every value as it was.\<close>

theorem set_value_refines_map:
  assumes "set_value key value t data st = Inr (ok, st')"
  shows "length (reg st') = length (reg st) \<and>
    (\<lambda>p. find_value p (reg st')) =
      (if ok then (\<lambda>p. find_value p (reg st))(format_path key value \<mapsto> reg_entry t data)
       else (\<lambda>p. find_value p (reg st))) \<and>
    (ok \<or> (None \<notin> set (reg st) \<and> get_value key value st = None))"
  using set_value_cases [OF assms] find_value_update [of _ "reg st" "format_path key value" _ "reg_entry t data"]
  by (auto simp: fun_eq_iff)

definition sample_registry :: reg_state where
  "sample_registry = \<lparr>reg = [None, None], reg_mem = (\<lambda>_. 0),
     reg_heap = \<lparr>bump_base = 0x1000, bump_next = 0x1000, bump_limit = 0x2000\<rparr>\<rparr>"

lemma sample_set_value:
  "\<exists>st'. set_value [0x61] [0x62] Dword [1, 2] sample_registry = Inr (True, st')"
  by (simp add: set_value_def leak_str_def format_path_def BACKSLASH_def alloc_early_def bump_allocate_def
      sample_registry_def chk_defs checked_add_def Let_def)

theorem set_value_refines_map_witness:
  "\<exists>st'. set_value [0x61] [0x62] Dword [1, 2] sample_registry = Inr (True, st') \<and>
     get_value [0x61] [0x62] st' = Some (reg_entry Dword [1, 2])"
proof -
  obtain st' where s: "set_value [0x61] [0x62] Dword [1, 2] sample_registry = Inr (True, st')"
    using sample_set_value by blast
  from set_value_refines_map [OF s] have "find_value p (reg st') =
      ((\<lambda>p. find_value p (reg sample_registry))(format_path [0x61] [0x62] \<mapsto> reg_entry Dword [1, 2])) p" for p
    by (simp add: fun_eq_iff)
  then show ?thesis using s by (auto simp: get_value_def)
qed

text \<open>Short paths collide exactly when their concatenations with a backslash agree, so the split into key
  and value name is not recorded: a value \<open>b\c\<close> of key \<open>a\<close> and a value \<open>c\<close> of key \<open>a\b\<close> are one entry.\<close>

theorem format_path_collision:
  assumes "utf8_valid a" "utf8_valid b" "utf8_valid c" "length a + length b + length c < 255"
  shows "format_path a (b @ BACKSLASH # c) = format_path (a @ BACKSLASH # b) c"
proof -
  have "utf8_valid (BACKSLASH # x) = utf8_valid x" for x by (simp add: BACKSLASH_def)
  then show ?thesis using assms by (simp add: format_path_short utf8_append)
qed

theorem format_path_collision_witness:
  "format_path [0x61] [0x62, BACKSLASH, 0x63] = format_path [0x61, BACKSLASH, 0x62] [0x63]"
  using format_path_collision [of "[0x61]" "[0x62]" "[0x63]"] by simp

text \<open>\<open>normalize\<close> never panics on a valid string (slicing behind the colon is always a character boundary): it
  rejects exactly the paths longer than 260 bytes, and otherwise returns the path without its drive
  prefix, which is again a valid string.\<close>

theorem normalize_total:
  assumes "utf8_valid path"
  shows "normalize path =
      Inr (if length path > MAX_PATH then None
           else Some (if length path \<ge> 2 \<and> path ! 1 = 0x3A then drop 2 path else path)) \<and>
    (\<forall>p. normalize path = Inr (Some p) \<longrightarrow> utf8_valid p)"
proof (cases "length path \<ge> 2 \<and> path ! 1 = 0x3A")
  case True
  then obtain a bs where p: "path = a # 0x3A # bs" by (cases path; cases "tl path") auto
  note v = utf8_colon_second [OF assms [unfolded p]]
  have "is_char_boundary path 2"
    using v utf8_head_not_cont [of "hd bs" "tl bs"] by (cases bs) (simp_all add: p is_char_boundary_def)
  then show ?thesis using v p by (simp add: normalize_def)
qed (use assms in \<open>auto simp: normalize_def\<close>)

theorem normalize_total_witness: "normalize [0x43, 0x3A, 0x5C, 0x61] = Inr (Some [0x5C, 0x61])"
  using normalize_total [of "[0x43, 0x3A, 0x5C, 0x61]"] by (simp add: MAX_PATH_def)

end
