(* ===== verification/Pe_Parser.thy ===== *)
theory Pe_Parser
  imports Utf8
begin

text \<open>
  The PE/COFF parser (\<^verbatim>\<open>crates/pe-parser/src/lib.rs\<close>): headers, data directories, section headers,
  the import tables and strings of an executable image held in a byte slice. Slicing beyond the
  end panics, as in the source; \<open>None\<close> is the source's rejection.
\<close>

datatype MachineType = I386 | Amd64 | Arm64

record DataDirectory =
  dir_rva :: u32
  dir_size :: u32

record PeImage =
  pe_machine :: MachineType
  pe_entry_point :: u64
  pe_image_base :: u64
  pe_image_size :: u64
  pe_is_dll :: bool
  pe_num_sections :: u16
  pe_section_table_offset :: nat
  pe_data_directory_offset :: nat
  pe_num_data_directories :: u32

record ImportDescriptor =
  int_rva :: u32
  iat_rva :: u32
  name_rva :: u32

record SectionHeader =
  sec_name :: bytes
  virtual_size :: u32
  virtual_address :: u32
  raw_size :: u32
  raw_offset :: u32

definition MAX_IMPORT_DESCRIPTORS :: nat where "MAX_IMPORT_DESCRIPTORS = 32"
definition MAX_IMPORT_THUNKS :: nat where "MAX_IMPORT_THUNKS = 64"

text \<open>A little-endian integer in a slice.\<close>

definition le_at :: "bytes \<Rightarrow> nat \<Rightarrow> nat \<Rightarrow> 'a::len word res" where
  "le_at data i n = map_res from_le (slice_chk data i (i + n))"

section \<open>Headers\<close>

definition machine_type :: "u16 \<Rightarrow> MachineType option" where
  "machine_type v =
     (if v = 0x8664 then Some Amd64 else if v = 0xAA64 then Some Arm64 else if v = 0x014C then Some I386 else None)"

definition read_image_base :: "bytes \<Rightarrow> nat \<Rightarrow> u64 option res" where
  "read_image_base data opt_offset =
     bind_res (le_at data opt_offset 2) (\<lambda>magic :: u16.
     if magic = 0x20B then map_res Some (le_at data (opt_offset + 24) 8)
     else if magic = 0x10B then map_res (\<lambda>b :: u32. Some (ucast b)) (le_at data (opt_offset + 28) 4)
     else Inr None)"

definition num_directories :: "bytes \<Rightarrow> nat \<Rightarrow> u32 res" where
  "num_directories data opt_offset =
     (if opt_offset + 0x6C + 4 \<le> length data then le_at data (opt_offset + 0x68) 4 else Inr 0)"

definition parse_optional_header :: "bytes \<Rightarrow> nat \<Rightarrow> MachineType \<Rightarrow> u16 \<Rightarrow> nat \<Rightarrow> bool \<Rightarrow> PeImage option res" where
  "parse_optional_header data opt_offset mach sections opt_header_size dll =
     (if opt_offset + 8 > length data then Inr None
      else
        bind_res (read_image_base data opt_offset) (\<lambda>base.
        case base of
          None \<Rightarrow> Inr None
        | Some image_base \<Rightarrow>
            bind_res (le_at data (opt_offset + 16) 4) (\<lambda>entry :: u32.
            bind_res (le_at data (opt_offset + 56) 4) (\<lambda>isize :: u32.
            bind_res (num_directories data opt_offset) (\<lambda>dirs.
            bind_res (add_chk image_base (ucast entry)) (\<lambda>entry_addr.
            Inr (Some \<lparr>pe_machine = mach, pe_entry_point = entry_addr, pe_image_base = image_base,
                       pe_image_size = ucast isize, pe_is_dll = dll, pe_num_sections = sections,
                       pe_section_table_offset = opt_offset + opt_header_size,
                       pe_data_directory_offset = opt_offset + 0x6C,
                       pe_num_data_directories = dirs\<rparr>)))))))"

definition parse_coff_header :: "bytes \<Rightarrow> nat \<Rightarrow> PeImage option res" where
  "parse_coff_header data pe_offset =
     bind_res (le_at data (pe_offset + 4) 2) (\<lambda>mach :: u16.
     bind_res (le_at data (pe_offset + 6) 2) (\<lambda>sections :: u16.
     bind_res (le_at data (pe_offset + 20) 2) (\<lambda>opt_header_size :: u16.
     bind_res (le_at data (pe_offset + 22) 2) (\<lambda>characteristics :: u16.
     case machine_type mach of
       None \<Rightarrow> Inr None
     | Some mt \<Rightarrow>
         parse_optional_header data (pe_offset + 24) mt sections (unat opt_header_size)
           (characteristics AND 0x2000 \<noteq> 0)))))"

definition parse_pe :: "bytes \<Rightarrow> PeImage option res" where
  "parse_pe data =
     (if length data < 0x40 then Inr None
      else
        bind_res (slice_chk data 0 2) (\<lambda>mz.
        if mz \<noteq> [0x4D, 0x5A] then Inr None
        else
          bind_res (le_at data 0x3C 4) (\<lambda>off :: u32.
          let pe_offset = unat off in
          if pe_offset + 24 > length data then Inr None
          else
            bind_res (slice_chk data pe_offset (pe_offset + 4)) (\<lambda>sig.
            if sig \<noteq> [0x50, 0x45, 0, 0] then Inr None
            else parse_coff_header data pe_offset))))"

section \<open>Directories, sections and imports\<close>

definition data_directory :: "bytes \<Rightarrow> PeImage \<Rightarrow> nat \<Rightarrow> DataDirectory option res" where
  "data_directory data img index =
     (if of_nat index \<ge> pe_num_data_directories img then Inr None
      else
        bind_res (usize_chk (index * 8)) (\<lambda>d.
        bind_res (usize_chk (pe_data_directory_offset img + d)) (\<lambda>offset.
        bind_res (usize_chk (offset + 8)) (\<lambda>e.
        if e > length data then Inr None
        else
          bind_res (le_at data offset 4) (\<lambda>rva.
          bind_res (le_at data (offset + 4) 4) (\<lambda>sz.
          Inr (Some \<lparr>dir_rva = rva, dir_size = sz\<rparr>)))))))"

definition parse_section_header :: "bytes \<Rightarrow> nat \<Rightarrow> SectionHeader option res" where
  "parse_section_header data offset =
     bind_res (usize_chk (offset + 40)) (\<lambda>e.
     if e > length data then Inr None
     else
       bind_res (slice_chk data offset (offset + 8)) (\<lambda>name.
       bind_res (le_at data (offset + 8) 4) (\<lambda>vsize.
       bind_res (le_at data (offset + 12) 4) (\<lambda>vaddr.
       bind_res (le_at data (offset + 16) 4) (\<lambda>rsize.
       bind_res (le_at data (offset + 20) 4) (\<lambda>roff.
       Inr (Some \<lparr>sec_name = name, virtual_size = vsize, virtual_address = vaddr,
                  raw_size = rsize, raw_offset = roff\<rparr>)))))))"

definition section_name_str :: "SectionHeader \<Rightarrow> bytes" where
  "section_name_str s =
     (let len = (case position (\<lambda>b. b = 0) (sec_name s) of Some i \<Rightarrow> i | None \<Rightarrow> 8)
      in from_utf8_or_empty (take len (sec_name s)))"

fun rva_loop :: "bytes \<Rightarrow> PeImage \<Rightarrow> u64 \<Rightarrow> nat list \<Rightarrow> nat option res" where
  "rva_loop data img rva [] = Inr None"
| "rva_loop data img rva (i # js) =
     bind_res (usize_chk (pe_section_table_offset img + i * 40)) (\<lambda>offset.
     bind_res (parse_section_header data offset) (\<lambda>sh.
     case sh of
       None \<Rightarrow> Inr None
     | Some s \<Rightarrow>
         let start = ucast (virtual_address s) in
         bind_res (add_chk start (ucast (raw_size s))) (\<lambda>e.
         if rva \<ge> start \<and> rva < e
         then map_res (\<lambda>v. Some (unat v)) (add_chk (rva - start) (ucast (raw_offset s)))
         else rva_loop data img rva js)))"

definition rva_to_file_offset :: "bytes \<Rightarrow> PeImage \<Rightarrow> u64 \<Rightarrow> nat option res" where
  "rva_to_file_offset data img rva = rva_loop data img rva [0..<unat (pe_num_sections img)]"

fun import_loop :: "bytes \<Rightarrow> nat \<Rightarrow> nat list \<Rightarrow> ImportDescriptor option list \<Rightarrow> ImportDescriptor option list res" where
  "import_loop data dir_offset [] out = Inr out"
| "import_loop data dir_offset (i # js) out =
     (let entry_offset = dir_offset + i * 20 in
      if entry_offset + 20 > length data then Inr out
      else
        bind_res (le_at data entry_offset 4) (\<lambda>a.
        bind_res (le_at data (entry_offset + 12) 4) (\<lambda>b.
        bind_res (le_at data (entry_offset + 16) 4) (\<lambda>c.
        if a = 0 \<and> b = 0 \<and> c = 0 then Inr out
        else import_loop data dir_offset js (out[i := Some \<lparr>int_rva = a, iat_rva = b, name_rva = c\<rparr>])))))"

definition parse_import_directory :: "bytes \<Rightarrow> PeImage \<Rightarrow> ImportDescriptor option list res" where
  "parse_import_directory data img =
     (let out = replicate MAX_IMPORT_DESCRIPTORS None in
      bind_res (data_directory data img 1) (\<lambda>d.
      case d of
        None \<Rightarrow> Inr out
      | Some dir \<Rightarrow>
          if dir_rva dir = 0 \<or> dir_size dir = 0 then Inr out
          else
            bind_res (rva_to_file_offset data img (ucast (dir_rva dir))) (\<lambda>off.
            import_loop data (case off of Some o' \<Rightarrow> o' | None \<Rightarrow> 0) [0..<MAX_IMPORT_DESCRIPTORS] out)))"

fun thunk_loop :: "bytes \<Rightarrow> nat \<Rightarrow> nat list \<Rightarrow> u64 option list \<Rightarrow> u64 option list res" where
  "thunk_loop data offset [] out = Inr out"
| "thunk_loop data offset (i # js) out =
     (let entry_offset = offset + i * 8 in
      if entry_offset + 8 > length data then Inr out
      else
        bind_res (le_at data entry_offset 8) (\<lambda>v.
        if v = 0 then Inr out else thunk_loop data offset js (out[i := Some v])))"

definition parse_import_thunks :: "bytes \<Rightarrow> PeImage \<Rightarrow> u32 \<Rightarrow> u64 option list res" where
  "parse_import_thunks data img rva =
     (let out = replicate MAX_IMPORT_THUNKS None in
      bind_res (rva_to_file_offset data img (ucast rva)) (\<lambda>off.
      case off of None \<Rightarrow> Inr out | Some offset \<Rightarrow> thunk_loop data offset [0..<MAX_IMPORT_THUNKS] out))"

text \<open>The scanning loop of \<open>read_rva_string\<close>, and the function itself; \<open>from_utf8(..).ok()\<close> is
  \<open>Some\<close> exactly on valid UTF-8.\<close>

function string_len :: "bytes \<Rightarrow> nat \<Rightarrow> nat \<Rightarrow> nat" where
  "string_len data offset len =
     (if offset + len < length data \<and> data ! (offset + len) \<noteq> 0 then string_len data offset (len + 1) else len)"
  by pat_completeness auto
termination
  by (relation "measure (\<lambda>(data, offset, len). length data - (offset + len))") auto

declare string_len.simps [simp del]

definition read_rva_string :: "bytes \<Rightarrow> PeImage \<Rightarrow> u32 \<Rightarrow> bytes option res" where
  "read_rva_string data img rva =
     bind_res (rva_to_file_offset data img (ucast rva)) (\<lambda>off.
     case off of
       None \<Rightarrow> Inr None
     | Some offset \<Rightarrow>
         let len = string_len data offset 0 in
         bind_res (slice_chk data offset (offset + len)) (\<lambda>s.
         Inr (if utf8_valid s then Some s else None)))"

section \<open>Reading fields\<close>

text \<open>The integer stored in the \<open>n\<close> bytes at \<open>i\<close>.\<close>

definition pe_field :: "bytes \<Rightarrow> nat \<Rightarrow> nat \<Rightarrow> 'a::len word" where
  "pe_field data i n = from_le (take n (drop i data))"

lemma le_at_eq: "le_at data i n = (if i + n \<le> length data then Inr (pe_field data i n) else Inl Out_Of_Bounds)"
  by (simp add: le_at_def slice_chk_def pe_field_def)

lemma le_at_skip [simp]: "le_at (xs @ ys) (length xs + i) n = le_at ys i n"
  by (simp add: le_at_def slice_chk_def)

lemma le_at_peel: "length xs \<le> i \<Longrightarrow> le_at (xs @ ys) i n = le_at ys (i - length xs) n"
  using le_at_skip [of xs ys "i - length xs" n] by simp

lemma le_at_peel_Cons: "1 \<le> i \<Longrightarrow> le_at (x # ys) i n = le_at ys (i - 1) n"
  using le_at_peel [of "[x]" i ys n] by simp

lemma le_at_here:
  "le_at (to_le 8 (w :: u64) @ ys) 0 8 = Inr w"
  "le_at (to_le 4 (x :: u32) @ ys) 0 4 = Inr x"
  "le_at (to_le 2 (y :: u16) @ ys) 0 2 = Inr y"
  by (simp_all add: le_at_def slice_chk_def)

lemma slice_chk_skip: "slice_chk (xs @ ys) (length xs) (length xs + n) = slice_chk ys 0 n"
  by (simp add: slice_chk_def)

section \<open>Parsing a well-formed image\<close>

text \<open>
  A PE32+ file by its fields, at the offsets the format documents (and \<^verbatim>\<open>tools/gen_minimal_pe64.py\<close> writes): in the
  optional header the reserved \<^verbatim>\<open>LoaderFlags\<close> at 0x68, \<^verbatim>\<open>NumberOfRvaAndSizes\<close> at 0x6C and the data directories from 0x70
  on, where \<open>f_rest\<close> starts. \<open>dos\<close>, \<open>gap\<close>, \<open>coff\<close> and \<open>o1\<close> to \<open>o4\<close> are the bytes between the fields.
\<close>

record pe_fields =
  f_dos :: bytes
  f_gap :: bytes
  f_machine :: u16
  f_sections :: u16
  f_coff :: bytes
  f_optsize :: u16
  f_chars :: u16
  f_o1 :: bytes
  f_entry :: u32
  f_o2 :: bytes
  f_base :: u64
  f_o3 :: bytes
  f_isize :: u32
  f_o4 :: bytes
  f_loader_flags :: u32
  f_dirs :: u32
  f_rest :: bytes

definition pe_headers :: "pe_fields \<Rightarrow> bytes" where
  "pe_headers f =
     [0x50, 0x45, 0, 0] @ to_le 2 (f_machine f) @ to_le 2 (f_sections f) @ f_coff f @ to_le 2 (f_optsize f) @ to_le 2 (f_chars f) @
     to_le 2 (0x20B :: u16) @ f_o1 f @ to_le 4 (f_entry f) @ f_o2 f @ to_le 8 (f_base f) @ f_o3 f @ to_le 4 (f_isize f) @
     f_o4 f @ to_le 4 (f_loader_flags f) @ to_le 4 (f_dirs f) @ f_rest f"

definition pe_file :: "pe_fields \<Rightarrow> bytes" where
  "pe_file f = [0x4D, 0x5A] @ f_dos f @ to_le 4 (of_nat (0x40 + length (f_gap f)) :: u32) @ f_gap f @ pe_headers f"

definition pe_fields_ok :: "pe_fields \<Rightarrow> bool" where
  "pe_fields_ok f \<longleftrightarrow>
     length (f_dos f) = 58 \<and> 0x40 + length (f_gap f) < 2 ^ 32 \<and> length (f_coff f) = 12 \<and> length (f_o1 f) = 14 \<and>
     length (f_o2 f) = 4 \<and> length (f_o3 f) = 24 \<and> length (f_o4 f) = 44 \<and>
     machine_type (f_machine f) \<noteq> None \<and> unat (f_base f) + unat (f_entry f) < 2 ^ 64"

text \<open>Where the data directories of the file start.\<close>

definition directories_offset :: "pe_fields \<Rightarrow> nat" where
  "directories_offset f = 0x40 + length (f_gap f) + 24 + 0x70"

text \<open>What the parser makes of the file: it takes the loader flags for the number of directories and places the table four
  bytes before its start.\<close>

definition pe_image_of :: "pe_fields \<Rightarrow> PeImage" where
  "pe_image_of f =
     \<lparr>pe_machine = the (machine_type (f_machine f)), pe_entry_point = f_base f + ucast (f_entry f),
      pe_image_base = f_base f, pe_image_size = ucast (f_isize f), pe_is_dll = bit (f_chars f) 13,
      pe_num_sections = f_sections f, pe_section_table_offset = 0x40 + length (f_gap f) + 24 + unat (f_optsize f),
      pe_data_directory_offset = directories_offset f - 4, pe_num_data_directories = f_loader_flags f\<rparr>"

lemma and_2000: "(w :: u16) AND 0x2000 \<noteq> 0 \<longleftrightarrow> bit w 13"
proof -
  have "(0x2000 :: u16) = push_bit 13 1" by simp
  then show ?thesis using bit_iff_and_push_bit_not_eq_0 [of w 13] by metis
qed

lemma parse_coff_pe_headers:
  assumes "pe_fields_ok f" "length pre = 0x40 + length (f_gap f)"
  shows "parse_coff_header (pre @ pe_headers f) (length pre) = Inr (Some (pe_image_of f))"
proof -
  note f = assms(1) [unfolded pe_fields_ok_def]
  obtain mt where mt: "machine_type (f_machine f) = Some mt" using f by auto
  have len: "length (pe_headers f) = 136 + length (f_rest f)" using f by (simp add: pe_headers_def)
  have r: "le_at (pre @ pe_headers f) (length pre + 4) 2 = Inr (f_machine f)"
    "le_at (pre @ pe_headers f) (length pre + 6) 2 = Inr (f_sections f)"
    "le_at (pre @ pe_headers f) (length pre + 20) 2 = Inr (f_optsize f)"
    "le_at (pre @ pe_headers f) (length pre + 22) 2 = Inr (f_chars f)"
    "le_at (pre @ pe_headers f) (length pre + 24) 2 = Inr (0x20B :: u16)"
    "le_at (pre @ pe_headers f) (length pre + 40) 4 = Inr (f_entry f)"
    "le_at (pre @ pe_headers f) (length pre + 48) 8 = Inr (f_base f)"
    "le_at (pre @ pe_headers f) (length pre + 80) 4 = Inr (f_isize f)"
    "le_at (pre @ pe_headers f) (length pre + 128) 4 = Inr (f_loader_flags f)"
    using f by (simp_all only: le_at_skip pe_headers_def) (simp_all add: le_at_peel le_at_peel_Cons le_at_here)
  have base: "read_image_base (pre @ pe_headers f) (length pre + 24) = Inr (Some (f_base f))"
    using r by (simp add: read_image_base_def add.assoc)
  have dirs: "num_directories (pre @ pe_headers f) (length pre + 24) = Inr (f_loader_flags f)"
    using r f len by (simp add: num_directories_def add.assoc)
  have ov: "add_chk (f_base f) (ucast (f_entry f)) = Inr (f_base f + ucast (f_entry f))"
    using f by (simp add: add_chk_def)
  show ?thesis
    using r base dirs ov mt len assms(2)
    by (simp add: parse_coff_header_def parse_optional_header_def pe_image_of_def directories_offset_def add.assoc and_2000)
qed

lemma parse_pe_file:
  assumes "pe_fields_ok f"
  shows "parse_pe (pe_file f) = Inr (Some (pe_image_of f))"
proof -
  note f = assms [unfolded pe_fields_ok_def]
  let ?off = "of_nat (0x40 + length (f_gap f)) :: u32"
  let ?pre = "[0x4D, 0x5A] @ f_dos f @ to_le 4 ?off @ f_gap f"
  have pre: "length ?pre = 0x40 + length (f_gap f)" using f by simp
  have off: "unat ?off = length ?pre" using f pre by (simp add: unat_of_nat del: of_nat_add)
  have fl: "pe_file f = ?pre @ pe_headers f" by (simp add: pe_file_def)
  have len: "length (pe_headers f) = 136 + length (f_rest f)" using f by (simp add: pe_headers_def)
  have e: "le_at (pe_file f) 0x3C 4 = Inr ?off"
    using f by (simp add: pe_file_def le_at_peel le_at_peel_Cons le_at_here del: of_nat_add)
  have sig: "slice_chk (pe_file f) (length ?pre) (length ?pre + 4) = Inr [0x50, 0x45, 0, 0]"
    unfolding fl slice_chk_skip by (simp add: slice_chk_def pe_headers_def)
  have mz: "slice_chk (pe_file f) 0 2 = Inr [0x4D, 0x5A]" by (simp add: slice_chk_def pe_file_def)
  have l: "\<not> length (pe_file f) < 0x40" "\<not> length ?pre + 24 > length (pe_file f)" using pre len unfolding fl by simp_all
  show ?thesis
    unfolding parse_pe_def mz bind_res_simps e Let_def off sig using l parse_coff_pe_headers [OF assms pre]
    unfolding fl by simp
qed

text \<open>The parser accepts the file up to the magic number of the optional header.\<close>

definition header_accepted :: "bytes \<Rightarrow> bool" where
  "header_accepted data \<longleftrightarrow>
     0x40 \<le> length data \<and> take 2 data = [0x4D, 0x5A] \<and>
     (let off = unat (pe_field data 0x3C 4 :: u32) in
       off + 32 \<le> length data \<and> take 4 (drop off data) = [0x50, 0x45, 0, 0] \<and>
       machine_type (pe_field data (off + 4) 2) \<noteq> None \<and> pe_field data (off + 24) 2 \<in> {0x20B, 0x10B :: u16})"

definition header_base :: "bytes \<Rightarrow> nat \<Rightarrow> u64" where
  "header_base data opt =
     (if pe_field data opt 2 = (0x20B :: u16) then pe_field data (opt + 24) 8 else ucast (pe_field data (opt + 28) 4 :: u32))"

lemma parse_optional_header_panics:
  assumes "opt + 8 \<le> length data"
  shows "panics (parse_optional_header data opt mt n sz dll) \<longleftrightarrow>
    pe_field data opt 2 \<in> {0x20B, 0x10B :: u16} \<and>
    (length data < opt + 60 \<or> 2 ^ 64 \<le> unat (header_base data opt) + unat (pe_field data (opt + 16) 4 :: u32))"
proof (cases "pe_field data opt 2 \<in> {0x20B, 0x10B :: u16}")
  case True
  show ?thesis
  proof (cases "length data < opt + 60")
    case False
    then have "read_image_base data opt = Inr (Some (header_base data opt))"
      using True assms by (auto simp: read_image_base_def header_base_def le_at_eq)
    then show ?thesis using False True assms
      by (auto simp: parse_optional_header_def le_at_eq num_directories_def add_chk_def)
  next
    case short: True
    have "\<exists>e. read_image_base data opt = Inl e \<or> (\<exists>b. read_image_base data opt = Inr (Some b))"
      using True assms by (auto simp: read_image_base_def le_at_eq)
    then show ?thesis using short True assms
      by (auto simp: parse_optional_header_def le_at_eq)
  qed
next
  case False
  then have "read_image_base data opt = Inr None" using assms by (auto simp: read_image_base_def le_at_eq)
  then show ?thesis using False assms by (auto simp: parse_optional_header_def)
qed

lemma parse_coff_header_panics:
  assumes "off + 24 \<le> length data"
  shows "panics (parse_coff_header data off) \<longleftrightarrow>
    machine_type (pe_field data (off + 4) 2) \<noteq> None \<and> off + 32 \<le> length data \<and>
    pe_field data (off + 24) 2 \<in> {0x20B, 0x10B :: u16} \<and>
    (length data < off + 84 \<or> 2 ^ 64 \<le> unat (header_base data (off + 24)) + unat (pe_field data (off + 40) 4 :: u32))"
proof (cases "machine_type (pe_field data (off + 4) 2) = None \<or> length data < off + 32")
  case True
  then show ?thesis using assms
    by (auto simp: parse_coff_header_def le_at_eq parse_optional_header_def split: option.splits)
next
  case False
  then show ?thesis
    using assms parse_optional_header_panics [of "off + 24" data]
    by (auto simp: parse_coff_header_def le_at_eq add.assoc)
qed

section \<open>Sections\<close>

definition section_at :: "bytes \<Rightarrow> PeImage \<Rightarrow> nat \<Rightarrow> SectionHeader option" where
  "section_at data img i =
     (let ofs = pe_section_table_offset img + i * 40 in
      if ofs + 40 \<le> length data
      then Some \<lparr>sec_name = take 8 (drop ofs data), virtual_size = pe_field data (ofs + 8) 4,
                 virtual_address = pe_field data (ofs + 12) 4, raw_size = pe_field data (ofs + 16) 4,
                 raw_offset = pe_field data (ofs + 20) 4\<rparr>
      else None)"

definition in_section :: "SectionHeader \<Rightarrow> nat \<Rightarrow> bool" where
  "in_section s rva \<longleftrightarrow> unat (virtual_address s) \<le> rva \<and> rva < unat (virtual_address s) + unat (raw_size s)"

lemma parse_section_header_at:
  "pe_section_table_offset img + i * 40 + 40 < 2 ^ 64 \<Longrightarrow>
   parse_section_header data (pe_section_table_offset img + i * 40) = Inr (section_at data img i)"
  by (auto simp: parse_section_header_def usize_chk_def section_at_def Let_def le_at_eq slice_chk_def)

lemma unat_u32_less: "unat (x :: u32) < 4294967296"
  using unsigned_less [of x, where 'a = nat] by simp

lemma rva_loop_step:
  assumes "pe_section_table_offset img + i * 40 + 40 < 2 ^ 64"
  shows "rva_loop data img (ucast rva) (i # js) =
    (case section_at data img i of
       None \<Rightarrow> Inr None
     | Some s \<Rightarrow>
         if in_section s (unat (rva :: u32)) then Inr (Some (unat rva - unat (virtual_address s) + unat (raw_offset s)))
         else rva_loop data img (ucast rva) js)"
proof (cases "section_at data img i")
  case None
  then show ?thesis using assms parse_section_header_at [OF assms] by (simp add: usize_chk_def)
next
  case (Some s)
  note b = unat_u32_less [of "virtual_address s"] unat_u32_less [of "raw_size s"] unat_u32_less [of "raw_offset s"] unat_u32_less [of rva]
  let ?st = "ucast (virtual_address s) :: u64"
  have e: "add_chk ?st (ucast (raw_size s)) = Inr (?st + ucast (raw_size s))"
    "unat (?st + ucast (raw_size s)) = unat (virtual_address s) + unat (raw_size s)"
    using b by (simp_all add: add_chk_def unat_add_small)
  have c: "(ucast rva \<ge> ?st \<and> ucast rva < ?st + ucast (raw_size s)) = in_section s (unat rva)"
    by (simp add: word_le_nat_alt word_less_nat_alt e(2) in_section_def)
  have o: "add_chk (ucast rva - ?st) (ucast (raw_offset s)) = Inr (ucast rva - ?st + ucast (raw_offset s))"
    "unat (ucast rva - ?st + ucast (raw_offset s)) = unat rva - unat (virtual_address s) + unat (raw_offset s)"
    if "in_section s (unat rva)"
  proof -
    have d: "unat (ucast rva - ?st) = unat rva - unat (virtual_address s)"
      using that by (subst unat_sub_le) (simp_all add: word_le_nat_alt in_section_def)
    then show "add_chk (ucast rva - ?st) (ucast (raw_offset s)) = Inr (ucast rva - ?st + ucast (raw_offset s))"
      "unat (ucast rva - ?st + ucast (raw_offset s)) = unat rva - unat (virtual_address s) + unat (raw_offset s)"
      using b by (simp_all add: add_chk_def unat_add_small)
  qed
  show ?thesis
    using assms parse_section_header_at [OF assms] Some e(1) c o by (simp add: usize_chk_def Let_def)
qed

text \<open>The reference: the first section, within the table, whose raw data covers the address.\<close>

fun find_section :: "bytes \<Rightarrow> PeImage \<Rightarrow> nat \<Rightarrow> nat list \<Rightarrow> SectionHeader option" where
  "find_section data img rva [] = None"
| "find_section data img rva (i # js) =
     (case section_at data img i of
        None \<Rightarrow> None
      | Some s \<Rightarrow> if in_section s rva then Some s else find_section data img rva js)"

lemma rva_loop_find:
  assumes "\<forall>i\<in>set js. pe_section_table_offset img + i * 40 + 40 < 2 ^ 64"
  shows "rva_loop data img (ucast (rva :: u32)) js =
    Inr (map_option (\<lambda>s. unat rva - unat (virtual_address s) + unat (raw_offset s)) (find_section data img (unat rva) js))"
  using assms
proof (induction js)
  case (Cons i js)
  then show ?case using rva_loop_step [of img i data rva js] by (simp split: option.splits)
qed simp

lemma rva_to_file_offset_find:
  assumes "pe_section_table_offset img + 2621440 < 2 ^ 64"
  shows "rva_to_file_offset data img (ucast (rva :: u32)) =
    Inr (map_option (\<lambda>s. unat rva - unat (virtual_address s) + unat (raw_offset s))
      (find_section data img (unat rva) [0..<unat (pe_num_sections img)]))"
  unfolding rva_to_file_offset_def
proof (rule rva_loop_find, intro ballI)
  fix i
  assume "i \<in> set [0..<unat (pe_num_sections img)]"
  then have "i < 65536" using unsigned_less [of "pe_num_sections img", where 'a = nat] by simp
  then show "pe_section_table_offset img + i * 40 + 40 < 2 ^ 64" using assms by simp
qed

lemma string_len_eq:
  "string_len data offset len = len + length (takeWhile (\<lambda>b. b \<noteq> 0) (drop (offset + len) data))"
proof (induction data offset len rule: string_len.induct)
  case (1 data offset len)
  show ?case
  proof (cases "offset + len < length data \<and> data ! (offset + len) \<noteq> 0")
    case True
    then have "drop (offset + len) data = data ! (offset + len) # drop (offset + (len + 1)) data"
      by (simp add: Cons_nth_drop_Suc)
    then show ?thesis using True 1 by (subst string_len.simps) simp
  next
    case False
    have "takeWhile (\<lambda>b. b \<noteq> 0) (drop (offset + len) data) = []"
    proof (cases "offset + len < length data")
      case True
      then have "drop (offset + len) data = data ! (offset + len) # drop (Suc (offset + len)) data"
        by (simp add: Cons_nth_drop_Suc)
      then show ?thesis using True False by simp
    qed simp
    then show ?thesis using False by (subst string_len.simps) auto
  qed
qed

section \<open>Import tables\<close>

text \<open>Both import loops fill an array up to the first entry that is absent; the reference says
  which entries are filled.\<close>

fun scan :: "(nat \<Rightarrow> 'a option) \<Rightarrow> nat list \<Rightarrow> 'a option list \<Rightarrow> 'a option list" where
  "scan e [] out = out"
| "scan e (i # js) out = (case e i of None \<Rightarrow> out | Some v \<Rightarrow> scan e js (out[i := Some v]))"

definition prefix_table :: "nat \<Rightarrow> (nat \<Rightarrow> 'a option) \<Rightarrow> 'a option list" where
  "prefix_table n e = map (\<lambda>i. if \<forall>j\<le>i. e j \<noteq> None then e i else None) [0..<n]"

definition thunk_entry :: "bytes \<Rightarrow> nat \<Rightarrow> nat \<Rightarrow> u64 option" where
  "thunk_entry data offset i =
     (if offset + i * 8 + 8 \<le> length data \<and> pe_field data (offset + i * 8) 8 \<noteq> (0 :: u64)
      then Some (pe_field data (offset + i * 8) 8) else None)"

definition import_entry :: "bytes \<Rightarrow> nat \<Rightarrow> nat \<Rightarrow> ImportDescriptor option" where
  "import_entry data offset i =
     (let p = offset + i * 20; a = pe_field data p 4; b = pe_field data (p + 12) 4; c = pe_field data (p + 16) 4
      in if p + 20 \<le> length data \<and> \<not> (a = 0 \<and> b = 0 \<and> c = 0)
         then Some \<lparr>int_rva = a, iat_rva = b, name_rva = c\<rparr> else None)"

lemma thunk_loop_scan: "thunk_loop data offset js out = Inr (scan (thunk_entry data offset) js out)"
  by (induction js arbitrary: out) (auto simp: Let_def le_at_eq thunk_entry_def)

lemma import_loop_scan: "import_loop data offset js out = Inr (scan (import_entry data offset) js out)"
  by (induction js arbitrary: out) (auto simp: Let_def le_at_eq import_entry_def)

lemma nth_scan:
  "k < length out \<Longrightarrow> \<forall>j<i. e j \<noteq> None \<Longrightarrow> \<forall>j<length out. out ! j = (if j < i then e j else None) \<Longrightarrow> n = length out \<Longrightarrow>
   scan e [i..<n] out ! k = (if \<forall>j\<le>k. e j \<noteq> None then e k else None)"
proof (induction "n - i" arbitrary: i out)
  case 0
  then show ?case by auto
next
  case (Suc d)
  then have i: "i < n" and up: "[i..<n] = i # [Suc i..<n]" by (auto simp: upt_conv_Cons)
  show ?case
  proof (cases "e i")
    case None
    have "(\<forall>j\<le>k. e j \<noteq> None) = (k < i)" using Suc.prems(2) None by (meson le_less_trans not_less)
    then show ?thesis using Suc.prems None up by (simp del: not_None_eq)
  next
    case (Some v)
    have "scan e [Suc i..<n] (out[i := Some v]) ! k = (if \<forall>j\<le>k. e j \<noteq> None then e k else None)"
      by (rule Suc.hyps(1)) (use Suc Some i in \<open>auto simp: nth_list_update less_Suc_eq\<close>)
    then show ?thesis using Some up by simp
  qed
qed

lemma length_scan [simp]: "length (scan e js out) = length out"
  by (induction js arbitrary: out) (auto split: option.splits)

lemma scan_prefix_table: "scan e [0..<n] (replicate n None) = prefix_table n e"
proof (rule nth_equalityI)
  fix k
  assume "k < length (scan e [0..<n] (replicate n None))"
  then show "scan e [0..<n] (replicate n None) ! k = prefix_table n e ! k"
    using nth_scan [of k "replicate n None" 0 e n] by (simp add: prefix_table_def del: not_None_eq)
qed (simp add: prefix_table_def)

section \<open>Properties\<close>

text \<open>C16: what the parser recovers of a PE32+ file. A file laid out from its fields as the format documents (any DOS stub, any
  supported machine, an image base and entry point whose sum fits 64 bits) is accepted; machine, entry address, image
  base and size, the DLL flag, the number of sections and the start of the section table come back as they
  were laid out. The data directories do not: the parser reports the reserved loader flags as their number and a table
  that starts four bytes too early, so that in a file with loader flags 0, as the format requires, no data
  directory is found, whatever number of them the file declares.\<close>

theorem parse_pe_roundtrip:
  assumes "pe_fields_ok f"
  shows "\<exists>img. parse_pe (pe_file f) = Inr (Some img) \<and> Some (pe_machine img) = machine_type (f_machine f) \<and>
    pe_entry_point img = f_base f + ucast (f_entry f) \<and> pe_image_base img = f_base f \<and> pe_image_size img = ucast (f_isize f) \<and>
    pe_is_dll img = bit (f_chars f) 13 \<and> pe_num_sections img = f_sections f \<and>
    pe_section_table_offset img = length (pe_file f) - length (pe_headers f) + 24 + unat (f_optsize f) \<and>
    pe_num_data_directories img = f_loader_flags f \<and> pe_data_directory_offset img + 4 = directories_offset f \<and>
    (f_loader_flags f = 0 \<longrightarrow> (\<forall>i. data_directory (pe_file f) img i = Inr None))"
proof -
  have "length (pe_file f) - length (pe_headers f) = 0x40 + length (f_gap f)"
    using assms by (simp add: pe_file_def pe_fields_ok_def)
  moreover have "\<exists>mt. machine_type (f_machine f) = Some mt" using assms by (auto simp: pe_fields_ok_def)
  ultimately show ?thesis using parse_pe_file [OF assms]
    by (auto simp: pe_image_of_def directories_offset_def data_directory_def)
qed

definition sample_pe :: pe_fields where
  "sample_pe = \<lparr>f_dos = replicate 58 0, f_gap = [], f_machine = 0x8664, f_sections = 1, f_coff = replicate 12 0,
     f_optsize = 0xF0, f_chars = 0x22, f_o1 = replicate 14 0, f_entry = 0x1000, f_o2 = replicate 4 0,
     f_base = 0x140000000, f_o3 = replicate 24 0, f_isize = 0x2000, f_o4 = replicate 44 0, f_loader_flags = 0, f_dirs = 16,
     f_rest = replicate 128 0\<rparr>"

theorem parse_pe_roundtrip_witness:
  "\<exists>img. parse_pe (pe_file sample_pe) = Inr (Some img) \<and> pe_entry_point img = 0x140001000 \<and> pe_section_table_offset img = 0x148 \<and>
     f_dirs sample_pe = 16 \<and> data_directory (pe_file sample_pe) img 0 = Inr None"
proof -
  have "pe_fields_ok sample_pe" by (simp add: pe_fields_ok_def sample_pe_def machine_type_def)
  from parse_pe_roundtrip [OF this] show ?thesis by (auto simp: sample_pe_def pe_file_def pe_headers_def)
qed

text \<open>C29: \<open>parse_pe\<close> panics on exactly these inputs: every check up to the magic number passes, and the file
  ends before the image size field of the optional header or image base and entry point overflow. All other
  malformed files are rejected with \<open>None\<close>.\<close>

theorem parse_pe_panic_iff:
  "panics (parse_pe data) \<longleftrightarrow>
     header_accepted data \<and>
     (let opt = unat (pe_field data 0x3C 4 :: u32) + 24 in
       length data < opt + 60 \<or> 2 ^ 64 \<le> unat (header_base data opt) + unat (pe_field data (opt + 16) 4 :: u32))"
proof (cases "0x40 \<le> length data \<and> take 2 data = [0x4D, 0x5A]")
  case True
  let ?off = "unat (pe_field data 0x3C 4 :: u32)"
  show ?thesis
  proof (cases "?off + 24 \<le> length data \<and> take 4 (drop ?off data) = [0x50, 0x45, 0, 0]")
    case sig: True
    then have "parse_pe data = parse_coff_header data ?off"
      using True by (simp add: parse_pe_def slice_chk_def le_at_eq)
    then show ?thesis using parse_coff_header_panics [of ?off data] sig True
      by (simp add: header_accepted_def Let_def add.assoc) blast
  next
    case False
    then show ?thesis using True by (auto simp: parse_pe_def slice_chk_def le_at_eq header_accepted_def Let_def)
  qed
qed (auto simp: parse_pe_def slice_chk_def header_accepted_def)

text \<open>\<open>read_rva_string\<close> finds the first section whose raw data covers the address and returns the bytes
  from there to the first zero byte or the end of the file, when they are valid UTF-8. A section whose raw data
  lies behind the end of the file makes it panic; nothing else does.\<close>

theorem read_rva_string_spec:
  assumes "pe_section_table_offset img + 2621440 < 2 ^ 64"
  shows "read_rva_string data img rva =
    (case find_section data img (unat rva) [0..<unat (pe_num_sections img)] of
       None \<Rightarrow> Inr None
     | Some s \<Rightarrow>
         let offset = unat rva - unat (virtual_address s) + unat (raw_offset s);
             str = takeWhile (\<lambda>b. b \<noteq> 0) (drop offset data)
         in if offset \<le> length data then Inr (if utf8_valid str then Some str else None) else Inl Out_Of_Bounds)"
proof (cases "find_section data img (unat rva) [0..<unat (pe_num_sections img)]")
  case None
  then show ?thesis by (simp add: read_rva_string_def rva_to_file_offset_find [OF assms])
next
  case (Some s)
  define offset where "offset = unat rva - unat (virtual_address s) + unat (raw_offset s)"
  let ?str = "takeWhile (\<lambda>b. b \<noteq> 0) (drop offset data)"
  have str: "take (length ?str) (drop offset data) = ?str" by (metis takeWhile_eq_take)
  have "length ?str \<le> length (drop offset data)" by (rule length_takeWhile_le)
  then have "slice_chk data offset (offset + length ?str) = (if offset \<le> length data then Inr ?str else Inl Out_Of_Bounds)"
    using str by (auto simp: slice_chk_def)
  then show ?thesis using Some
    by (simp add: read_rva_string_def rva_to_file_offset_find [OF assms] offset_def [symmetric] string_len_eq Let_def)
qed

definition sample_image :: PeImage where
  "sample_image = \<lparr>pe_machine = Amd64, pe_entry_point = 0, pe_image_base = 0, pe_image_size = 0, pe_is_dll = False,
     pe_num_sections = 1, pe_section_table_offset = 0, pe_data_directory_offset = 0, pe_num_data_directories = 0\<rparr>"

text \<open>One section header (address 0x10, raw data of 8 bytes at 40) and its raw data.\<close>

definition sample_section_file :: bytes where
  "sample_section_file =
     [0, 0, 0, 0, 0, 0, 0, 0, 8, 0, 0, 0, 0x10, 0, 0, 0, 8, 0, 0, 0, 40, 0, 0, 0, 0, 0, 0, 0, 0, 0, 0, 0, 0, 0, 0, 0, 0, 0, 0, 0,
      0x6B, 0x33, 0, 0, 0, 0, 0, 0]"

lemma sample_find:
  "find_section sample_section_file sample_image (unat (0x10 :: u32)) [0..<unat (pe_num_sections sample_image)] =
     Some \<lparr>sec_name = replicate 8 0, virtual_size = 8, virtual_address = 0x10, raw_size = 8, raw_offset = 40\<rparr>"
  by code_simp

theorem read_rva_string_spec_witness: "read_rva_string sample_section_file sample_image 0x10 = Inr (Some [0x6B, 0x33])"
proof -
  have b: "pe_section_table_offset sample_image + 2621440 < 2 ^ 64" by (simp add: sample_image_def)
  have v: "takeWhile (\<lambda>b. b \<noteq> 0) (drop 40 sample_section_file) = [0x6B, 0x33]" "length sample_section_file = 48"
    by (simp_all add: sample_section_file_def)
  have "utf8_valid [0x6B, 0x33]" by simp
  then show ?thesis unfolding read_rva_string_spec [OF b] sample_find using v by simp
qed

text \<open>The import tables never make the parser panic and are cut at their terminator: both results have
  the size of the source's arrays and hold the entries of the file before the first all-zero or truncated one.\<close>

theorem import_tables_terminated:
  assumes "pe_section_table_offset img + 2621440 < 2 ^ 64" "rva_to_file_offset data img (ucast rva) = Inr off"
  shows "parse_import_thunks data img rva =
     Inr (prefix_table MAX_IMPORT_THUNKS (case off of None \<Rightarrow> \<lambda>_. None | Some offset \<Rightarrow> thunk_entry data offset)) \<and>
   (data_directory data img 1 = Inr (Some \<lparr>dir_rva = rva, dir_size = sz\<rparr>) \<and> rva \<noteq> 0 \<and> sz \<noteq> 0 \<longrightarrow>
     parse_import_directory data img =
       Inr (prefix_table MAX_IMPORT_DESCRIPTORS (import_entry data (case off of Some offset \<Rightarrow> offset | None \<Rightarrow> 0))))"
proof -
  have none: "prefix_table n (\<lambda>_. None) = replicate n None" for n
    by (simp add: prefix_table_def map_replicate_const)
  show ?thesis
    using assms(2) by (auto simp: parse_import_thunks_def parse_import_directory_def thunk_loop_scan import_loop_scan
        scan_prefix_table none split: option.splits)
qed

theorem import_tables_terminated_witness:
  "parse_import_thunks sample_section_file sample_image 0x10 = Inr (prefix_table 64 (thunk_entry sample_section_file 40))"
proof -
  have b: "pe_section_table_offset sample_image + 2621440 < 2 ^ 64" by (simp add: sample_image_def)
  have "rva_to_file_offset sample_section_file sample_image (ucast (0x10 :: u32)) = Inr (Some 40)"
    unfolding rva_to_file_offset_find [OF b] sample_find by simp
  from import_tables_terminated [OF b this] show ?thesis by (simp add: MAX_IMPORT_THUNKS_def)
qed

end
