(* ===== verification/Loader.thy ===== *)
theory Loader
  imports Pe_Parser Address_Space
begin

text \<open>
  The PE loader (\<^verbatim>\<open>kernel/src/win32/loader.rs\<close>, \<^verbatim>\<open>kernel/src/win32/process.rs\<close>): contiguous frames
  for the image, copying and zeroing of the sections, and their mapping into a new address
  space. The file is a slice of kernel memory, given by address and length and read from the
  machine's memory at every use.
\<close>

record Process =
  proc_pid :: u64
  peb_base :: u64
  teb_base :: u64
  root_handle :: u32
  proc_image_base :: u64
  proc_image_size :: u64
  proc_entry_point :: u64
  proc_root :: u64

definition new_process :: "u64 \<Rightarrow> Process" where
  "new_process p =
     \<lparr>proc_pid = p, peb_base = 0, teb_base = 0, root_handle = 0, proc_image_base = 0, proc_image_size = 0,
      proc_entry_point = 0, proc_root = 0\<rparr>"

type_synonym slice = "u64 \<times> nat"

definition slice_bytes :: "machine \<Rightarrow> slice \<Rightarrow> bytes" where
  "slice_bytes m sl = read_bytes (phys m) (fst sl) (snd sl)"

definition host_machine :: MachineType where
  "host_machine = Amd64"

definition requires_translation :: "MachineType \<Rightarrow> bool" where
  "requires_translation guest \<longleftrightarrow> guest \<noteq> host_machine"

section \<open>Contiguous frames\<close>

text \<open>The loop of \<open>allocate_contiguous\<close> for the \<open>n\<close> frames after \<open>prev\<close>.\<close>

fun contiguous_from :: "nat \<Rightarrow> u64 \<Rightarrow> machine \<Rightarrow> (bool \<times> machine) res" where
  "contiguous_from 0 prev m = Inr (True, m)"
| "contiguous_from (Suc n) prev m =
     (case alloc_frame m of
        (None, m') \<Rightarrow> Inr (False, m')
      | (Some frame, m') \<Rightarrow>
          bind_res (add_chk prev 4096) (\<lambda>expected.
          if frame \<noteq> expected then Inr (False, m') else contiguous_from n frame m'))"

definition allocate_contiguous :: "nat \<Rightarrow> machine \<Rightarrow> (u64 option \<times> machine) res" where
  "allocate_contiguous pages m =
     (if pages = 0 then Inr (None, m)
      else case alloc_frame m of
             (None, m') \<Rightarrow> Inr (None, m')
           | (Some first, m') \<Rightarrow>
               map_res (\<lambda>(ok, m''). (if ok then Some first else None, m'')) (contiguous_from (pages - 1) first m'))"

section \<open>Sections\<close>

definition copy_section :: "SectionHeader \<Rightarrow> slice \<Rightarrow> u64 \<Rightarrow> machine \<Rightarrow> machine res" where
  "copy_section s sl dest m =
     (let vsize = unat (virtual_size s); copy_size = min (unat (raw_size s)) vsize; src = unat (raw_offset s);
          m1 = (if src + copy_size \<le> snd sl
                then m\<lparr>phys := write_bytes (phys m) dest (take copy_size (drop src (slice_bytes m sl)))\<rparr> else m)
      in if copy_size < vsize
         then map_res (\<lambda>a. m1\<lparr>phys := fill_bytes (phys m1) a 0 (vsize - copy_size)\<rparr>) (add_chk dest (of_nat copy_size))
         else Inr m1)"

definition map_section :: "SectionHeader \<Rightarrow> slice \<Rightarrow> u64 \<Rightarrow> u64 \<Rightarrow> u64 option \<Rightarrow> machine \<Rightarrow> machine res" where
  "map_section s sl phys_base virt_base pt m =
     bind_res (add_chk phys_base (ucast (virtual_address s))) (\<lambda>dest.
     bind_res (copy_section s sl dest m) (\<lambda>m1.
     case pt of
       None \<Rightarrow> Inr m1
     | Some root \<Rightarrow>
         bind_res (add_chk virt_base (ucast (virtual_address s))) (\<lambda>section_virt.
         bind_res (add_chk phys_base (ucast (virtual_address s))) (\<lambda>section_phys.
         Inr (snd (map_page m1 root section_virt section_phys
                (PAGE_PRESENT OR PAGE_USER OR PAGE_WRITABLE OR PAGE_EXECUTE)))))))"

fun load_sections :: "PeImage \<Rightarrow> slice \<Rightarrow> u64 \<Rightarrow> u64 option \<Rightarrow> nat list \<Rightarrow> machine \<Rightarrow> (bool \<times> machine) res" where
  "load_sections img sl base pt [] m = Inr (True, m)"
| "load_sections img sl base pt (i # js) m =
     bind_res (usize_chk (pe_section_table_offset img + i * 40)) (\<lambda>offset.
     bind_res (parse_section_header (slice_bytes m sl) offset) (\<lambda>sh.
     case sh of
       None \<Rightarrow> Inr (False, m)
     | Some s \<Rightarrow>
         bind_res (map_section s sl base (pe_image_base img) pt m) (load_sections img sl base pt js)))"

definition load_into_process :: "PeImage \<Rightarrow> Process \<Rightarrow> slice \<Rightarrow> machine \<Rightarrow> (bool \<times> Process \<times> machine) res" where
  "load_into_process img p sl m =
     bind_res (add_chk (pe_image_size img) 4095) (\<lambda>sz.
     let total_pages = unat sz div 4096 in
     bind_res (allocate_contiguous total_pages m) (\<lambda>(r, m1).
     case r of
       None \<Rightarrow> Inr (False, p, m1)
     | Some base \<Rightarrow>
         let p1 = p\<lparr>proc_image_base := base, proc_image_size := pe_image_size img\<rparr> in
         case new_page_table m1 of (pt, m2) \<Rightarrow>
         let m3 = m2\<lparr>phys := fill_bytes (phys m2) base 0 (total_pages * 4096)\<rparr> in
         bind_res (load_sections img sl base pt [0..<unat (pe_num_sections img)] m3) (\<lambda>(ok, m4).
         if \<not> ok then Inr (False, p1, m4)
         else
           let p2 = p1\<lparr>proc_root := (case pt of Some root \<Rightarrow> root | None \<Rightarrow> 0)\<rparr> in
           bind_res (add_chk base (saturating_sub (pe_entry_point img) (pe_image_base img))) (\<lambda>entry.
           Inr (True, p2\<lparr>proc_entry_point := entry\<rparr>, m4)))))"

section \<open>Contiguous allocation\<close>

lemma alloc_frame_step:
  assumes "fa_inv (falloc m)" "alloc_frame m = (r, m')"
  shows "fa_inv (falloc m')" "phys m' = phys m" "kernel_cr3 m' = kernel_cr3 m"
    "free_frames (falloc m') = free_frames (falloc m) - set_option r" "set_option r \<subseteq> free_frames (falloc m)"
proof -
  obtain fa' where al: "allocate_frame (falloc m) = (r, fa')" "m' = m\<lparr>falloc := fa'\<rparr>"
    using assms(2) by (auto simp: alloc_frame_def split: prod.splits)
  then show "phys m' = phys m" "kernel_cr3 m' = kernel_cr3 m" by simp_all
  show "fa_inv (falloc m')" "free_frames (falloc m') = free_frames (falloc m) - set_option r"
    "set_option r \<subseteq> free_frames (falloc m)"
    using fa.alloc_take [OF assms(1), of _ fa'] fa.alloc_empty [OF assms(1), of fa'] al by (cases r; simp)+
qed

lemma contiguous_from_spec:
  assumes "fa_inv (falloc m)" "contiguous_from n prev m = Inr (ok, m')"
  shows "fa_inv (falloc m') \<and> phys m' = phys m \<and> kernel_cr3 m' = kernel_cr3 m \<and>
    free_frames (falloc m') \<subseteq> free_frames (falloc m) \<and>
    (ok \<longrightarrow> unat prev + 4096 * n < 2 ^ 64 \<and>
       (\<lambda>i. prev + of_nat (4096 * Suc i)) ` {..<n} \<subseteq> free_frames (falloc m) \<and>
       free_frames (falloc m') = free_frames (falloc m) - (\<lambda>i. prev + of_nat (4096 * Suc i)) ` {..<n})"
  using assms
proof (induction n arbitrary: prev m)
  case (Suc n)
  obtain r m1 where al: "alloc_frame m = (r, m1)" by fastforce
  note st = alloc_frame_step [OF Suc.prems(1) al]
  show ?case
  proof (cases r)
    case None
    then show ?thesis using Suc.prems(2) al st by auto
  next
    case (Some f)
    then obtain e where e: "add_chk prev 4096 = Inr e"
      and run: "(if f \<noteq> e then Inr (False, m1) else contiguous_from n f m1) = Inr (ok, m')"
      using Suc.prems(2) al by (auto simp: bind_res_Inr_iff)
    have le: "unat prev + 4096 < 2 ^ 64" "e = prev + 4096" using e by (auto simp: add_chk_Inr_iff)
    show ?thesis
    proof (cases "f = e")
      case False
      then show ?thesis using run st Some by auto
    next
      case True
      then have "contiguous_from n f m1 = Inr (ok, m')" using run by simp
      note IH = Suc.IH [OF st(1) this]
      have fl: "f = prev + 4096" "unat f = unat prev + 4096" using True le by (simp_all add: unat_add_small)
      have img: "(\<lambda>i. prev + of_nat (4096 * Suc i)) ` {..<Suc n} =
          insert f ((\<lambda>i. f + of_nat (4096 * Suc i)) ` {..<n})"
        unfolding lessThan_Suc_eq_insert_0 image_insert image_image by (simp add: fl algebra_simps)
      show ?thesis unfolding img using IH st Some fl by auto
    qed
  qed
qed simp

lemma allocate_contiguous_spec:
  assumes "fa_inv (falloc m)" "allocate_contiguous n m = Inr (r, m')"
  shows "fa_inv (falloc m') \<and> phys m' = phys m \<and> kernel_cr3 m' = kernel_cr3 m \<and>
    free_frames (falloc m') \<subseteq> free_frames (falloc m) \<and>
    (\<forall>base. r = Some base \<longrightarrow> 0 < n \<and> unat base + 4096 * (n - 1) < 2 ^ 64 \<and>
       (\<lambda>i. base + of_nat (4096 * i)) ` {..<n} \<subseteq> free_frames (falloc m) \<and>
       free_frames (falloc m') = free_frames (falloc m) - (\<lambda>i. base + of_nat (4096 * i)) ` {..<n})"
proof (cases n)
  case 0
  then show ?thesis using assms by (auto simp: allocate_contiguous_def)
next
  case (Suc k)
  obtain o1 m1 where al: "alloc_frame m = (o1, m1)" by fastforce
  note st = alloc_frame_step [OF assms(1) al]
  show ?thesis
  proof (cases o1)
    case None
    then show ?thesis using assms(2) al st Suc by (auto simp: allocate_contiguous_def)
  next
    case (Some f)
    then obtain ok where run: "contiguous_from k f m1 = Inr (ok, m')" and r: "r = (if ok then Some f else None)"
      using assms(2) al Suc by (auto simp: allocate_contiguous_def map_res_Inr_iff)
    have img: "(\<lambda>i. f + of_nat (4096 * i)) ` {..<Suc k} = insert f ((\<lambda>i. f + of_nat (4096 * Suc i)) ` {..<k})"
      unfolding lessThan_Suc_eq_insert_0 image_insert image_image by simp
    define F where "F = (\<lambda>i. f + of_nat (4096 * Suc i)) ` {..<k}"
    note C = contiguous_from_spec [OF st(1) run, folded F_def]
    have fr: "free_frames (falloc m1) = free_frames (falloc m) - {f}" "f \<in> free_frames (falloc m)"
      using st(4,5) Some by auto
    have C1: "fa_inv (falloc m')" "phys m' = phys m" "kernel_cr3 m' = kernel_cr3 m" "free_frames (falloc m') \<subseteq> free_frames (falloc m)"
      using C st(2,3) fr by auto
    have "unat f + 4096 * (Suc k - 1) < 2 ^ 64 \<and> insert f F \<subseteq> free_frames (falloc m) \<and>
        free_frames (falloc m') = free_frames (falloc m) - insert f F" if ok
      using C that fr unfolding diff_Suc_1 by blast
    then have "ok \<longrightarrow> unat f + 4096 * (Suc k - 1) < 2 ^ 64 \<and>
        (\<lambda>i. f + of_nat (4096 * i)) ` {..<Suc k} \<subseteq> free_frames (falloc m) \<and>
        free_frames (falloc m') = free_frames (falloc m) - (\<lambda>i. f + of_nat (4096 * i)) ` {..<Suc k}"
      unfolding img F_def [symmetric] by blast
    then show ?thesis unfolding Suc using C1 r by (cases ok) simp_all
  qed
qed

section \<open>Writing outside the tables\<close>

lemma table_at_outside:
  assumes wf: "pt_wf m root" and out: "\<And>x. frame_of x \<in> tables m root \<Longrightarrow> phys m2 x = phys m x" and p: "path_ok p"
  shows "table_at m2 root p = table_at m root p"
proof (rule table_at_cong [OF pt_wfD(2) [OF wf]])
  fix q u
  assume "table_at m root q = Some u" "length q < length p" "\<forall>i\<in>set q. i < 512"
  then have "u \<in> tables m root" using p by (intro tablesI) (auto simp: path_ok_def)
  then show "\<forall>x. frame_of x = u \<longrightarrow> phys m2 x = phys m x" using out by blast
qed (use p in \<open>auto simp: path_ok_def\<close>)

lemma pt_wf_outside:
  assumes wf: "pt_wf m root" and fa: "falloc m2 = falloc m" and out: "\<And>x. frame_of x \<in> tables m root \<Longrightarrow> phys m2 x = phys m x"
  shows "pt_wf m2 root" "tables m2 root = tables m root" "translate m2 root w = translate m root w"
proof -
  have t: "table_at m2 root p = table_at m root p" if "path_ok p" for p
    using table_at_outside [OF wf _ that] out by blast
  show "pt_wf m2 root" using wf t fa unfolding pt_wf_def by auto
  show "tables m2 root = tables m root" using t unfolding tables_def by auto
  have "read_entry m2 u (pt_index w) = read_entry m u (pt_index w)" if "table_at m root (virt_path w) = Some u" for u
  proof -
    have "u \<in> tables m root" using that path_ok_virt_path by (intro tablesI)
    then show ?thesis unfolding read_entry_def
      using out table_at_aligned [OF pt_wfD(2) [OF wf] that] index_bound by (intro read_u64_cong_frame) auto
  qed
  then show "translate m2 root w = translate m root w"
    using t [OF path_ok_virt_path] by (cases "table_at m root (virt_path w)") (simp_all add: translate_leaf leaf_def)
qed

definition section_contents :: "SectionHeader \<Rightarrow> bytes \<Rightarrow> bytes" where
  "section_contents s data =
     (let n = min (unat (raw_size s)) (unat (virtual_size s))
      in take n (drop (unat (raw_offset s)) data) @ replicate (unat (virtual_size s) - n) 0)"

lemma copy_section_effect:
  assumes "copy_section s sl dest m = Inr m'"
    and "unat (raw_offset s) + min (unat (raw_size s)) (unat (virtual_size s)) \<le> snd sl"
  shows "falloc m' = falloc m" "kernel_cr3 m' = kernel_cr3 m"
    "phys m' = write_bytes (phys m) dest (section_contents s (slice_bytes m sl))"
proof -
  define v where "v = unat (virtual_size s)"
  define n where "n = min (unat (raw_size s)) v"
  let ?bs = "take n (drop (unat (raw_offset s)) (slice_bytes m sl))"
  have nv: "n \<le> v" by (simp add: n_def v_def)
  have vb: "v < 2 ^ 32" using unat_u32_less [of "virtual_size s"] by (simp add: v_def)
  have len: "length ?bs = n" using assms(2) [folded v_def, folded n_def] by (simp add: slice_bytes_def)
  have sc: "section_contents s (slice_bytes m sl) = ?bs @ replicate (v - n) 0"
    by (simp add: section_contents_def n_def v_def Let_def)
  let ?m1 = "m\<lparr>phys := write_bytes (phys m) dest ?bs\<rparr>"
  have run: "(if n < v then map_res (\<lambda>a. ?m1\<lparr>phys := fill_bytes (phys ?m1) a 0 (v - n)\<rparr>) (add_chk dest (of_nat n)) else Inr ?m1) = Inr m'"
    using assms(1) assms(2) [folded v_def, folded n_def] unfolding copy_section_def Let_def v_def [symmetric] n_def [symmetric]
    by (simp only: if_True)
  then have "falloc m' = falloc m \<and> kernel_cr3 m' = kernel_cr3 m \<and>
      phys m' = (if n < v then fill_bytes (write_bytes (phys m) dest ?bs) (dest + of_nat n) 0 (v - n) else write_bytes (phys m) dest ?bs)"
    by (auto simp: map_res_Inr_iff add_chk_Inr_iff split: if_splits)
  moreover have "fill_bytes (write_bytes (phys m) dest ?bs) (dest + of_nat n) 0 (v - n) =
      write_bytes (phys m) dest (?bs @ replicate (v - n) 0)" if "n < v"
  proof
    fix x
    have un: "unat (of_nat n :: u64) = n" using nv vb by (simp add: unat_of_nat)
    have e: "x - (dest + of_nat n) = (x - dest) - of_nat n" by simp
    have "unat (x - (dest + of_nat n)) < v - n \<longleftrightarrow> n \<le> unat (x - dest) \<and> unat (x - dest) < v"
    proof (cases "n \<le> unat (x - dest)")
      case True
      then have "unat (x - dest - of_nat n) = unat (x - dest) - n"
        using un by (subst unat_sub_le) (simp_all add: word_le_nat_alt)
      then show ?thesis unfolding e using True that by linarith
    next
      case False
      then have "unat (x - dest - of_nat n) = unat (x - dest) + 2 ^ 64 - n"
        using un unat_u64_less [of "x - dest"] nv vb
        by (simp add: unat_sub_if_size size_word.rep_eq word_le_nat_alt)
      then have "18446744073709551616 - n \<le> unat (x - dest - of_nat n)" by simp
      moreover have "v < 4294967296" using vb by simp
      ultimately have "\<not> unat (x - dest - of_nat n) < v - n" using nv by linarith
      then show ?thesis unfolding e using False by blast
    qed
    then show "fill_bytes (write_bytes (phys m) dest ?bs) (dest + of_nat n) 0 (v - n) x =
        write_bytes (phys m) dest (?bs @ replicate (v - n) 0) x"
      using len nv by (auto simp: fill_bytes_def write_bytes_def nth_append)
  qed
  ultimately show "falloc m' = falloc m" "kernel_cr3 m' = kernel_cr3 m"
    "phys m' = write_bytes (phys m) dest (section_contents s (slice_bytes m sl))"
    using nv unfolding sc by auto
qed

lemma length_section_contents:
  "unat (raw_offset s) + min (unat (raw_size s)) (unat (virtual_size s)) \<le> length data \<Longrightarrow>
   length (section_contents s data) = unat (virtual_size s)"
  by (simp add: section_contents_def Let_def)

section \<open>Properties\<close>

text \<open>\<open>allocate_contiguous\<close> returns a run of frames that were all free and are exactly the frames taken,
  and never touches memory.\<close>

theorem allocate_contiguous_frames:
  assumes "fa_inv (falloc m)" "allocate_contiguous n m = Inr (Some base, m')"
  shows "0 < n \<and> phys m' = phys m \<and> fa_inv (falloc m') \<and>
    (\<forall>i<n. base + of_nat (4096 * i) \<in> free_frames (falloc m)) \<and>
    free_frames (falloc m') = free_frames (falloc m) - (\<lambda>i. base + of_nat (4096 * i)) ` {..<n}"
  using allocate_contiguous_spec [OF assms] by blast

lemma sample_contiguous:
  "allocate_contiguous 2 sample_machine = Inr (Some 0x11000, sample_machine\<lparr>falloc :=
     \<lparr>first_frame = 0x10000, frame_count = 64, bitmap_addr = 0x10000, bitmap = [7], bitmap_words = 1\<rparr>\<rparr>)"
proof -
  have a: "allocate_frame \<lparr>first_frame = 0x10000, frame_count = 64, bitmap_addr = 0x10000, bitmap = [1], bitmap_words = 1\<rparr> =
      (Some 0x11000, \<lparr>first_frame = 0x10000, frame_count = 64, bitmap_addr = 0x10000, bitmap = [3], bitmap_words = 1\<rparr>)"
    "allocate_frame \<lparr>first_frame = 0x10000, frame_count = 64, bitmap_addr = 0x10000, bitmap = [3], bitmap_words = 1\<rparr> =
      (Some 0x12000, \<lparr>first_frame = 0x10000, frame_count = 64, bitmap_addr = 0x10000, bitmap = [7], bitmap_words = 1\<rparr>)"
    by code_simp+
  have f: "falloc sample_machine = \<lparr>first_frame = 0x10000, frame_count = 64, bitmap_addr = 0x10000, bitmap = [1], bitmap_words = 1\<rparr>"
    by (simp add: sample_machine_def)
  have s1: "alloc_frame sample_machine = (Some 0x11000, sample_machine\<lparr>falloc :=
      \<lparr>first_frame = 0x10000, frame_count = 64, bitmap_addr = 0x10000, bitmap = [3], bitmap_words = 1\<rparr>\<rparr>)"
    unfolding alloc_frame_def f a(1) prod.case ..
  have s2: "alloc_frame (sample_machine\<lparr>falloc :=
      \<lparr>first_frame = 0x10000, frame_count = 64, bitmap_addr = 0x10000, bitmap = [3], bitmap_words = 1\<rparr>\<rparr>) =
      (Some 0x12000, sample_machine\<lparr>falloc :=
      \<lparr>first_frame = 0x10000, frame_count = 64, bitmap_addr = 0x10000, bitmap = [7], bitmap_words = 1\<rparr>\<rparr>)"
    using a(2) by (simp add: alloc_frame_def)
  have n: "2 - 1 = Suc 0" by simp
  have "add_chk 0x11000 (4096 :: u64) = Inr 0x12000" by (simp add: add_chk_def)
  then show ?thesis unfolding allocate_contiguous_def s1 prod.case option.case n contiguous_from.simps s2 by simp
qed

theorem allocate_contiguous_frames_witness:
  "case allocate_contiguous 2 sample_machine of
     Inr (Some base, m') \<Rightarrow> base = 0x11000 \<and> 0x12000 \<in> free_frames (falloc sample_machine) \<and> 0x12000 \<notin> free_frames (falloc m')
   | _ \<Rightarrow> False"
  using allocate_contiguous_frames [OF sample_fa_inv sample_contiguous] unfolding sample_contiguous
  by (auto simp: numeral_2_eq_2 less_Suc_eq lessThan_Suc)

text \<open>Loading a section puts its bytes in place: the memory at the section's address holds the raw data
  followed by zeros up to the virtual size, everything else outside page tables and free frames is unchanged,
  the page table stays well-formed, and exactly one page of the address space changes its translation, however
  large the section is.\<close>

theorem map_section_loads:
  assumes wf: "pt_wf m root"
    and raw: "unat (raw_offset s) + min (unat (raw_size s)) (unat (virtual_size s)) \<le> snd sl"
    and run: "map_section s sl phys_base virt_base (Some root) m = Inr m'"
    and own: "\<forall>x. unat (x - (phys_base + ucast (virtual_address s))) < unat (virtual_size s) \<longrightarrow>
      frame_of x \<notin> tables m root \<union> free_frames (falloc m)"
  shows "read_bytes (phys m') (phys_base + ucast (virtual_address s)) (unat (virtual_size s)) =
      section_contents s (slice_bytes m sl) \<and> pt_wf m' root \<and>
    (\<forall>x. \<not> unat (x - (phys_base + ucast (virtual_address s))) < unat (virtual_size s) \<longrightarrow>
       frame_of x \<notin> tables m root \<union> free_frames (falloc m) \<longrightarrow> phys m' x = phys m x) \<and>
    (\<forall>w. \<not> same_page (virt_base + ucast (virtual_address s)) w \<longrightarrow> translate m' root w = translate m root w)"
proof -
  define dest where "dest = phys_base + ucast (virtual_address s)"
  define v where "v = unat (virtual_size s)"
  define bs where "bs = section_contents s (slice_bytes m sl)"
  obtain m1 e where d: "add_chk phys_base (ucast (virtual_address s)) = Inr dest"
    and c: "copy_section s sl dest m = Inr m1"
    and e: "add_chk virt_base (ucast (virtual_address s)) = Inr e"
    and m': "m' = snd (map_page m1 root e dest (PAGE_PRESENT OR PAGE_USER OR PAGE_WRITABLE OR PAGE_EXECUTE))"
    using run by (auto simp: map_section_def bind_res_Inr_iff add_chk_Inr_iff dest_def)
  have ev: "e = virt_base + ucast (virtual_address s)" using e by (simp add: add_chk_Inr_iff)
  note cs = copy_section_effect [OF c raw, folded bs_def]
  have len: "length bs = v" unfolding bs_def v_def by (rule length_section_contents) (use raw in \<open>simp add: slice_bytes_def\<close>)
  have vb: "v \<le> 2 ^ 64" using unat_u32_less [of "virtual_size s"] by (simp add: v_def)
  have out: "phys m1 x = phys m x" if "\<not> unat (x - dest) < v" for x
    using that cs(3) len by (simp add: write_bytes_outside)
  have outt: "phys m1 x = phys m x" if "frame_of x \<in> tables m root" for x
    using own that out [of x] unfolding dest_def v_def by blast
  note w1 = pt_wf_outside [OF wf cs(1) outt]
  obtain ok where mp: "map_page m1 root e dest (PAGE_PRESENT OR PAGE_USER OR PAGE_WRITABLE OR PAGE_EXECUTE) = (ok, m')"
    using m' by (metis prod.collapse)
  note post = map_page_post [OF w1(1) mp]
  have keep: "phys m' x = phys m1 x" if "frame_of x \<notin> tables m root \<union> free_frames (falloc m)" for x
    using post that w1(2) cs(1) by (simp add: map_post_def pt_grows_def)
  have "read_bytes (phys m') dest v = bs"
  proof -
    have "read_bytes (phys m') dest v = read_bytes (phys m1) dest v"
    proof (rule read_bytes_cong)
      fix i assume "i < v"
      then have "unat (dest + of_nat i - dest) < v" using vb by (simp add: unat_of_nat)
      then show "phys m' (dest + of_nat i) = phys m1 (dest + of_nat i)"
        using keep own unfolding dest_def v_def by blast
    qed
    also have "\<dots> = bs" using read_write_bytes_same [of bs "phys m" dest] len vb cs(3) by simp
    finally show ?thesis .
  qed
  moreover have "pt_wf m' root" using post by (simp add: map_post_def pt_grows_def)
  moreover have "translate m' root w = translate m root w" if "\<not> same_page e w" for w
    using post w1(3) that by (cases ok) (simp_all add: map_post_def same_translation_def)
  ultimately show ?thesis using keep out ev unfolding dest_def v_def bs_def by simp
qed

lemma sample_tables: "tables sample_machine 0x1000 = {0x1000}"
proof -
  have "p = []" if "path_ok p" "table_at sample_machine 0x1000 p = Some t" for p t
    using that sample_read_entry by (cases p) (auto simp: path_ok_def walk_step_eq split: option.splits)
  then have "t = 0x1000" if "t \<in> tables sample_machine 0x1000" for t
    using that unfolding tables_def by fastforce
  moreover have "0x1000 \<in> tables sample_machine 0x1000" by (rule tablesI [of "[]"]) (simp_all add: path_ok_def)
  ultimately show ?thesis by blast
qed

theorem map_section_loads_witness:
  "\<exists>m'. map_section \<lparr>sec_name = [], virtual_size = 4, virtual_address = 0x1000, raw_size = 2, raw_offset = 1\<rparr> (0x5000, 3)
       0x200000 0x140000000 (Some 0x1000) sample_machine = Inr m' \<and>
     read_bytes (phys m') 0x201000 4 = [0, 0, 0, 0]"
proof -
  let ?s = "\<lparr>sec_name = [], virtual_size = 4, virtual_address = 0x1000, raw_size = 2, raw_offset = 1\<rparr>"
  obtain m' where run: "map_section ?s (0x5000, 3) 0x200000 0x140000000 (Some 0x1000) sample_machine = Inr m'"
    by (simp add: map_section_def copy_section_def add_chk_def Let_def)
  have fr: "unat g < 0x50000" if g: "g \<in> free_frames (falloc sample_machine)" for g
  proof -
    obtain i where "i < frame_count (falloc sample_machine)" "g = frame_addr (falloc sample_machine) i"
      using g by (auto simp: free_frames_def)
    then show ?thesis using unat_frame_addr [OF sample_fa_inv, of i] by (simp add: sample_machine_def)
  qed
  have "frame_of x \<notin> tables sample_machine 0x1000 \<union> free_frames (falloc sample_machine)" if "unat (x - 0x201000) < 4" for x
  proof -
    define d where "d = x - 0x201000"
    have x: "x = 0x201000 + d" by (simp add: d_def)
    have "unat x = 0x201000 + unat d" unfolding x using that [folded d_def] by (simp add: unat_word_ariths)
    then have "0x201000 \<le> unat (frame_of x)" using that by (simp add: unat_frame_of_div)
    then show ?thesis using fr [of "frame_of x"] by (auto simp: sample_tables)
  qed
  then have "read_bytes (phys m') 0x201000 4 = section_contents ?s (slice_bytes sample_machine (0x5000, 3))"
    using map_section_loads [OF sample_pt_wf _ run] by simp
  moreover have "slice_bytes sample_machine (0x5000, 3) = [0, 0, 0]"
    unfolding slice_bytes_def sample_machine_def by (simp add: read_bytes_def upt_rec)
  moreover have "section_contents ?s [0, 0, 0] = [0, 0, 0, 0]" by code_simp
  ultimately show ?thesis using run by metis
qed

end
