(* ===== verification/Objects.thy ===== *)
theory Objects
  imports Prelude
begin

text \<open>
  The object manager's handle table (\<^verbatim>\<open>kernel/src/win32/objects.rs\<close>): 1024 slots and a
  counter that numbers the handles. An allocation takes the first free slot, but a handle
  is looked up at the slot its number names; the lemmas say when the two agree.
\<close>

datatype ObjectKind = Process | Thread | File | RegistryKey | WindowStation | Desktop

record ObjectHeader =
  obj_kind :: ObjectKind
  obj_data :: u64

type_synonym Handle = u32

record handle_table =
  slots :: "ObjectHeader option list"
  next_handle :: u32

definition MAX_HANDLES :: nat where "MAX_HANDLES = 1024"

definition initial_handles :: handle_table where
  "initial_handles = \<lparr>slots = replicate MAX_HANDLES None, next_handle = 1\<rparr>"

definition handle_index :: "Handle \<Rightarrow> nat" where
  "handle_index h = unat ((ucast h :: u64) - 1) mod MAX_HANDLES"

definition allocate :: "ObjectKind \<Rightarrow> u64 \<Rightarrow> handle_table \<Rightarrow> Handle option \<times> handle_table" where
  "allocate kind data t =
     (case position (\<lambda>slot. slot = None) (slots t) of
        None \<Rightarrow> (None, t)
      | Some index \<Rightarrow>
          (Some (next_handle t),
           t\<lparr>slots := (slots t)[index := Some \<lparr>obj_kind = kind, obj_data = data\<rparr>],
             next_handle := next_handle t + 1\<rparr>))"

definition lookup :: "handle_table \<Rightarrow> Handle \<Rightarrow> ObjectHeader option" where
  "lookup t h = slots t ! handle_index h"

definition close :: "Handle \<Rightarrow> handle_table \<Rightarrow> bool \<times> handle_table" where
  "close h t =
     (if slots t ! handle_index h \<noteq> None
      then (True, t\<lparr>slots := (slots t)[handle_index h := None]\<rparr>)
      else (False, t))"

section \<open>Handles and slots\<close>

definition table_inv :: "handle_table \<Rightarrow> bool" where
  "table_inv t \<longleftrightarrow> length (slots t) = MAX_HANDLES"

text \<open>A table whose first \<open>n\<close> slots hold \<open>os\<close> and whose handles 1 to \<open>n\<close> have been given out.\<close>

definition packed :: "ObjectHeader list \<Rightarrow> handle_table \<Rightarrow> bool" where
  "packed os t \<longleftrightarrow> length os \<le> MAX_HANDLES \<and>
     slots t = map Some os @ replicate (MAX_HANDLES - length os) None \<and>
     next_handle t = of_nat (Suc (length os))"

lemma handle_index_bound [simp]: "handle_index h < MAX_HANDLES"
  by (simp add: handle_index_def MAX_HANDLES_def)

lemma handle_index_of_nat: "i < 2 ^ 32 - 1 \<Longrightarrow> handle_index (of_nat (Suc i)) = i mod MAX_HANDLES"
proof -
  assume i: "i < 2 ^ 32 - 1"
  then have u: "unat (of_nat (Suc i) :: u32) = Suc i" by (simp add: unat_of_nat del: of_nat_Suc)
  have "(ucast (of_nat (Suc i) :: u32) :: u64) = of_nat (Suc i)"
    using u by (metis of_nat_unat)
  then have "(ucast (of_nat (Suc i) :: u32) :: u64) - 1 = of_nat i" by simp
  moreover have "unat (of_nat i :: u64) = i" using i by (simp add: unat_of_nat)
  ultimately show ?thesis by (simp add: handle_index_def)
qed

lemma handle_index_small: "i < MAX_HANDLES \<Longrightarrow> handle_index (of_nat (Suc i)) = i"
  using handle_index_of_nat [of i] by (simp add: MAX_HANDLES_def)

lemma table_inv_ops:
  assumes "table_inv t"
  shows "table_inv (snd (allocate k d t))" "table_inv (snd (close h t))"
  using assms by (auto simp: table_inv_def allocate_def close_def split: option.splits)

lemma table_inv_initial: "table_inv initial_handles"
  by (simp add: table_inv_def initial_handles_def)

lemma packed_initial: "packed [] initial_handles"
  by (simp add: packed_def initial_handles_def)

lemma packed_inv: "packed os t \<Longrightarrow> table_inv t"
  by (auto simp: packed_def table_inv_def)

lemma packed_position:
  assumes "packed os t" "length os < MAX_HANDLES"
  shows "position (\<lambda>slot. slot = None) (slots t) = Some (length os)"
  using assms by (intro position_SomeI) (auto simp: packed_def nth_append)

lemma packed_allocate:
  assumes "packed os t" "length os < MAX_HANDLES"
  shows "allocate k d t = (Some (of_nat (Suc (length os))), snd (allocate k d t))"
    "packed (os @ [\<lparr>obj_kind = k, obj_data = d\<rparr>]) (snd (allocate k d t))"
proof -
  note p = packed_position [OF assms]
  show "allocate k d t = (Some (of_nat (Suc (length os))), snd (allocate k d t))"
    using assms p by (simp add: allocate_def packed_def)
  obtain r where r: "MAX_HANDLES - length os = Suc r" using assms(2) by (metis Suc_diff_Suc)
  then have "MAX_HANDLES - Suc (length os) = r" by simp
  with r show "packed (os @ [\<lparr>obj_kind = k, obj_data = d\<rparr>]) (snd (allocate k d t))"
    using assms p by (simp add: packed_def allocate_def list_update_append)
qed

lemma packed_lookup:
  assumes "packed os t" "i < MAX_HANDLES"
  shows "lookup t (of_nat (Suc i)) = (if i < length os then Some (os ! i) else None)"
  using assms by (simp add: lookup_def handle_index_small packed_def nth_append del: of_nat_Suc)

lemma lookup_close:
  assumes "table_inv t"
  shows "lookup (snd (close h t)) h' = (if handle_index h' = handle_index h then None else lookup t h')"
  using assms by (auto simp: lookup_def close_def table_inv_def)

fun allocate_all :: "(ObjectKind \<times> u64) list \<Rightarrow> handle_table \<Rightarrow> Handle option list \<times> handle_table" where
  "allocate_all [] t = ([], t)"
| "allocate_all ((k, d) # os) t =
     (case allocate k d t of (h, t1) \<Rightarrow> case allocate_all os t1 of (hs, t2) \<Rightarrow> (h # hs, t2))"

definition header :: "ObjectKind \<times> u64 \<Rightarrow> ObjectHeader" where
  "header o1 = \<lparr>obj_kind = fst o1, obj_data = snd o1\<rparr>"

lemma allocate_all_packed:
  assumes "packed ps t" "length ps + length os \<le> MAX_HANDLES" "allocate_all os t = (hs, t')"
  shows "packed (ps @ map header os) t'"
    "hs = map (\<lambda>i. Some (of_nat (Suc (length ps + i)))) [0..<length os]"
proof -
  have "packed (ps @ map header os) t' \<and> hs = map (\<lambda>i. Some (of_nat (Suc (length ps + i)))) [0..<length os]"
    using assms
  proof (induction os arbitrary: ps t hs)
    case (Cons o1 os)
    obtain k d where o1: "o1 = (k, d)" by fastforce
    let ?t1 = "snd (allocate k d t)"
    have lt: "length ps < MAX_HANDLES" using Cons.prems(2) by simp
    note a = packed_allocate [OF Cons.prems(1) lt, of k d]
    obtain gs where gs: "allocate_all os ?t1 = (gs, t')" "hs = Some (of_nat (Suc (length ps))) # gs"
      using Cons.prems(3) a(1) o1 by (auto split: prod.splits)
    have hd: "header o1 = \<lparr>obj_kind = k, obj_data = d\<rparr>" by (simp add: header_def o1)
    from Cons.IH [OF a(2) _ gs(1)] Cons.prems(2)
    have "packed (ps @ map header (o1 # os)) t'"
      "gs = map (\<lambda>i. Some (of_nat (Suc (Suc (length ps) + i)))) [0..<length os]"
      by (simp_all add: hd)
    moreover have "map (\<lambda>i. Some (of_nat (Suc (length ps + i)))) [0..<length (o1 # os)] =
      Some (of_nat (Suc (length ps))) # map (\<lambda>i. Some (of_nat (Suc (Suc (length ps) + i)) :: u32)) [0..<length os]"
      by (simp add: upt_conv_Cons map_Suc_upt [symmetric] comp_def del: upt_Suc of_nat_Suc of_nat_add)
    ultimately show ?case using gs(2) by simp
  qed simp
  then show "packed (ps @ map header os) t'"
    "hs = map (\<lambda>i. Some (of_nat (Suc (length ps + i)))) [0..<length os]" by blast+
qed

lemma packed_close_allocate:
  assumes "packed os t" "length os < MAX_HANDLES" "i < length os"
    and "allocate kind data (snd (close (of_nat (Suc i)) t)) = (h, t')"
  shows "h = Some (of_nat (Suc (length os))) \<and> lookup t' (of_nat (Suc (length os))) = None \<and>
    lookup t' (of_nat (Suc i)) = Some \<lparr>obj_kind = kind, obj_data = data\<rparr>"
proof -
  let ?c = "snd (close (of_nat (Suc i)) t)"
  have ix: "handle_index (of_nat (Suc i)) = i" "handle_index (of_nat (Suc (length os))) = length os"
    using handle_index_small assms(2,3) by (simp_all del: of_nat_Suc)
  have len: "length (slots t) = MAX_HANDLES" using packed_inv [OF assms(1)] by (simp add: table_inv_def)
  have sl: "slots t ! j = (if j < length os then Some (os ! j) else None)" if "j < MAX_HANDLES" for j
    using assms(1) that by (simp add: packed_def nth_append)
  have c: "slots ?c = (slots t)[i := None]" "next_handle ?c = of_nat (Suc (length os))"
    using sl [of i] assms(1-3) by (simp_all add: close_def ix packed_def del: of_nat_Suc)
  have "position (\<lambda>slot. slot = None) (slots ?c) = Some i"
    by (rule position_SomeI) (use c(1) len sl assms(2,3) in auto)
  then have "h = Some (of_nat (Suc (length os)))"
    "slots t' = (slots t)[i := Some \<lparr>obj_kind = kind, obj_data = data\<rparr>]"
    using assms(4) c by (auto simp: allocate_def)
  then show ?thesis using ix len sl [of "length os"] assms(2,3) by (simp add: lookup_def del: of_nat_Suc)
qed

section \<open>Properties\<close>

text \<open>As long as no handle has been closed, handles behave as an object table: allocating up to 1024
  objects gives the handles 1, 2, ... and afterwards the \<open>i\<close>-th handle looks up the \<open>i\<close>-th object.\<close>

theorem handles_without_close:
  assumes "length os \<le> MAX_HANDLES" "allocate_all os initial_handles = (hs, t)" "i < length os"
  shows "hs ! i = Some (of_nat (Suc i)) \<and> lookup t (of_nat (Suc i)) = Some (header (os ! i))"
proof -
  note a = allocate_all_packed [OF packed_initial _ assms(2)]
  have "i < MAX_HANDLES" using assms by simp
  then show ?thesis using a packed_lookup [of "map header os" t i] assms by simp
qed

theorem handles_without_close_witness:
  "lookup (snd (allocate_all [(File, 7), (Process, 9)] initial_handles)) (of_nat (Suc 1)) = Some (header (Process, 9))"
proof -
  obtain hs t where "allocate_all [(File, 7), (Process, 9)] initial_handles = (hs, t)" by fastforce
  with handles_without_close [of "[(File, 7), (Process, 9)]" hs t 1] show ?thesis
    by (simp add: MAX_HANDLES_def)
qed

text \<open>Closing a handle makes exactly the handles of its slot dangle: those whose numbers agree with it
  modulo 1024; every other handle still looks up its object.\<close>

theorem close_frame:
  assumes "table_inv t"
  shows "table_inv (snd (close h t)) \<and> fst (close h t) = (lookup t h \<noteq> None) \<and> lookup (snd (close h t)) h = None \<and>
    (\<forall>h'. handle_index h' \<noteq> handle_index h \<longrightarrow> lookup (snd (close h t)) h' = lookup t h')"
  using lookup_close [OF assms] table_inv_ops(2) [OF assms] by (auto simp: close_def lookup_def)

theorem close_frame_witness: "lookup (snd (close 3 initial_handles)) 3 = None"
  using close_frame [OF table_inv_initial, of 3] by simp

text \<open>The first allocation after a close returns a handle that does not work. With \<open>n < 1024\<close> handles given
  out and handle \<open>i\<close> closed, the new object is stored in the slot of the closed handle: the new handle
  \<open>n + 1\<close> looks up nothing, and the closed handle looks up the new object.\<close>

theorem allocate_after_close_mismatch:
  assumes "packed os t" "length os < MAX_HANDLES" "i < length os"
    and "allocate kind data (snd (close (of_nat (Suc i)) t)) = (h, t')"
  shows "h = Some (of_nat (Suc (length os))) \<and> lookup t' (of_nat (Suc (length os))) = None \<and>
    lookup t' (of_nat (Suc i)) = Some \<lparr>obj_kind = kind, obj_data = data\<rparr>"
  by (rule packed_close_allocate [OF assms])

theorem allocate_after_close_mismatch_witness:
  "let t = snd (allocate_all [(File, 1), (File, 2)] initial_handles);
       (h, t') = allocate Thread 3 (snd (close 1 t))
   in h = Some 3 \<and> lookup t' 3 = None \<and> lookup t' 1 = Some \<lparr>obj_kind = Thread, obj_data = 3\<rparr>"
proof -
  obtain hs t where t: "allocate_all [(File, 1), (File, 2)] initial_handles = (hs, t)" by fastforce
  from allocate_all_packed(1) [OF packed_initial _ t]
  have p: "packed [header (File, 1), header (File, 2)] t" by (simp add: MAX_HANDLES_def)
  obtain h t' where a: "allocate Thread 3 (snd (close (of_nat (Suc 0)) t)) = (h, t')" by fastforce
  from allocate_after_close_mismatch [OF p _ _ a] have
    "h = Some 3" "lookup t' 3 = None" "lookup t' 1 = Some \<lparr>obj_kind = Thread, obj_data = 3\<rparr>"
    by (simp_all add: MAX_HANDLES_def)
  with t a show ?thesis by simp
qed

end
