(* ===== verification/Bounded_Fifo.thy ===== *)
theory Bounded_Fifo
  imports Prelude
begin

text \<open>
  The interface of a bounded first-in first-out queue, as the kernel's two queues provide
  it: the scheduler's ready queue and the keyboard's scancode buffer. A push onto a full
  queue is refused and changes nothing; a pop takes the oldest element.
\<close>

fun push_all :: "('a \<Rightarrow> 's \<Rightarrow> 's option) \<Rightarrow> 'a list \<Rightarrow> 's \<Rightarrow> 's option" where
  "push_all push [] s = Some s"
| "push_all push (x # xs) s = (case push x s of None \<Rightarrow> None | Some s' \<Rightarrow> push_all push xs s')"

fun pop_n :: "('s \<Rightarrow> ('a \<times> 's) option) \<Rightarrow> nat \<Rightarrow> 's \<Rightarrow> 'a list \<times> 's" where
  "pop_n pop 0 s = ([], s)"
| "pop_n pop (Suc n) s =
     (case pop s of None \<Rightarrow> ([], s) | Some (x, s') \<Rightarrow> (case pop_n pop n s' of (xs, s'') \<Rightarrow> (x # xs, s'')))"

locale bounded_fifo =
  fixes push :: "'a \<Rightarrow> 's \<Rightarrow> 's option"
    and pop :: "'s \<Rightarrow> ('a \<times> 's) option"
    and contents :: "'s \<Rightarrow> 'a list"
    and capacity :: nat
    and inv :: "'s \<Rightarrow> bool"
  assumes push_room: "inv s \<Longrightarrow> length (contents s) < capacity \<Longrightarrow>
      \<exists>s'. push x s = Some s' \<and> inv s' \<and> contents s' = contents s @ [x]"
    and push_full: "inv s \<Longrightarrow> length (contents s) = capacity \<Longrightarrow> push x s = None"
    and pop_empty: "inv s \<Longrightarrow> contents s = [] \<Longrightarrow> pop s = None"
    and pop_head: "inv s \<Longrightarrow> contents s = x # xs \<Longrightarrow> \<exists>s'. pop s = Some (x, s') \<and> inv s' \<and> contents s' = xs"
    and bounded: "inv s \<Longrightarrow> length (contents s) \<le> capacity"
begin

lemma push_SomeD: "inv s \<Longrightarrow> push x s = Some s' \<Longrightarrow> inv s' \<and> contents s' = contents s @ [x]"
  by (metis bounded le_neq_implies_less option.distinct(1) option.inject push_full push_room)

lemma push_None_iff: "inv s \<Longrightarrow> push x s = None \<longleftrightarrow> length (contents s) = capacity"
  by (metis bounded le_neq_implies_less option.distinct(1) push_full push_room)

lemma pop_SomeD: "inv s \<Longrightarrow> pop s = Some (x, s') \<Longrightarrow> inv s' \<and> contents s = x # contents s'"
  by (cases "contents s") (use pop_empty pop_head in fastforce)+

lemma pop_None_iff: "inv s \<Longrightarrow> pop s = None \<longleftrightarrow> contents s = []"
  by (cases "contents s") (use pop_empty pop_head in fastforce)+

lemma push_all_spec:
  "inv s \<Longrightarrow> length (contents s) + length xs \<le> capacity \<Longrightarrow>
   \<exists>s'. push_all push xs s = Some s' \<and> inv s' \<and> contents s' = contents s @ xs"
proof (induction xs arbitrary: s)
  case (Cons x xs)
  then obtain s1 where s1: "push x s = Some s1" "inv s1" "contents s1 = contents s @ [x]"
    using push_room [of s x] by auto
  with Cons.IH [of s1] Cons.prems show ?case by auto
qed simp

lemma pop_n_spec:
  "inv s \<Longrightarrow> \<exists>s'. pop_n pop n s = (take n (contents s), s') \<and> inv s' \<and> contents s' = drop n (contents s)"
proof (induction n arbitrary: s)
  case (Suc n)
  show ?case
  proof (cases "contents s")
    case Nil
    then show ?thesis using Suc.prems pop_empty by simp
  next
    case (Cons x xs)
    obtain s1 where s1: "pop s = Some (x, s1)" "inv s1" "contents s1 = xs"
      using pop_head [OF Suc.prems Cons] by blast
    from Suc.IH [OF s1(2)] show ?thesis using s1 Cons by fastforce
  qed
qed simp

text \<open>What is pushed onto an empty queue comes out in the same order.\<close>

lemma fifo_order:
  assumes "inv s" "contents s = []" "length xs \<le> capacity"
  shows "\<exists>s1 s2. push_all push xs s = Some s1 \<and> pop_n pop (length xs) s1 = (xs, s2) \<and> contents s2 = [] \<and> inv s2"
proof -
  from push_all_spec [of s xs] assms obtain s1 where s1: "push_all push xs s = Some s1" "inv s1" "contents s1 = xs" by auto
  with pop_n_spec [of s1 "length xs"] show ?thesis by auto
qed

end

end
