(* ===== verification/Context_Switch.thy ===== *)
theory Context_Switch
  imports Memory
begin

text \<open>
  The context switch (\<^verbatim>\<open>kernel/src/arch/x86_64/context_switch.rs\<close>) and the timer interrupt's
  assembly (\<^verbatim>\<open>kernel/src/arch/x86_64/interrupts.rs\<close>). The assembly is a function on the
  registers it touches and the memory behind the stack pointer; the addresses of code
  (\<open>thread_entry_stub\<close>, a return address) are arguments.
\<close>

record cpu =
  cpu_rsp :: u64
  cpu_rip :: u64
  cpu_rbp :: u64
  cpu_rbx :: u64
  cpu_r12 :: u64
  cpu_r13 :: u64
  cpu_r14 :: u64
  cpu_r15 :: u64

definition STACK_SIZE :: u64 where "STACK_SIZE = 64 * 1024"

definition stack_size :: u64 where "stack_size = STACK_SIZE"

text \<open>\<open>switch\<close>, on entry: the return address is on top of the stack. Its two halves around
  \<^verbatim>\<open>mov [rdi], rsp; mov rsp, rsi\<close>.\<close>

definition switch_save :: "cpu \<Rightarrow> mem \<Rightarrow> u64 \<times> mem" where
  "switch_save c m =
     push_list [cpu_rbp c, cpu_rbx c, cpu_r12 c, cpu_r13 c, cpu_r14 c, cpu_r15 c] (cpu_rsp c, m)"

definition switch_restore :: "u64 \<Rightarrow> mem \<Rightarrow> cpu" where
  "switch_restore rsp m =
     \<lparr>cpu_rsp = rsp + 56, cpu_rip = read_u64 m (rsp + 48), cpu_rbp = read_u64 m (rsp + 40),
      cpu_rbx = read_u64 m (rsp + 32), cpu_r12 = read_u64 m (rsp + 24), cpu_r13 = read_u64 m (rsp + 16),
      cpu_r14 = read_u64 m (rsp + 8), cpu_r15 = read_u64 m rsp\<rparr>"

definition switch :: "cpu \<Rightarrow> u64 \<Rightarrow> mem \<Rightarrow> u64 \<times> cpu \<times> mem" where
  "switch c new_rsp m = (case switch_save c m of (saved, m') \<Rightarrow> (saved, switch_restore new_rsp m', m'))"

text \<open>\<^verbatim>\<open>pop rdi; call rdi\<close>, with the address of the following instruction as return address.\<close>

definition thread_entry_stub :: "u64 \<Rightarrow> cpu \<Rightarrow> mem \<Rightarrow> cpu \<times> mem" where
  "thread_entry_stub after_call c m =
     (let rdi = read_u64 m (cpu_rsp c);
          (rsp, m') = push_u64 (cpu_rsp c + 8, m) after_call
      in (c\<lparr>cpu_rsp := rsp, cpu_rip := rdi\<rparr>, m'))"

definition initial_stack :: "u64 \<Rightarrow> u64 \<Rightarrow> u64 \<Rightarrow> mem \<Rightarrow> u64 \<times> mem" where
  "initial_stack stub entry_point stack_top m =
     push_list [entry_point, stub, 0, 0, 0, 0, 0, 0] (stack_top, m)"

text \<open>
  The timer handler. The registers are listed as rax, rcx, rdx, rbx, rsi, rdi, rbp, r8, ..., r15;
  \<open>preempt\<close> maps the saved frame's address to the frame to resume. The result is the state before
  \<^verbatim>\<open>iretq\<close>.
\<close>

definition set_al :: "u64 \<Rightarrow> u8 \<Rightarrow> u64" where
  "set_al rax b = (rax AND NOT 0xFF) OR ucast b"

definition timer_interrupt_handler :: "(u64 \<Rightarrow> u64) \<Rightarrow> u64 list \<Rightarrow> u64 \<Rightarrow> mem \<Rightarrow> u64 list \<times> u64 \<times> mem" where
  "timer_interrupt_handler preempt regs rsp m =
     (let rax = read_u64 m (rsp + 8) AND 3; regs1 = regs[0 := rax]
      in if rax \<noteq> 3 then (regs1[0 := set_al (regs1 ! 0) 0x20], rsp, m)
         else case push_list (rev regs1) (rsp, m) of (frame, m') \<Rightarrow>
                let new = preempt frame; regs2 = pop_list 15 new m'
                in (regs2[0 := set_al (regs2 ! 0) 0x20], new + 120, m'))"

section \<open>Properties\<close>

lemma pop_list_nth: "i < n \<Longrightarrow> pop_list n r m ! i = read_u64 m (r + of_nat (8 * i))"
  by (simp add: pop_list_def)

lemma switch_restore_pop:
  "switch_restore r m =
     (let p = pop_list 7 r m in
      \<lparr>cpu_rsp = r + 56, cpu_rip = p ! 6, cpu_rbp = p ! 5, cpu_rbx = p ! 4, cpu_r12 = p ! 3, cpu_r13 = p ! 2,
       cpu_r14 = p ! 1, cpu_r15 = p ! 0\<rparr>)"
  by (simp add: switch_restore_def pop_list_nth Let_def)

text \<open>C15: a thread that is switched away and back resumes with its callee-saved registers, behind the call of
  \<open>switch\<close>: if the seven words from the saved stack pointer are as \<open>switch\<close> left them, restoring yields
  the registers at entry, with the return address popped into the instruction pointer.\<close>

theorem switch_roundtrip:
  assumes "switch c new_rsp m = (saved, c', m')" "pop_list 7 saved m2 = pop_list 7 saved m'"
  shows "switch_restore saved m2 = c\<lparr>cpu_rsp := cpu_rsp c + 8, cpu_rip := read_u64 m (cpu_rsp c)\<rparr>"
proof -
  let ?vs = "[cpu_rbp c, cpu_rbx c, cpu_r12 c, cpu_r13 c, cpu_r14 c, cpu_r15 c]"
  have s: "saved = fst (push_list ?vs (cpu_rsp c, m))" "m' = snd (push_list ?vs (cpu_rsp c, m))"
    using assms(1) by (auto simp: switch_def switch_save_def split: prod.splits)
  have sv: "saved = cpu_rsp c - 48" unfolding s(1) push_list_rsp by simp
  have p6: "pop_list 6 saved m' = rev ?vs" using pop_push_list [of ?vs 6 "cpu_rsp c" m] s by simp
  have "pop_list 7 saved m' ! i = rev ?vs ! i" if "i < 6" for i
    using that arg_cong [OF p6, of "\<lambda>xs. xs ! i"] by (simp add: pop_list_nth)
  moreover have "pop_list 7 saved m' ! 6 = read_u64 m (cpu_rsp c)"
    using push_list_read [of ?vs 0 "cpu_rsp c" m] unfolding s(2) sv by (simp add: pop_list_nth)
  ultimately show ?thesis unfolding switch_restore_pop Let_def assms(2)
    by (simp add: sv nth_Cons' )
qed

theorem switch_roundtrip_witness:
  "let c = \<lparr>cpu_rsp = 0x8000, cpu_rip = 0, cpu_rbp = 1, cpu_rbx = 2, cpu_r12 = 3, cpu_r13 = 4, cpu_r14 = 5, cpu_r15 = 6\<rparr>;
       (saved, c', m') = switch c 0x9000 (\<lambda>_. 0)
   in cpu_r12 (switch_restore saved m') = 3 \<and> cpu_rsp (switch_restore saved m') = 0x8008"
proof -
  let ?c = "\<lparr>cpu_rsp = 0x8000, cpu_rip = 0, cpu_rbp = 1, cpu_rbx = 2, cpu_r12 = 3, cpu_r13 = 4, cpu_r14 = 5, cpu_r15 = 6\<rparr>"
  obtain saved c' m' where s: "switch ?c 0x9000 (\<lambda>_. 0) = (saved, c', m')" by (metis prod.exhaust)
  from switch_roundtrip [OF s refl] s show ?thesis by simp
qed

text \<open>C26: the first switch to a new thread, followed by the entry stub, arrives at the thread's entry point with
  all callee-saved registers zero and the stack pointer eight below the top of the stack, which is the
  alignment the calling convention asks for when the top is 16-byte aligned.\<close>

theorem first_switch_enters_thread:
  assumes "initial_stack stub entry_point stack_top m = (rsp, m1)"
  shows "cpu_rip (switch_restore rsp m1) = stub \<and>
    fst (thread_entry_stub after_call (switch_restore rsp m1) m1) =
      \<lparr>cpu_rsp = stack_top - 8, cpu_rip = entry_point, cpu_rbp = 0, cpu_rbx = 0, cpu_r12 = 0, cpu_r13 = 0, cpu_r14 = 0, cpu_r15 = 0\<rparr> \<and>
    read_u64 (snd (thread_entry_stub after_call (switch_restore rsp m1) m1)) (stack_top - 8) = after_call"
proof -
  let ?vs = "[entry_point, stub, 0, 0, 0, 0, 0, 0]"
  have s: "rsp = fst (push_list ?vs (stack_top, m))" "m1 = snd (push_list ?vs (stack_top, m))"
    using assms by (auto simp: initial_stack_def)
  have sv: "rsp = stack_top - 64" unfolding s(1) push_list_rsp by simp
  have p: "pop_list 8 rsp m1 = rev ?vs" using pop_push_list [of ?vs 8 stack_top m] s by simp
  have rd: "read_u64 m1 (rsp + of_nat (8 * i)) = rev ?vs ! i" if "i < 8" for i
    using that arg_cong [OF p, of "\<lambda>xs. xs ! i"] by (simp add: pop_list_nth)
  have c: "switch_restore rsp m1 = \<lparr>cpu_rsp = stack_top - 8, cpu_rip = stub, cpu_rbp = 0, cpu_rbx = 0, cpu_r12 = 0,
      cpu_r13 = 0, cpu_r14 = 0, cpu_r15 = 0\<rparr>"
    using rd [of 0] rd [of 1] rd [of 2] rd [of 3] rd [of 4] rd [of 5] rd [of 6]
    by (simp add: switch_restore_def sv)
  have "read_u64 m1 (stack_top - 8) = entry_point" using rd [of 7] by (simp add: sv)
  then show ?thesis unfolding c by (simp add: thread_entry_stub_def push_u64_def Let_def)
qed

theorem first_switch_enters_thread_witness:
  "let (rsp, m1) = initial_stack 0x40 0x1234 0x10000 (\<lambda>_. 0)
   in cpu_rip (fst (thread_entry_stub 0x44 (switch_restore rsp m1) m1)) = 0x1234"
proof -
  obtain rsp m1 where s: "initial_stack 0x40 0x1234 0x10000 (\<lambda>_. 0) = (rsp, m1)" by fastforce
  from first_switch_enters_thread [OF s, of "0x44"] s show ?thesis by simp
qed

text \<open>C39: a timer interrupt that resumes the same frame restores every register but rax, which is destroyed: the
  handler uses rax to test the privilege level before saving it, so the interrupted code continues
  with rax = 0x20 (the byte sent to the interrupt controller), in ring 0 and in ring 3 alike.\<close>

theorem timer_interrupt_destroys_rax:
  assumes "length regs = 15" "\<And>frame. preempt frame = frame"
    and "timer_interrupt_handler preempt regs rsp m = (regs', rsp', m')"
  shows "regs' = regs[0 := 0x20] \<and> rsp' = rsp"
proof -
  let ?rax = "read_u64 m (rsp + 8) AND 3"
  have al: "set_al ?rax 0x20 = 0x20"
  proof -
    have "(w AND 3) AND NOT 0xFF = (0 :: u64)" for w by (simp add: and.assoc)
    then show ?thesis by (simp add: set_al_def)
  qed
  show ?thesis
  proof (cases "?rax = 3")
    case False
    then show ?thesis using assms al by (auto simp: timer_interrupt_handler_def Let_def)
  next
    case True
    let ?vs = "rev (regs[0 := ?rax])"
    let ?p = "push_list ?vs (rsp, m)"
    have pop: "pop_list 15 (fst ?p) (snd ?p) = regs[0 := ?rax]"
      using pop_push_list [of ?vs 15 rsp m] assms(1) by simp
    have r: "fst ?p + 120 = rsp" unfolding push_list_rsp using assms(1) by simp
    have "timer_interrupt_handler preempt regs rsp m =
        ((regs[0 := ?rax])[0 := set_al (regs[0 := ?rax] ! 0) 0x20], fst ?p + 120, snd ?p)"
      using True pop assms(2) by (simp add: timer_interrupt_handler_def Let_def case_prod_beta)
    then show ?thesis using assms(1,3) al r by simp
  qed
qed

theorem timer_interrupt_destroys_rax_witness:
  "fst (timer_interrupt_handler (\<lambda>f. f) (replicate 15 7) 0x8000 (\<lambda>_. 0)) = 0x20 # replicate 14 7"
proof -
  obtain r s m' where t: "timer_interrupt_handler (\<lambda>f. f) (replicate 15 7) 0x8000 (\<lambda>_. 0) = (r, s, m')"
    by (metis prod.exhaust)
  have "r = (replicate 15 7)[0 := 0x20]" using timer_interrupt_destroys_rax [OF _ _ t] by simp
  moreover have "(replicate 15 7)[0 := 0x20] = (0x20 :: u64) # replicate 14 7" by (simp add: numeral_eq_Suc)
  ultimately show ?thesis using t by simp
qed

end
