(* ===== verification/Scheduler.thy ===== *)
theory Scheduler
  imports Address_Space Bump_Heap Bounded_Fifo Context_Switch
begin

text \<open>
  Threads and the scheduler (\<^verbatim>\<open>kernel/src/win32/thread.rs\<close>, \<^verbatim>\<open>kernel/src/win32/scheduler.rs\<close>). The
  static tables are fields of the kernel's state, together with what the scheduler uses
  of the rest of the kernel: page tables and frames (\<open>mach\<close>), the early heap, the stack
  pointers loaded on a trap. An uninitialised slot of \<open>THREAD_STORAGE\<close> is \<open>None\<close>; the
  invariant shows that no operation ever reads one. The addresses of \<open>thread_entry_stub\<close> and
  \<open>thread_exit\<close> are arguments.
\<close>

datatype ThreadState = Ready | Running | Blocked | Exited

datatype Register = Rax | Rcx | Rdx | Rbx | Rsp | Rbp | Rsi | Rdi | R8 | R9 | R10 | R11 | R12 | R13 | R14 | R15

fun reg_index :: "Register \<Rightarrow> nat" where
  "reg_index Rax = 0" | "reg_index Rcx = 1" | "reg_index Rdx = 2" | "reg_index Rbx = 3"
| "reg_index Rsp = 4" | "reg_index Rbp = 5" | "reg_index Rsi = 6" | "reg_index Rdi = 7"
| "reg_index R8 = 8" | "reg_index R9 = 9" | "reg_index R10 = 10" | "reg_index R11 = 11"
| "reg_index R12 = 12" | "reg_index R13 = 13" | "reg_index R14 = 14" | "reg_index R15 = 15"

record thread =
  tid :: u64
  pid :: u64
  entry_point :: u64
  stack_base :: u64
  stack_limit :: u64
  saved_rsp :: u64
  user_rsp :: u64
  user_rip :: u64
  process_page_table_root :: u64
  tstate :: ThreadState
  regs :: "u64 list"
  interrupt_rsp :: u64

definition new_thread :: "u64 \<Rightarrow> u64 \<Rightarrow> u64 \<Rightarrow> thread" where
  "new_thread t p entry =
     \<lparr>tid = t, pid = p, entry_point = entry, stack_base = 0, stack_limit = 0, saved_rsp = 0, user_rsp = 0,
      user_rip = entry, process_page_table_root = 0, tstate = Ready, regs = replicate 16 0, interrupt_rsp = 0\<rparr>"

definition read_reg :: "thread \<Rightarrow> Register \<Rightarrow> u64" where
  "read_reg t r = regs t ! reg_index r"

definition write_reg :: "thread \<Rightarrow> Register \<Rightarrow> u64 \<Rightarrow> thread" where
  "write_reg t r v = t\<lparr>regs := (regs t)[reg_index r := v]\<rparr>"

record kernel =
  mach :: machine
  heap :: bump_allocator
  storage :: "thread option list"
  thread_used :: "bool list"
  ready_queue :: "nat option list"
  current_thread :: "nat option"
  idle_rsp :: u64
  next_tid :: u64
  tss_rsp0 :: u64
  syscall_rsp :: u64

definition MAX_THREADS :: nat where "MAX_THREADS = 16"
definition USER_STACK_SIZE :: u64 where "USER_STACK_SIZE = 64 * 1024"
definition USER_STACK_VIRT :: u64 where "USER_STACK_VIRT = 0x70000"

section \<open>The ready queue\<close>

definition enqueue :: "nat \<Rightarrow> nat option list \<Rightarrow> nat option list option" where
  "enqueue slot q = map_option (\<lambda>index. q[index := Some slot]) (position (\<lambda>s. s = None) q)"

definition shift_down :: "nat \<Rightarrow> 'a list \<Rightarrow> 'a list" where
  "shift_down from q = fold (\<lambda>i q. q[i := q ! (i + 1)]) [from..<length q - 1] q"

definition dequeue :: "nat option list \<Rightarrow> (nat \<times> nat option list) option" where
  "dequeue q =
     (case position (\<lambda>s. s \<noteq> None) q of
        None \<Rightarrow> None
      | Some head \<Rightarrow>
          (case q ! head of
             None \<Rightarrow> None
           | Some slot \<Rightarrow>
               Some (slot, (shift_down head (q[head := None]))[length q - 1 := None])))"

text \<open>The queued slots in order, when there is no gap.\<close>

definition queue_list :: "nat option list \<Rightarrow> nat list" where
  "queue_list q = map the (takeWhile (\<lambda>s. s \<noteq> None) q)"

definition queue_inv :: "nat option list \<Rightarrow> bool" where
  "queue_inv q \<longleftrightarrow> (\<exists>xs. length xs \<le> MAX_THREADS \<and> q = map Some xs @ replicate (MAX_THREADS - length xs) None)"

lemma takeWhile_queue: "takeWhile (\<lambda>s. s \<noteq> None) (map Some xs @ replicate n None) = map Some xs"
  by (induction xs) (cases n; simp)+

lemma queue_list_eq [simp]: "queue_list (map Some xs @ replicate n None) = xs"
  by (simp only: queue_list_def takeWhile_queue) (simp add: comp_def)

lemma queue_invE:
  assumes "queue_inv q"
  obtains xs where "length xs \<le> MAX_THREADS" "q = map Some xs @ replicate (MAX_THREADS - length xs) None" "queue_list q = xs"
  using assms by (auto simp: queue_inv_def)

lemma fold_shift:
  "i \<le> n \<Longrightarrow> n < length q \<Longrightarrow>
   fold (\<lambda>i q. q[i := q ! (i + 1)]) [i..<n] q = take i q @ take (n - i) (drop (Suc i) q) @ drop n q"
proof (induction n)
  case (Suc n)
  show ?case
  proof (cases "i = Suc n")
    case False
    then have i: "i \<le> n" "n < length q" using Suc.prems by auto
    let ?f = "take i q @ take (n - i) (drop (Suc i) q) @ drop n q"
    have len: "length ?f = length q" using i by simp
    have nth: "?f ! Suc n = q ! Suc n" using i Suc.prems by (auto simp: nth_append)
    have "?f[n := q ! Suc n] = take i q @ take (n - i) (drop (Suc i) q) @ q ! Suc n # drop (Suc n) q"
      using i Suc.prems by (simp add: list_update_append Cons_nth_drop_Suc [symmetric])
    also have "\<dots> = take i q @ take (Suc n - i) (drop (Suc i) q) @ drop (Suc n) q"
      using i Suc.prems by (simp add: Suc_diff_le take_Suc_conv_app_nth)
    finally show ?thesis using Suc.IH [OF i] i nth by simp
  qed (simp add: append_take_drop_id)
qed simp

lemma shift_down_head: "shift_down 0 (x # xs) = xs @ [last (x # xs)]"
proof -
  have "shift_down 0 (x # xs) = take (length xs) xs @ drop (length xs) (x # xs)"
    unfolding shift_down_def by (subst fold_shift) simp_all
  moreover have "drop (length xs) (x # xs) = [last (x # xs)]"
    by (induction xs arbitrary: x) auto
  ultimately show ?thesis by simp
qed

lemma dequeue_Cons: "dequeue (Some s # q) = Some (s, q @ [None])"
proof -
  have "shift_down 0 (None # q) = q @ [last (None # q)]" by (rule shift_down_head)
  then show ?thesis by (simp add: dequeue_def)
qed

interpretation rq: bounded_fifo enqueue dequeue queue_list MAX_THREADS queue_inv
proof
  fix q x xs
  assume inv: "queue_inv q"
  then obtain ys where ys: "length ys \<le> MAX_THREADS" "q = map Some ys @ replicate (MAX_THREADS - length ys) None"
    "queue_list q = ys" by (rule queue_invE)
  show "\<exists>q'. enqueue x q = Some q' \<and> queue_inv q' \<and> queue_list q' = queue_list q @ [x]"
    if "length (queue_list q) < MAX_THREADS"
  proof -
    have lt: "length ys < MAX_THREADS" using that ys(3) by simp
    then obtain r where r: "MAX_THREADS - length ys = Suc r" "MAX_THREADS - Suc (length ys) = r"
      by (metis Suc_diff_Suc)
    have "position (\<lambda>s. s = None) q = Some (length ys)"
      using lt by (intro position_SomeI) (auto simp: ys(2) nth_append)
    then have e: "enqueue x q = Some (map Some (ys @ [x]) @ replicate (MAX_THREADS - length (ys @ [x])) None)"
      using r by (simp add: enqueue_def ys(2) list_update_append)
    have "queue_inv (map Some (ys @ [x]) @ replicate (MAX_THREADS - length (ys @ [x])) None)"
      unfolding queue_inv_def using lt by (intro exI [of _ "ys @ [x]"]) simp
    with e ys(3) queue_list_eq [of "ys @ [x]"] show ?thesis by blast
  qed
  show "enqueue x q = None" if "length (queue_list q) = MAX_THREADS"
    using that ys by (simp add: enqueue_def position_None_iff)
  show "dequeue q = None" if "queue_list q = []"
  proof -
    have "position (\<lambda>s. s \<noteq> None) q = None" using that ys by (simp add: position_None_iff)
    then show ?thesis by (simp add: dequeue_def)
  qed
  show "\<exists>q'. dequeue q = Some (x, q') \<and> queue_inv q' \<and> queue_list q' = xs" if "queue_list q = x # xs"
  proof -
    have ys': "ys = x # xs" using that ys(3) by simp
    have "replicate (MAX_THREADS - length ys) None @ [None] = replicate (MAX_THREADS - length xs) (None :: nat option)"
      using ys(1) ys' by (simp add: replicate_append_same Suc_diff_le flip: replicate_Suc)
    then have q': "dequeue q = Some (x, map Some xs @ replicate (MAX_THREADS - length xs) None)"
      by (simp add: ys(2) ys' dequeue_Cons)
    moreover have "queue_inv (map Some xs @ replicate (MAX_THREADS - length xs) None)"
      unfolding queue_inv_def using ys(1) ys' by (intro exI [of _ xs]) simp
    ultimately show ?thesis by simp
  qed
  show "length (queue_list q) \<le> MAX_THREADS" using ys by simp
qed

section \<open>Operations\<close>

definition alloc_thread_slot :: "kernel \<Rightarrow> nat option" where
  "alloc_thread_slot k = position (\<lambda>in_use. \<not> in_use) (thread_used k)"

definition enqueue_thread :: "nat \<Rightarrow> kernel \<Rightarrow> bool \<times> kernel" where
  "enqueue_thread slot k =
     (case enqueue slot (ready_queue k) of None \<Rightarrow> (False, k) | Some q \<Rightarrow> (True, k\<lparr>ready_queue := q\<rparr>))"

definition dequeue_thread :: "kernel \<Rightarrow> nat option \<times> kernel" where
  "dequeue_thread k =
     (case dequeue (ready_queue k) of None \<Rightarrow> (None, k) | Some (slot, q) \<Rightarrow> (Some slot, k\<lparr>ready_queue := q\<rparr>))"

definition thread_mut :: "kernel \<Rightarrow> nat \<Rightarrow> thread option" where
  "thread_mut k slot = (if slot \<ge> MAX_THREADS then None else storage k ! slot)"

definition set_thread :: "nat \<Rightarrow> thread \<Rightarrow> kernel \<Rightarrow> kernel" where
  "set_thread slot t k = k\<lparr>storage := (storage k)[slot := Some t]\<rparr>"

definition kernel_alloc :: "u64 \<Rightarrow> u64 \<Rightarrow> kernel \<Rightarrow> (u64 option \<times> kernel) res" where
  "kernel_alloc sz align k = map_res (\<lambda>(r, h). (r, k\<lparr>heap := h\<rparr>)) (alloc_early sz align (heap k))"

text \<open>The user stack: identity address without a page table, a fixed address with one.\<close>

definition map_user_stack :: "u64 \<Rightarrow> u64 \<Rightarrow> u64 \<Rightarrow> kernel \<Rightarrow> (u64 \<times> kernel) res" where
  "map_user_stack cr3 ustack_base ustack_top k =
     (if cr3 = 0 then Inr (ustack_top, k)
      else
        bind_res (case page_table_root cr3 of
                    None \<Rightarrow> Inr k
                  | Some root \<Rightarrow>
                      map_res (\<lambda>(_, m). k\<lparr>mach := m\<rparr>)
                        (map_region (mach k) root USER_STACK_VIRT ustack_base (unat (USER_STACK_SIZE div 4096))
                           (PAGE_PRESENT OR PAGE_USER OR PAGE_WRITABLE)))
          (\<lambda>k'. map_res (\<lambda>usp. (usp, k')) (add_chk USER_STACK_VIRT USER_STACK_SIZE)))"

definition init_kernel_stack :: "u64 \<Rightarrow> u64 \<Rightarrow> u64 \<Rightarrow> kernel \<Rightarrow> u64 \<times> kernel" where
  "init_kernel_stack stub entry stack_top k =
     (case initial_stack stub entry stack_top (phys (mach k)) of
        (rsp, m) \<Rightarrow> (rsp, k\<lparr>mach := (mach k)\<lparr>phys := m\<rparr>\<rparr>))"

definition create_thread :: "u64 \<Rightarrow> u64 \<Rightarrow> u64 \<Rightarrow> u64 \<Rightarrow> kernel \<Rightarrow> (nat option \<times> kernel) res" where
  "create_thread stub p entry cr3 k =
     (case alloc_thread_slot k of
        None \<Rightarrow> Inr (None, k)
      | Some slot \<Rightarrow>
          bind_res (kernel_alloc stack_size 16 k) (\<lambda>(r1, k1).
          case r1 of None \<Rightarrow> Inr (None, k1) | Some kstack_base \<Rightarrow>
          bind_res (add_chk kstack_base stack_size) (\<lambda>kstack_top.
          case init_kernel_stack stub entry kstack_top k1 of (initial_rsp, k2) \<Rightarrow>
          bind_res (kernel_alloc USER_STACK_SIZE 4096 k2) (\<lambda>(r3, k3).
          case r3 of None \<Rightarrow> Inr (None, k3) | Some ustack_base \<Rightarrow>
          bind_res (add_chk ustack_base USER_STACK_SIZE) (\<lambda>ustack_top.
          bind_res (map_user_stack cr3 ustack_base ustack_top k3) (\<lambda>(usp, k4).
          let t = (new_thread (next_tid k4) p entry)
                    \<lparr>stack_base := kstack_base, stack_limit := kstack_base, saved_rsp := initial_rsp,
                     user_rsp := usp, user_rip := entry, process_page_table_root := cr3, tstate := Ready\<rparr>;
              k5 = set_thread slot t (k4\<lparr>next_tid := next_tid k4 + 1\<rparr>);
              k6 = k5\<lparr>thread_used := (thread_used k5)[slot := True]\<rparr>
          in case enqueue_thread slot k6 of (ok, k7) \<Rightarrow> Inr (if ok then Some slot else None, k7)))))))"

definition with_current_thread :: "(thread \<Rightarrow> 'r \<times> thread) \<Rightarrow> kernel \<Rightarrow> 'r option \<times> kernel" where
  "with_current_thread f k =
     (case current_thread k of
        None \<Rightarrow> (None, k)
      | Some slot \<Rightarrow>
          (case thread_mut k slot of
             None \<Rightarrow> (None, k)
           | Some t \<Rightarrow> (case f t of (r, t') \<Rightarrow> (Some r, set_thread slot t' k))))"

text \<open>The first half of \<open>preempt\<close>: park the interrupted thread at the tail of the queue.\<close>

definition park_current :: "u64 \<Rightarrow> kernel \<Rightarrow> kernel" where
  "park_current irsp k =
     (case current_thread k of
        None \<Rightarrow> k
      | Some slot \<Rightarrow>
          (case thread_mut k slot of
             None \<Rightarrow> k
           | Some cur \<Rightarrow>
               if tstate cur \<noteq> Exited
               then snd (enqueue_thread slot (set_thread slot (cur\<lparr>interrupt_rsp := irsp, tstate := Ready\<rparr>) k))
               else k))"

definition preempt :: "u64 \<Rightarrow> kernel \<Rightarrow> (u64 \<times> kernel) res" where
  "preempt irsp k =
     (case dequeue_thread (park_current irsp k) of
        (None, k2) \<Rightarrow> Inr (irsp, k2)
      | (Some next_slot, k2) \<Rightarrow>
          (case thread_mut k2 next_slot of
             None \<Rightarrow> Inr (irsp, k2)
           | Some next \<Rightarrow>
               if interrupt_rsp next = 0 then Inr (irsp, snd (enqueue_thread next_slot k2))
               else
                 let k3 = (set_thread next_slot (next\<lparr>tstate := Running\<rparr>) k2)\<lparr>current_thread := Some next_slot\<rparr>
                 in map_res (\<lambda>kstack_top. (interrupt_rsp next, k3\<lparr>tss_rsp0 := kstack_top\<rparr>))
                      (add_chk (stack_base next) stack_size)))"

text \<open>
  \<open>schedule\<close>, called with the processor state at the call of \<open>switch\<close>; the result is the
  processor state it resumes. The old stack pointer goes to the thread control block or to
  \<open>IDLE_RSP\<close>.
\<close>

definition switch_to :: "nat \<Rightarrow> u64 \<Rightarrow> cpu \<Rightarrow> kernel \<Rightarrow> (cpu \<times> kernel) res" where
  "switch_to next_slot new_rsp c k =
     (case current_thread k of
        Some slot \<Rightarrow>
          (case thread_mut k slot of
             None \<Rightarrow> Inl Expect_Failed
           | Some cur \<Rightarrow>
               let k1 = (if tstate cur \<noteq> Exited
                         then snd (enqueue_thread slot (set_thread slot (cur\<lparr>tstate := Ready\<rparr>) k))
                         else k);
                   cur1 = (if tstate cur \<noteq> Exited then cur\<lparr>tstate := Ready\<rparr> else cur)
               in case switch c new_rsp (phys (mach k1)) of (saved, c', m) \<Rightarrow>
                    Inr (c', (set_thread slot (cur1\<lparr>saved_rsp := saved\<rparr>) k1)
                              \<lparr>current_thread := Some next_slot, mach := (mach k1)\<lparr>phys := m\<rparr>\<rparr>))
      | None \<Rightarrow>
          (case switch c new_rsp (phys (mach k)) of (saved, c', m) \<Rightarrow>
             Inr (c', k\<lparr>idle_rsp := saved, current_thread := Some next_slot, mach := (mach k)\<lparr>phys := m\<rparr>\<rparr>)))"

definition schedule :: "cpu \<Rightarrow> kernel \<Rightarrow> (cpu \<times> kernel) res" where
  "schedule c k =
     (case dequeue_thread k of
        (None, k1) \<Rightarrow> Inr (c, k1)
      | (Some next_slot, k1) \<Rightarrow>
          (case thread_mut k1 next_slot of
             None \<Rightarrow> Inr (c, k1)
           | Some next \<Rightarrow>
               switch_to next_slot (saved_rsp next) c (set_thread next_slot (next\<lparr>tstate := Running\<rparr>) k1)))"

definition yield_current :: "cpu \<Rightarrow> kernel \<Rightarrow> (cpu \<times> kernel) res" where
  "yield_current c k = schedule c k"

definition mark_exited :: "kernel \<Rightarrow> kernel" where
  "mark_exited k =
     (case current_thread k of
        None \<Rightarrow> k
      | Some slot \<Rightarrow>
          (case thread_mut k slot of None \<Rightarrow> k | Some cur \<Rightarrow> set_thread slot (cur\<lparr>tstate := Exited\<rparr>) k))"

definition thread_exit :: "cpu \<Rightarrow> kernel \<Rightarrow> (cpu \<times> kernel) res" where
  "thread_exit c k = schedule c (mark_exited k)"

text \<open>
  Entering a thread for the first time. Neither function returns; the result is the state and
  what the processor continues with: the halt for a missing slot, the interpreter loop, or
  user mode after storing the address of \<open>thread_exit\<close> at a (virtual) stack address.
\<close>

datatype entry =
  Halt
| Interpret u64
| User_Mode (entry_cr3: "u64 option") (entry_rip: u64) (entry_rsp: u64) (stored_at: u64) (stored: u64)

definition start_thread :: "nat \<Rightarrow> thread \<Rightarrow> kernel \<Rightarrow> kernel" where
  "start_thread slot t k = (set_thread slot (t\<lparr>tstate := Running\<rparr>) k)\<lparr>current_thread := Some slot\<rparr>"

definition enter_interpreter :: "nat \<Rightarrow> kernel \<Rightarrow> entry \<times> kernel" where
  "enter_interpreter slot k =
     (case thread_mut k slot of
        None \<Rightarrow> (Halt, k)
      | Some t \<Rightarrow> (Interpret (entry_point t), start_thread slot t k))"

definition enter_user_mode :: "u64 \<Rightarrow> nat \<Rightarrow> kernel \<Rightarrow> (entry \<times> kernel) res" where
  "enter_user_mode exit_addr slot k =
     (case thread_mut k slot of
        None \<Rightarrow> Inr (Halt, k)
      | Some t \<Rightarrow>
          let k1 = start_thread slot t k; cr3 = process_page_table_root t; usp = user_rsp t - 8
          in map_res (\<lambda>kstack_top.
               (User_Mode (if cr3 \<noteq> 0 then Some cr3 else None) (user_rip t) usp usp exit_addr,
                k1\<lparr>syscall_rsp := kstack_top, tss_rsp0 := kstack_top\<rparr>))
             (add_chk (stack_base t) stack_size))"

section \<open>Invariant\<close>

definition live :: "kernel \<Rightarrow> nat \<Rightarrow> bool" where
  "live k s \<longleftrightarrow> s < MAX_THREADS \<and> (\<exists>t. storage k ! s = Some t \<and> unat (stack_base t) + unat stack_size < 2 ^ 64)"

definition sched_inv :: "kernel \<Rightarrow> bool" where
  "sched_inv k \<longleftrightarrow> length (storage k) = MAX_THREADS \<and> length (thread_used k) = MAX_THREADS \<and> queue_inv (ready_queue k) \<and>
     (\<forall>i<MAX_THREADS. thread_used k ! i \<longrightarrow> live k i) \<and>
     (\<forall>s\<in>set (queue_list (ready_queue k)). live k s) \<and> (\<forall>s. current_thread k = Some s \<longrightarrow> live k s)"

lemma sched_invD:
  assumes "sched_inv k"
  shows "length (storage k) = MAX_THREADS" "length (thread_used k) = MAX_THREADS" "queue_inv (ready_queue k)"
    "\<And>s. s \<in> set (queue_list (ready_queue k)) \<Longrightarrow> live k s" "\<And>s. current_thread k = Some s \<Longrightarrow> live k s"
    "\<And>i. i < MAX_THREADS \<Longrightarrow> thread_used k ! i \<Longrightarrow> live k i"
  using assms by (auto simp: sched_inv_def)

lemma live_thread_mut: "live k s \<Longrightarrow> \<exists>t. thread_mut k s = Some t \<and> unat (stack_base t) + unat stack_size < 2 ^ 64"
  by (auto simp: live_def thread_mut_def)

lemma thread_mut_SomeD: "thread_mut k s = Some t \<Longrightarrow> s < MAX_THREADS \<and> storage k ! s = Some t"
  by (auto simp: thread_mut_def split: if_splits)

lemma set_thread_simps [simp]:
  "ready_queue (set_thread s t k) = ready_queue k" "current_thread (set_thread s t k) = current_thread k"
  "thread_used (set_thread s t k) = thread_used k" "mach (set_thread s t k) = mach k"
  "storage (set_thread s t k) = (storage k)[s := Some t]"
  by (simp_all add: set_thread_def)

lemma live_cong: "storage k' = storage k \<Longrightarrow> live k' = live k"
  by (simp add: live_def fun_eq_iff)

lemma live_set_thread:
  assumes "length (storage k) = MAX_THREADS" "live k s'" "unat (stack_base t) + unat stack_size < 2 ^ 64"
  shows "live (set_thread s t k) s'"
  using assms by (cases "s' = s") (auto simp: live_def)

lemma sched_inv_set_thread:
  assumes "sched_inv k" "unat (stack_base t) + unat stack_size < 2 ^ 64"
  shows "sched_inv (set_thread s t k)"
  using assms live_set_thread [OF sched_invD(1) [OF assms(1)] _ assms(2)] unfolding sched_inv_def by auto

lemma enqueue_thread_cases:
  assumes "queue_inv (ready_queue k)"
  shows "(fst (enqueue_thread s k) \<and> (\<exists>q. snd (enqueue_thread s k) = k\<lparr>ready_queue := q\<rparr> \<and> queue_inv q \<and>
        queue_list q = queue_list (ready_queue k) @ [s])) \<or>
    (\<not> fst (enqueue_thread s k) \<and> snd (enqueue_thread s k) = k \<and> length (queue_list (ready_queue k)) = MAX_THREADS)"
  using rq.push_SomeD [OF assms, of s] rq.push_None_iff [OF assms, of s]
  by (auto simp: enqueue_thread_def split: option.splits)

lemma sched_inv_enqueue:
  assumes "sched_inv k" "live k s"
  shows "sched_inv (snd (enqueue_thread s k))" "storage (snd (enqueue_thread s k)) = storage k"
    "current_thread (snd (enqueue_thread s k)) = current_thread k" "mach (snd (enqueue_thread s k)) = mach k"
proof -
  note c = enqueue_thread_cases [OF sched_invD(3) [OF assms(1)], of s]
  have "live (k\<lparr>ready_queue := q\<rparr>) = live k" for q by (rule live_cong) simp
  then show "sched_inv (snd (enqueue_thread s k))" using c assms unfolding sched_inv_def by auto
  show "storage (snd (enqueue_thread s k)) = storage k" "current_thread (snd (enqueue_thread s k)) = current_thread k"
    "mach (snd (enqueue_thread s k)) = mach k" using c by auto
qed

lemma dequeue_thread_cases:
  assumes "sched_inv k" "dequeue_thread k = (r, k1)"
  shows "(r = None \<and> k1 = k \<and> queue_list (ready_queue k) = []) \<or>
    (\<exists>s q. r = Some s \<and> k1 = k\<lparr>ready_queue := q\<rparr> \<and> queue_list (ready_queue k) = s # queue_list q \<and>
       live k s \<and> sched_inv k1)"
proof (cases "dequeue (ready_queue k)")
  case None
  then show ?thesis using assms rq.pop_None_iff [OF sched_invD(3) [OF assms(1)]] by (simp add: dequeue_thread_def)
next
  case (Some a)
  then obtain s q where sq: "dequeue (ready_queue k) = Some (s, q)" by (cases a) auto
  note d = rq.pop_SomeD [OF sched_invD(3) [OF assms(1)] sq]
  have "live (k\<lparr>ready_queue := q\<rparr>) = live k" by (rule live_cong) simp
  then show ?thesis using assms sq d sched_invD(4) [OF assms(1)] unfolding sched_inv_def
    by (auto simp: dequeue_thread_def)
qed

lemma sched_inv_current: "sched_inv k \<Longrightarrow> live k s \<Longrightarrow> sched_inv (k\<lparr>current_thread := Some s\<rparr>)"
  using live_cong [of "k\<lparr>current_thread := Some s\<rparr>" k] unfolding sched_inv_def by auto

text \<open>Fields the invariant does not mention.\<close>

lemma sched_inv_irrelevant [simp]:
  "sched_inv (k\<lparr>mach := m\<rparr>) = sched_inv k" "sched_inv (k\<lparr>heap := h\<rparr>) = sched_inv k"
  "sched_inv (k\<lparr>idle_rsp := r\<rparr>) = sched_inv k" "sched_inv (k\<lparr>tss_rsp0 := r\<rparr>) = sched_inv k"
  "sched_inv (k\<lparr>syscall_rsp := r\<rparr>) = sched_inv k" "sched_inv (k\<lparr>next_tid := n\<rparr>) = sched_inv k"
  by (simp_all add: sched_inv_def live_def)

section \<open>The operations keep the invariant and do not panic\<close>

definition runnable :: "kernel \<Rightarrow> nat option \<Rightarrow> nat list" where
  "runnable k c =
     (case c of
        None \<Rightarrow> []
      | Some s \<Rightarrow> (case storage k ! s of None \<Rightarrow> [] | Some t \<Rightarrow> if tstate t = Exited then [] else [s]))"

definition exited :: "kernel \<Rightarrow> nat \<Rightarrow> bool" where
  "exited k s \<longleftrightarrow> (\<exists>t. storage k ! s = Some t \<and> tstate t = Exited)"

lemma exited_set_thread:
  "s < length (storage k) \<Longrightarrow> exited (set_thread s t k) x = (if x = s then tstate t = Exited else exited k x)"
  by (simp add: exited_def)

lemma sched_inv_setters:
  assumes "sched_inv k" "live k s"
  shows "sched_inv (k\<lparr>current_thread := Some s, mach := m\<rparr>)" "sched_inv (k\<lparr>idle_rsp := r, current_thread := Some s, mach := m\<rparr>)"
  using sched_inv_current [OF assms] sched_inv_current [of "k\<lparr>idle_rsp := r\<rparr>" s] live_cong [of "k\<lparr>idle_rsp := r\<rparr>" k] assms
  by simp_all

lemma switch_to_spec:
  assumes inv: "sched_inv k" and n: "live k nxt" and room: "length (queue_list (ready_queue k)) < MAX_THREADS"
  shows "\<exists>saved m k'. switch c r (phys (mach k)) = (saved, switch_restore r m, m) \<and>
    switch_to nxt r c k = Inr (switch_restore r m, k') \<and> sched_inv k' \<and>
    current_thread k' = Some nxt \<and>
    queue_list (ready_queue k') = queue_list (ready_queue k) @ runnable k (current_thread k) \<and>
    (\<forall>s. current_thread k \<noteq> Some s \<longrightarrow> storage k' ! s = storage k ! s) \<and> mach k' = (mach k)\<lparr>phys := m\<rparr> \<and>
    (\<forall>s. exited k' s = exited k s)"
proof -
  obtain saved m where sw: "switch c r (phys (mach k)) = (saved, switch_restore r m, m)"
    by (cases "switch_save c (phys (mach k))") (simp add: switch_def)
  show ?thesis
  proof (cases "current_thread k")
    case None
    then show ?thesis using sw sched_inv_setters(2) [OF inv n] by (simp add: switch_to_def runnable_def exited_def)
  next
    case (Some s)
    from live_thread_mut [OF sched_invD(5) [OF inv Some]] obtain t
      where t: "thread_mut k s = Some t" "unat (stack_base t) + unat stack_size < 2 ^ 64" by blast
    note st = thread_mut_SomeD [OF t(1)]
    have sl: "s < length (storage k)" using st sched_invD(1) [OF inv] by simp
    show ?thesis
    proof (cases "tstate t = Exited")
      case True
      let ?k = "set_thread s (t\<lparr>saved_rsp := saved\<rparr>) k"
      have i: "sched_inv ?k" "live ?k nxt"
        using sched_inv_set_thread [OF inv] live_set_thread [OF sched_invD(1) [OF inv] n] t(2) by simp_all
      then show ?thesis using Some t True sw st sl sched_inv_setters(1) [OF i]
        by (auto simp: switch_to_def runnable_def exited_def nth_list_update)
    next
      case False
      let ?k1 = "set_thread s (t\<lparr>tstate := Ready\<rparr>) k"
      let ?k2 = "snd (enqueue_thread s ?k1)"
      have i1: "sched_inv ?k1" "live ?k1 s" "live ?k1 nxt"
        using sched_inv_set_thread [OF inv] live_set_thread [OF sched_invD(1) [OF inv]] t(2) n sched_invD(5) [OF inv Some]
        by simp_all
      note e = sched_inv_enqueue [OF i1(1,2)]
      have q: "queue_list (ready_queue ?k2) = queue_list (ready_queue k) @ [s]"
        using enqueue_thread_cases [OF sched_invD(3) [OF i1(1)], of s] room by auto
      let ?k3 = "set_thread s (t\<lparr>tstate := Ready, saved_rsp := saved\<rparr>) ?k2"
      have i3: "sched_inv ?k3" using sched_inv_set_thread [OF e(1)] t(2) by simp
      have l2: "live ?k2 nxt" using i1(3) live_cong [OF e(2)] by simp
      have "live ?k3 nxt" using live_set_thread [OF sched_invD(1) [OF e(1)] l2] t(2) by simp
      from sched_inv_setters(1) [OF i3 this] show ?thesis using Some t False sw st sl e q
        by (auto simp: switch_to_def runnable_def Let_def exited_def nth_list_update)
    qed
  qed
qed

lemma schedule_empty: "sched_inv k \<Longrightarrow> queue_list (ready_queue k) = [] \<Longrightarrow> schedule c k = Inr (c, k)"
  using dequeue_thread_cases [of k] by (auto simp: schedule_def split: prod.splits)

lemma schedule_spec:
  assumes inv: "sched_inv k" and q: "queue_list (ready_queue k) = s # xs" and t: "storage k ! s = Some t"
  shows "\<exists>saved m k'. switch c (saved_rsp t) (phys (mach k)) = (saved, switch_restore (saved_rsp t) m, m) \<and>
    schedule c k = Inr (switch_restore (saved_rsp t) m, k') \<and> sched_inv k' \<and> current_thread k' = Some s \<and>
    queue_list (ready_queue k') = xs @ (if current_thread k = Some s then [s] else runnable k (current_thread k)) \<and>
    (current_thread k \<noteq> Some s \<longrightarrow> storage k' ! s = Some (t\<lparr>tstate := Running\<rparr>)) \<and>
    (\<forall>x. exited k' x = (exited k x \<and> x \<noteq> s))"
proof -
  obtain r k1 where dq: "dequeue_thread k = (r, k1)" by fastforce
  from dequeue_thread_cases [OF inv dq] q obtain q' where
    k1: "r = Some s" "k1 = k\<lparr>ready_queue := q'\<rparr>" "queue_list q' = xs" "live k s" "sched_inv k1" by auto
  from live_thread_mut [OF k1(4)] t obtain sb: "thread_mut k s = Some t" "unat (stack_base t) + unat stack_size < 2 ^ 64"
    by (auto simp: thread_mut_def split: if_splits)
  let ?k2 = "set_thread s (t\<lparr>tstate := Running\<rparr>) k1"
  have tm: "thread_mut k1 s = Some t" using sb(1) by (auto simp: k1(2) thread_mut_def split: if_splits)
  have i2: "sched_inv ?k2" using sched_inv_set_thread [OF k1(5)] sb(2) by simp
  have "live k1 s" using k1(4) live_cong [of k1 k] k1(2) by simp
  then have l2: "live ?k2 s" using live_set_thread [OF sched_invD(1) [OF k1(5)]] sb(2) by simp
  have "length (queue_list (ready_queue k)) \<le> MAX_THREADS" by (rule rq.bounded [OF sched_invD(3) [OF inv]])
  then have room: "length (queue_list (ready_queue ?k2)) < MAX_THREADS" using q k1(2,3) by simp
  have sl: "s < length (storage k)" using k1(4) sched_invD(1) [OF inv] by (simp add: live_def)
  have run: "runnable ?k2 (current_thread ?k2) = (if current_thread k = Some s then [s] else runnable k (current_thread k))"
    using sl by (auto simp: runnable_def k1(2) split: option.splits)
  have ex: "exited ?k2 x = (exited k x \<and> x \<noteq> s)" for x
    using sl by (auto simp: exited_def k1(2) nth_list_update)
  from switch_to_spec [OF i2 l2 room, of c "saved_rsp t"] show ?thesis
    using dq k1(1-3) tm run sl unfolding ex by (auto simp: schedule_def)
qed

lemma schedule_total:
  assumes "sched_inv k"
  shows "\<exists>c' k'. schedule c k = Inr (c', k') \<and> sched_inv k'"
proof (cases "queue_list (ready_queue k)")
  case Nil
  then show ?thesis using schedule_empty [OF assms] assms by blast
next
  case (Cons s xs)
  then obtain t where "storage k ! s = Some t" using sched_invD(4) [OF assms, of s] by (auto simp: live_def)
  from schedule_spec [OF assms Cons this] show ?thesis by blast
qed

lemma sched_inv_mark_exited: "sched_inv k \<Longrightarrow> sched_inv (mark_exited k)"
proof -
  assume inv: "sched_inv k"
  have "sched_inv (set_thread s (t\<lparr>tstate := Exited\<rparr>) k)" if "current_thread k = Some s" "thread_mut k s = Some t" for s t
    using sched_inv_set_thread [OF inv] live_thread_mut [OF sched_invD(5) [OF inv that(1)]] that(2) by simp
  with inv show ?thesis by (auto simp: mark_exited_def split: option.splits)
qed

lemma sched_inv_park: "sched_inv k \<Longrightarrow> sched_inv (park_current r k)"
proof -
  assume inv: "sched_inv k"
  have "sched_inv (snd (enqueue_thread s (set_thread s (t\<lparr>interrupt_rsp := r, tstate := Ready\<rparr>) k)))"
    if "current_thread k = Some s" "thread_mut k s = Some t" for s t
  proof -
    have sb: "unat (stack_base t) + unat stack_size < 2 ^ 64"
      using live_thread_mut [OF sched_invD(5) [OF inv that(1)]] that(2) by simp
    show ?thesis
      by (rule sched_inv_enqueue(1))
        (use sched_inv_set_thread [OF inv] live_set_thread [OF sched_invD(1) [OF inv] sched_invD(5) [OF inv that(1)]] sb in simp_all)
  qed
  with inv show ?thesis by (auto simp: park_current_def split: option.splits)
qed

lemma preempt_total:
  assumes "sched_inv k"
  shows "\<exists>r k'. preempt irsp k = Inr (r, k') \<and> sched_inv k'"
proof -
  note p = sched_inv_park [OF assms, of irsp]
  obtain r k2 where dq: "dequeue_thread (park_current irsp k) = (r, k2)" by fastforce
  from dequeue_thread_cases [OF p dq] show ?thesis
  proof (elim disjE exE conjE)
    assume "r = None" "k2 = park_current irsp k"
    then show ?thesis using dq p by (simp add: preempt_def)
  next
    fix s q
    assume r: "r = Some s" "k2 = (park_current irsp k)\<lparr>ready_queue := q\<rparr>" "live (park_current irsp k) s" "sched_inv k2"
    have l: "live k2 s" using r(3) live_cong [of k2 "park_current irsp k"] r(2) by simp
    then obtain t where t: "thread_mut k2 s = Some t" "unat (stack_base t) + unat stack_size < 2 ^ 64"
      using live_thread_mut by blast
    let ?k3 = "set_thread s (t\<lparr>tstate := Running\<rparr>) k2"
    have k3: "sched_inv ?k3" "live ?k3 s"
      using sched_inv_set_thread [OF r(4)] live_set_thread [OF sched_invD(1) [OF r(4)] l] t(2) by simp_all
    have "add_chk (stack_base t) stack_size = Inr (stack_base t + stack_size)" using t(2) by (simp add: add_chk_def)
    then show ?thesis using dq r(1) t sched_inv_current [OF k3] sched_inv_enqueue(1) [OF r(4) l]
      by (simp add: preempt_def Let_def)
  qed
qed

lemma sched_inv_start:
  assumes "sched_inv k" "thread_mut k s = Some t" "unat (stack_base t) + unat stack_size < 2 ^ 64"
  shows "sched_inv (start_thread s t k)"
proof -
  have "live k s" using assms(2,3) thread_mut_SomeD by (auto simp: live_def)
  then show ?thesis unfolding start_thread_def
    using sched_inv_set_thread [OF assms(1)] live_set_thread [OF sched_invD(1) [OF assms(1)]] assms(3)
    by (intro sched_inv_current) simp_all
qed

lemma kernel_alloc_Inr: "kernel_alloc sz al k = Inr (r, k') \<Longrightarrow> \<exists>h. k' = k\<lparr>heap := h\<rparr>"
  by (auto simp: kernel_alloc_def map_res_Inr_iff split: prod.splits)

lemma kernel_mach_self: "\<exists>m. k = k\<lparr>mach := m\<rparr>"
  by (rule exI [of _ "mach k"]) simp

lemma map_user_stack_Inr: "map_user_stack cr3 b tp k = Inr (u, k') \<Longrightarrow> \<exists>m. k' = k\<lparr>mach := m\<rparr>"
  by (auto simp: map_user_stack_def bind_res_Inr_iff map_res_Inr_iff kernel_mach_self
      split: if_splits option.splits prod.splits)

lemma sched_inv_new_thread:
  assumes "sched_inv k" "s < MAX_THREADS" "unat (stack_base t) + unat stack_size < 2 ^ 64"
  shows "sched_inv ((set_thread s t k)\<lparr>thread_used := (thread_used k)[s := True]\<rparr>)"
    "live ((set_thread s t k)\<lparr>thread_used := (thread_used k)[s := True]\<rparr>) s"
proof -
  let ?k = "(set_thread s t k)\<lparr>thread_used := (thread_used k)[s := True]\<rparr>"
  note i = sched_inv_set_thread [OF assms(1,3), of s]
  have l: "live ?k = live (set_thread s t k)" by (rule live_cong) simp
  have ls: "live (set_thread s t k) s" using assms sched_invD(1) [OF assms(1)] by (simp add: live_def)
  then show "live ?k s" unfolding l .
  have "live (set_thread s t k) j" if "j < MAX_THREADS" "(thread_used k)[s := True] ! j" for j
    using that sched_invD(6) [OF i, of j] ls by (cases "j = s") auto
  then show "sched_inv ?k" using i unfolding sched_inv_def l by simp
qed

lemma create_thread_Inr:
  assumes inv: "sched_inv k" and run: "create_thread stub p e cr3 k = Inr (r, k')"
  shows "sched_inv k'" "current_thread k' = current_thread k"
    "case r of None \<Rightarrow> queue_list (ready_queue k') = queue_list (ready_queue k)
     | Some s \<Rightarrow> alloc_thread_slot k = Some s \<and> queue_list (ready_queue k') = queue_list (ready_queue k) @ [s] \<and>
         (\<exists>t. storage k' = (storage k)[s := Some t] \<and> thread_used k' = (thread_used k)[s := True] \<and>
           entry_point t = e \<and> user_rip t = e \<and> tid t = next_tid k \<and> pid t = p \<and> tstate t = Ready \<and>
           process_page_table_root t = cr3 \<and> interrupt_rsp t = 0)"
proof -
  have "sched_inv k' \<and> current_thread k' = current_thread k \<and> (case r of None \<Rightarrow> queue_list (ready_queue k') = queue_list (ready_queue k)
     | Some s \<Rightarrow> alloc_thread_slot k = Some s \<and> queue_list (ready_queue k') = queue_list (ready_queue k) @ [s] \<and>
         (\<exists>t. storage k' = (storage k)[s := Some t] \<and> thread_used k' = (thread_used k)[s := True] \<and>
           entry_point t = e \<and> user_rip t = e \<and> tid t = next_tid k \<and> pid t = p \<and> tstate t = Ready \<and>
           process_page_table_root t = cr3 \<and> interrupt_rsp t = 0))"
  proof (cases "alloc_thread_slot k")
    case None
    then show ?thesis using assms by (simp add: create_thread_def)
  next
    case (Some slot)
    then have slot: "slot < MAX_THREADS"
      using position_SomeD(1) [of _ "thread_used k" slot] sched_invD(2) [OF inv] by (simp add: alloc_thread_slot_def)
    obtain r1 k1 where a1: "kernel_alloc stack_size 16 k = Inr (r1, k1)"
      using run Some by (auto simp: create_thread_def bind_res_Inr_iff)
    from kernel_alloc_Inr [OF a1] obtain h1 where k1: "k1 = k\<lparr>heap := h1\<rparr>" by blast
    show ?thesis
    proof (cases r1)
      case r1: None
      then show ?thesis using run Some a1 k1 inv by (auto simp: create_thread_def)
    next
      case r1: (Some kb)
      obtain kt where kt: "add_chk kb stack_size = Inr kt" using run Some a1 r1
        by (auto simp: create_thread_def bind_res_Inr_iff)
      have kb: "unat kb + unat stack_size < 2 ^ 64" using kt by (simp add: add_chk_Inr_iff)
      obtain ir m2 where i2: "init_kernel_stack stub e kt k1 = (ir, k1\<lparr>mach := m2\<rparr>)"
        by (cases "initial_stack stub e kt (phys (mach k1))") (simp add: init_kernel_stack_def)
      obtain r3 k3 where a3: "kernel_alloc USER_STACK_SIZE 4096 (k1\<lparr>mach := m2\<rparr>) = Inr (r3, k3)"
        using run Some a1 r1 kt i2 by (auto simp: create_thread_def bind_res_Inr_iff)
      from kernel_alloc_Inr [OF a3] obtain h3 where k3: "k3 = k\<lparr>mach := m2, heap := h3\<rparr>" using k1 by auto
      show ?thesis
      proof (cases r3)
        case r3: None
        then show ?thesis using run Some a1 r1 kt i2 a3 k3 inv by (auto simp: create_thread_def)
      next
        case r3: (Some ub)
        obtain ut usp k4 where u: "add_chk ub USER_STACK_SIZE = Inr ut" "map_user_stack cr3 ub ut k3 = Inr (usp, k4)"
          using run Some a1 r1 kt i2 a3 r3 by (auto simp: create_thread_def bind_res_Inr_iff)
        from map_user_stack_Inr [OF u(2)] obtain m4 where k4: "k4 = k\<lparr>heap := h3, mach := m4\<rparr>" using k3 by auto
        let ?t = "(new_thread (next_tid k4) p e)\<lparr>stack_base := kb, stack_limit := kb, saved_rsp := ir,
           user_rsp := usp, user_rip := e, process_page_table_root := cr3, tstate := Ready\<rparr>"
        let ?k5 = "k4\<lparr>next_tid := next_tid k4 + 1\<rparr>"
        let ?k6 = "(set_thread slot ?t ?k5)\<lparr>thread_used := (thread_used ?k5)[slot := True]\<rparr>"
        have i4: "sched_inv ?k5" using inv by (simp add: k4)
        have sb: "unat (stack_base ?t) + unat stack_size < 2 ^ 64" using kb by simp
        note i6 = sched_inv_new_thread [OF i4 slot sb]
        have fin: "(r, k') = (case enqueue_thread slot ?k6 of (ok, k7) \<Rightarrow> (if ok then Some slot else None, k7))"
          using run Some a1 r1 kt i2 a3 r3 u by (simp add: create_thread_def Let_def case_prod_beta)
        note e7 = sched_inv_enqueue [OF i6]
        from enqueue_thread_cases [OF sched_invD(3) [OF i6(1)], of slot] fin e7 Some show ?thesis
          by (auto simp: k4 new_thread_def case_prod_beta)
      qed
    qed
  qed
  then show "sched_inv k'" "current_thread k' = current_thread k"
    "case r of None \<Rightarrow> queue_list (ready_queue k') = queue_list (ready_queue k)
     | Some s \<Rightarrow> alloc_thread_slot k = Some s \<and> queue_list (ready_queue k') = queue_list (ready_queue k) @ [s] \<and>
         (\<exists>t. storage k' = (storage k)[s := Some t] \<and> thread_used k' = (thread_used k)[s := True] \<and>
           entry_point t = e \<and> user_rip t = e \<and> tid t = next_tid k \<and> pid t = p \<and> tstate t = Ready \<and>
           process_page_table_root t = cr3 \<and> interrupt_rsp t = 0)" by blast+
qed

section \<open>Reachable states\<close>

definition initial_kernel :: "machine \<Rightarrow> bump_allocator \<Rightarrow> kernel" where
  "initial_kernel m h =
     \<lparr>mach = m, heap = h, storage = replicate MAX_THREADS None, thread_used = replicate MAX_THREADS False,
      ready_queue = replicate MAX_THREADS None, current_thread = None, idle_rsp = 0, next_tid = 1,
      tss_rsp0 = 0, syscall_rsp = 0\<rparr>"

text \<open>One step of the scheduler, whatever the rest of the kernel does to memory and heap between steps.\<close>

inductive sched_step :: "kernel \<Rightarrow> kernel \<Rightarrow> bool" where
  create: "create_thread stub p e cr3 k = Inr (r, k') \<Longrightarrow> sched_step k k'"
| schedule: "schedule c k = Inr (c', k') \<Longrightarrow> sched_step k k'"
| preempt: "preempt irsp k = Inr (r, k') \<Longrightarrow> sched_step k k'"
| exit: "thread_exit c k = Inr (c', k') \<Longrightarrow> sched_step k k'"
| interpreter: "enter_interpreter s k = (en, k') \<Longrightarrow> thread_used k ! s \<Longrightarrow> s < MAX_THREADS \<Longrightarrow> sched_step k k'"
| user: "enter_user_mode x s k = Inr (en, k') \<Longrightarrow> thread_used k ! s \<Longrightarrow> s < MAX_THREADS \<Longrightarrow> sched_step k k'"
| environment: "sched_step k (k\<lparr>mach := m, heap := h\<rparr>)"

inductive_cases sched_stepE: "sched_step k k'"

lemma sched_inv_initial: "sched_inv (initial_kernel m h)"
proof -
  have "queue_inv (replicate MAX_THREADS None)" unfolding queue_inv_def by (rule exI [of _ "[]"]) simp
  moreover have "queue_list (replicate MAX_THREADS None) = []" using queue_list_eq [of "[]"] by simp
  ultimately show ?thesis by (simp add: sched_inv_def initial_kernel_def)
qed

lemma sched_inv_enter:
  assumes inv: "sched_inv k" and s: "live k s"
  shows "sched_inv (snd (enter_interpreter s k))"
    "\<exists>en k'. enter_user_mode x s k = Inr (en, k') \<and> sched_inv k' \<and> current_thread k' = Some s \<and>
       ready_queue k' = ready_queue k \<and> (\<exists>t. storage k ! s = Some t \<and> storage k' = (storage k)[s := Some (t\<lparr>tstate := Running\<rparr>)])"
proof -
  from live_thread_mut [OF s] obtain t where t: "thread_mut k s = Some t" "unat (stack_base t) + unat stack_size < 2 ^ 64" by blast
  note st = sched_inv_start [OF inv t]
  show "sched_inv (snd (enter_interpreter s k))" using t st by (simp add: enter_interpreter_def)
  have "add_chk (stack_base t) stack_size = Inr (stack_base t + stack_size)" using t(2) by (simp add: add_chk_def)
  then show "\<exists>en k'. enter_user_mode x s k = Inr (en, k') \<and> sched_inv k' \<and> current_thread k' = Some s \<and>
       ready_queue k' = ready_queue k \<and> (\<exists>t. storage k ! s = Some t \<and> storage k' = (storage k)[s := Some (t\<lparr>tstate := Running\<rparr>)])"
    using t st thread_mut_SomeD [OF t(1)] by (simp add: enter_user_mode_def Let_def start_thread_def)
qed

lemma sched_inv_step: "sched_step k k' \<Longrightarrow> sched_inv k \<Longrightarrow> sched_inv k'"
proof (induction rule: sched_step.induct)
  case (create stub p e cr3 k r k')
  then show ?case using create_thread_Inr(1) by blast
next
  case (schedule c k c' k')
  then show ?case using schedule_total [of k c] by auto
next
  case (preempt irsp k r k')
  then show ?case using preempt_total [of k irsp] by auto
next
  case (exit c k c' k')
  then show ?case using schedule_total [OF sched_inv_mark_exited, of k c] by (auto simp: thread_exit_def)
next
  case (interpreter s k en k')
  then show ?case using sched_inv_enter(1) [of k s] sched_invD(6) [of k s] by simp
next
  case (user x s k en k')
  then show ?case using sched_inv_enter(2) [of k s x] sched_invD(6) [of k s] by auto
next
  case (environment k m h)
  then show ?case by simp
qed

lemma sched_inv_reachable: "sched_step\<^sup>*\<^sup>* (initial_kernel m h) k \<Longrightarrow> sched_inv k"
  by (induction rule: rtranclp_induct) (auto simp: sched_inv_initial intro: sched_inv_step)

section \<open>Properties\<close>

text \<open>C1: in every state the scheduler can reach, no queued or current slot is uninitialised, and scheduling,
  timer preemption, exiting a thread and entering a created thread do not panic; in particular the
  \<open>expect("current thread missing")\<close> never fails.\<close>

theorem scheduler_safe:
  assumes "sched_step\<^sup>*\<^sup>* (initial_kernel m h) k"
  shows "(\<forall>s\<in>set (queue_list (ready_queue k)). thread_mut k s \<noteq> None) \<and>
    (\<forall>s. current_thread k = Some s \<longrightarrow> thread_mut k s \<noteq> None) \<and>
    \<not> panics (schedule c k) \<and> \<not> panics (preempt irsp k) \<and> \<not> panics (thread_exit c k) \<and>
    (\<forall>s<MAX_THREADS. thread_used k ! s \<longrightarrow> \<not> panics (enter_user_mode x s k))"
proof -
  note inv = sched_inv_reachable [OF assms]
  have tm: "live k s \<Longrightarrow> thread_mut k s \<noteq> None" for s using live_thread_mut by fastforce
  have "\<not> panics (enter_user_mode x s k)" if "s < MAX_THREADS" "thread_used k ! s" for s
    using sched_inv_enter(2) [OF inv sched_invD(6) [OF inv that], of x] by auto
  then show ?thesis
    using tm sched_invD(4,5) [OF inv] schedule_total [OF inv, of c] preempt_total [OF inv, of irsp]
      schedule_total [OF sched_inv_mark_exited [OF inv], of c]
    unfolding thread_exit_def not_panics_iff by fast
qed

definition ring :: "kernel \<Rightarrow> nat list" where
  "ring k = (case current_thread k of None \<Rightarrow> [] | Some s \<Rightarrow> [s]) @ queue_list (ready_queue k)"

fun schedules :: "cpu list \<Rightarrow> kernel \<Rightarrow> kernel res" where
  "schedules [] k = Inr k"
| "schedules (c # cs) k = bind_res (schedule c k) (\<lambda>(_, k'). schedules cs k')"

lemma schedule_rotates:
  assumes inv: "sched_inv k" and cur: "current_thread k = Some s" and d: "distinct (ring k)"
    and act: "\<forall>x\<in>set (ring k). \<not> exited k x"
  shows "\<exists>c' k'. schedule c k = Inr (c', k') \<and> sched_inv k' \<and> ring k' = rotate1 (ring k) \<and>
    current_thread k' \<noteq> None \<and> (\<forall>x\<in>set (ring k'). \<not> exited k' x)"
proof (cases "queue_list (ready_queue k)")
  case Nil
  then show ?thesis using schedule_empty [OF inv Nil] inv cur act by (simp add: ring_def)
next
  case (Cons n xs)
  obtain t u where t: "storage k ! n = Some t" "storage k ! s = Some u"
    using sched_invD(4) [OF inv, of n] sched_invD(5) [OF inv cur] Cons by (auto simp: live_def)
  have ns: "n \<noteq> s" using d Cons cur by (auto simp: ring_def)
  have "tstate u \<noteq> Exited" using act cur t(2) by (auto simp: ring_def exited_def)
  then have "runnable k (current_thread k) = [s]" using cur t(2) by (simp add: runnable_def)
  with schedule_spec [OF inv Cons t(1), of c] ns cur act Cons show ?thesis by (auto simp: ring_def)
qed

text \<open>C14: scheduling is round robin. While no thread exits and none is queued twice, one call of \<open>schedule\<close>
  rotates the ring formed by the current thread and the ready queue by one, so \<open>n\<close> calls rotate it by
  \<open>n\<close>: a thread at position \<open>n\<close> of the ring is the current one after \<open>n\<close> calls.\<close>

theorem schedule_round_robin:
  assumes "sched_inv k" "current_thread k \<noteq> None" "distinct (ring k)" "\<forall>x\<in>set (ring k). \<not> exited k x"
  shows "\<exists>k'. schedules cs k = Inr k' \<and> ring k' = rotate (length cs) (ring k) \<and>
    current_thread k' = Some (ring k ! (length cs mod length (ring k)))"
proof -
  have *: "\<exists>k'. schedules cs k = Inr k' \<and> ring k' = rotate (length cs) (ring k) \<and> current_thread k' \<noteq> None"
    using assms
  proof (induction cs arbitrary: k)
    case (Cons c cs)
    then obtain s where "current_thread k = Some s" by auto
    from schedule_rotates [OF Cons.prems(1) this Cons.prems(3,4), of c] obtain c' k1
      where k1: "schedule c k = Inr (c', k1)" "sched_inv k1" "ring k1 = rotate1 (ring k)" "current_thread k1 \<noteq> None"
        "\<forall>x\<in>set (ring k1). \<not> exited k1 x" by blast
    from Cons.IH [OF k1(2,4) _ k1(5)] k1(1,3) Cons.prems(3) show ?case by (simp add: rotate1_rotate_swap)
  qed simp
  then obtain k' s where k': "schedules cs k = Inr k'" "ring k' = rotate (length cs) (ring k)" "current_thread k' = Some s"
    by auto
  have "ring k \<noteq> []" using assms(2) by (auto simp: ring_def)
  moreover have "hd (ring k') = s" using k'(3) by (simp add: ring_def)
  ultimately have "s = ring k ! (length cs mod length (ring k))" using k'(2) hd_rotate_conv_nth by metis
  with k' show ?thesis by blast
qed

text \<open>Two threads, the first one running.\<close>

definition sample_sched :: kernel where
  "sample_sched = (initial_kernel sample_machine new_bump)
     \<lparr>storage := (replicate 16 None)[0 := Some (new_thread 1 1 0x1000), 1 := Some (new_thread 2 1 0x2000)],
      thread_used := (replicate 16 False)[0 := True, 1 := True],
      ready_queue := map Some [1] @ replicate 15 None, current_thread := Some 0\<rparr>"

lemma sample_sched:
  "sched_inv sample_sched" "current_thread sample_sched = Some 0" "ring sample_sched = [0, 1]"
  "\<forall>x\<in>set (ring sample_sched). \<not> exited sample_sched x"
proof -
  have q: "ready_queue sample_sched = map Some [1] @ replicate 15 None" by (simp add: sample_sched_def)
  have ql: "queue_list (ready_queue sample_sched) = [1]" unfolding q by (rule queue_list_eq)
  have qi: "queue_inv (ready_queue sample_sched)"
    unfolding queue_inv_def q by (intro exI [of _ "[1]"]) (simp add: MAX_THREADS_def)
  show c: "current_thread sample_sched = Some 0" by (simp add: sample_sched_def)
  show r: "ring sample_sched = [0, 1]" using ql c by (simp add: ring_def)
  have st: "storage sample_sched ! 0 = Some (new_thread 1 1 0x1000)" "storage sample_sched ! 1 = Some (new_thread 2 1 0x2000)"
    by (simp_all add: sample_sched_def)
  then show "\<forall>x\<in>set (ring sample_sched). \<not> exited sample_sched x" by (simp add: r exited_def new_thread_def)
  have l: "live sample_sched 0" "live sample_sched 1"
    using st by (simp_all add: live_def MAX_THREADS_def new_thread_def stack_size_def STACK_SIZE_def)
  have "thread_used sample_sched ! i \<Longrightarrow> i < 16 \<Longrightarrow> i = 0 \<or> i = 1" for i
    by (cases "i = 0 \<or> i = 1") (auto simp: sample_sched_def)
  then show "sched_inv sample_sched" using l qi ql c unfolding sched_inv_def
    by (auto simp: MAX_THREADS_def sample_sched_def initial_kernel_def)
qed

theorem schedule_round_robin_witness:
  "\<exists>k'. schedules [switch_restore 0 (\<lambda>_. 0)] sample_sched = Inr k' \<and> current_thread k' = Some 1"
  using schedule_round_robin [of sample_sched "[switch_restore 0 (\<lambda>_. 0)]"] sample_sched by auto

text \<open>Entering a thread and marking it as exited keep the stack pointer it was created with.\<close>

lemma entered_saved_rsp:
  assumes "enter_user_mode x s k1 = Inr (en, k2)" "live k1 s" "length (storage k1) = MAX_THREADS"
  obtains t0 t where "storage k1 ! s = Some t0" "storage (mark_exited k2) ! s = Some t" "saved_rsp t = saved_rsp t0"
    "phys (mach (mark_exited k2)) = phys (mach k2)"
proof -
  obtain t0 where t0: "thread_mut k1 s = Some t0" "storage k1 ! s = Some t0" "s < MAX_THREADS"
    using live_thread_mut [OF assms(2)] assms(2) by (auto simp: live_def thread_mut_def split: if_splits)
  obtain top where k2: "k2 = (start_thread s t0 k1)\<lparr>syscall_rsp := top, tss_rsp0 := top\<rparr>"
    using assms(1) t0(1) by (auto simp: enter_user_mode_def Let_def map_res_Inr_iff)
  have st: "storage k2 = (storage k1)[s := Some (t0\<lparr>tstate := Running\<rparr>)]" "current_thread k2 = Some s"
    by (simp_all add: k2 start_thread_def)
  then have "thread_mut k2 s = Some (t0\<lparr>tstate := Running\<rparr>)" using t0(3) assms(3) by (simp add: thread_mut_def)
  then have "mark_exited k2 = set_thread s (t0\<lparr>tstate := Exited\<rparr>) k2" using st(2) by (simp add: mark_exited_def)
  then show thesis using t0(2,3) assms(3) st(1) by (intro that [of t0 "t0\<lparr>tstate := Exited\<rparr>"]) (simp_all add: set_thread_def)
qed

text \<open>C38: a process's first thread never ends. \<open>create_thread\<close> queues the slot, \<open>enter_user_mode\<close> makes it the
  current thread without taking it off the queue; when the thread exits, the scheduler finds the slot
  on the queue and runs it again: the exited thread is current, no longer marked as exited and still queued, and
  the processor resumes on the stack pointer that \<open>create_thread\<close> had prepared for the thread's start.\<close>

theorem first_thread_exit_restarts:
  assumes "create_thread stub p e cr3 (initial_kernel m h) = Inr (Some s, k1)" "enter_user_mode x s k1 = Inr (en, k2)"
  shows "\<exists>c' k3. thread_exit c k2 = Inr (c', k3) \<and> current_thread k3 = Some s \<and> \<not> exited k3 s \<and>
    queue_list (ready_queue k3) = [s] \<and>
    (\<exists>t saved m'. storage k1 ! s = Some t \<and> switch c (saved_rsp t) (phys (mach k2)) = (saved, c', m'))"
proof -
  note cr = create_thread_Inr [OF sched_inv_initial assms(1)]
  have q0: "queue_list (ready_queue (initial_kernel m h)) = []"
    using queue_list_eq [of "[]" MAX_THREADS] by (simp add: initial_kernel_def)
  then have q1: "queue_list (ready_queue k1) = [s]" using cr(3) by simp
  have l1: "live k1 s" using sched_invD(4) [OF cr(1)] q1 by simp
  from sched_inv_enter(2) [OF cr(1) l1, of x] assms(2) have k2: "sched_inv k2" "current_thread k2 = Some s"
    "ready_queue k2 = ready_queue k1" by auto
  note i = sched_inv_mark_exited [OF k2(1)]
  have q: "queue_list (ready_queue (mark_exited k2)) = [s]" "current_thread (mark_exited k2) = Some s"
    using k2(2,3) q1 by (simp_all add: mark_exited_def split: option.splits)
  obtain t0 t where t: "storage k1 ! s = Some t0" "storage (mark_exited k2) ! s = Some t" "saved_rsp t = saved_rsp t0"
      "phys (mach (mark_exited k2)) = phys (mach k2)"
    by (rule entered_saved_rsp [OF assms(2) l1 sched_invD(1) [OF cr(1)]])
  from schedule_spec [OF i q(1) t(2), of c] q(2) t show ?thesis by (auto simp: thread_exit_def)
qed

lemma create_thread_succeeds:
  assumes "sched_inv k" "alloc_thread_slot k = Some s" "length (queue_list (ready_queue k)) < MAX_THREADS"
    and "alloc_early stack_size 16 (heap k) = Inr (Some kb, h1)" "add_chk kb stack_size = Inr kt"
    and "alloc_early USER_STACK_SIZE 4096 h1 = Inr (Some ub, h2)" "add_chk ub USER_STACK_SIZE = Inr ut"
  shows "\<exists>k'. create_thread stub p e 0 k = Inr (Some s, k')"
proof -
  have fst_enq: "fst (enqueue_thread s k') " if "ready_queue k' = ready_queue k" for k'
    using enqueue_thread_cases [of k' s] sched_invD(3) [OF assms(1)] assms(3) that by auto
  have "kernel_alloc stack_size 16 k = Inr (Some kb, k\<lparr>heap := h1\<rparr>)" using assms(4) by (simp add: kernel_alloc_def)
  moreover obtain r m where i: "init_kernel_stack stub e kt (k\<lparr>heap := h1\<rparr>) = (r, k\<lparr>heap := h1, mach := m\<rparr>)"
    by (cases "initial_stack stub e kt (phys (mach k))") (simp add: init_kernel_stack_def)
  moreover have "kernel_alloc USER_STACK_SIZE 4096 (k\<lparr>heap := h1, mach := m\<rparr>) = Inr (Some ub, k\<lparr>heap := h1, mach := m, heap := h2\<rparr>)"
    using assms(6) by (simp add: kernel_alloc_def)
  ultimately show ?thesis using assms(2,5,7) fst_enq
    by (simp add: create_thread_def map_user_stack_def Let_def case_prod_beta)
qed

lemma sample_create:
  "\<exists>k1. create_thread 0x40 1 0x1000 0 (initial_kernel sample_machine \<lparr>bump_base = 0x100000, bump_next = 0x100000, bump_limit = 0x200000\<rparr>)
     = Inr (Some 0, k1)"
proof (rule create_thread_succeeds [OF sched_inv_initial])
  let ?h = "\<lparr>bump_base = 0x100000, bump_next = 0x100000, bump_limit = 0x200000 :: u64\<rparr>"
  show "alloc_thread_slot (initial_kernel sample_machine ?h) = Some 0"
    by (simp add: alloc_thread_slot_def initial_kernel_def position_replicate MAX_THREADS_def)
  show "length (queue_list (ready_queue (initial_kernel sample_machine ?h))) < MAX_THREADS"
    using queue_list_eq [of "[]" MAX_THREADS] by (simp add: initial_kernel_def MAX_THREADS_def)
  show "alloc_early stack_size 16 (heap (initial_kernel sample_machine ?h)) = Inr (Some 0x100000, ?h\<lparr>bump_next := 0x110000\<rparr>)"
    by (simp add: initial_kernel_def alloc_early_def bump_allocate_def chk_defs checked_add_def stack_size_def STACK_SIZE_def Let_def)
  show "alloc_early USER_STACK_SIZE 4096 (?h\<lparr>bump_next := 0x110000\<rparr>) = Inr (Some 0x110000, ?h\<lparr>bump_next := 0x120000\<rparr>)"
    by (simp add: alloc_early_def bump_allocate_def chk_defs checked_add_def USER_STACK_SIZE_def Let_def)
  show "add_chk 0x100000 stack_size = Inr 0x110000" "add_chk 0x110000 USER_STACK_SIZE = Inr 0x120000"
    by (simp_all add: add_chk_def stack_size_def STACK_SIZE_def USER_STACK_SIZE_def)
qed

text \<open>A state with one thread, created and entered.\<close>

theorem scheduler_safe_witness:
  "\<exists>k1 en k2. create_thread 0x40 1 0x1000 0
       (initial_kernel sample_machine \<lparr>bump_base = 0x100000, bump_next = 0x100000, bump_limit = 0x200000\<rparr>) = Inr (Some 0, k1) \<and>
     enter_interpreter 0 k1 = (en, k2) \<and> thread_mut k2 0 \<noteq> None \<and> current_thread k2 = Some 0 \<and>
     \<not> panics (preempt 0x9000 k2) \<and> \<not> panics (thread_exit (switch_restore 0 (\<lambda>_. 0)) k2)"
proof -
  let ?k = "initial_kernel sample_machine \<lparr>bump_base = 0x100000, bump_next = 0x100000, bump_limit = 0x200000\<rparr>"
  obtain k1 where c: "create_thread 0x40 1 0x1000 0 ?k = Inr (Some 0, k1)" using sample_create by blast
  note cr = create_thread_Inr [OF sched_inv_initial c]
  have "0 \<in> set (queue_list (ready_queue k1))" using cr(3) by simp
  then obtain t where t: "thread_mut k1 0 = Some t" using live_thread_mut [OF sched_invD(4) [OF cr(1)]] by blast
  obtain k2 where e: "enter_interpreter 0 k1 = (Interpret (entry_point t), k2)" "current_thread k2 = Some 0"
    using t by (simp add: enter_interpreter_def start_thread_def)
  have u: "thread_used k1 ! 0" "(0 :: nat) < MAX_THREADS" using cr(3) by (auto simp: MAX_THREADS_def initial_kernel_def)
  have "sched_step\<^sup>*\<^sup>* ?k k2"
    using sched_step.create [OF c] sched_step.interpreter [OF e(1) u] by (meson r_into_rtranclp rtranclp.rtrancl_into_rtrancl)
  from scheduler_safe [OF this, of "switch_restore 0 (\<lambda>_. 0)" "0x9000"] c e show ?thesis by blast
qed

theorem first_thread_exit_restarts_witness:
  "\<exists>s k1 en k2 c' k3. create_thread 0x40 1 0x1000 0
       (initial_kernel sample_machine \<lparr>bump_base = 0x100000, bump_next = 0x100000, bump_limit = 0x200000\<rparr>) = Inr (Some s, k1) \<and>
     enter_user_mode 0x80 s k1 = Inr (en, k2) \<and> thread_exit (switch_restore 0 (\<lambda>_. 0)) k2 = Inr (c', k3) \<and> \<not> exited k3 s"
proof -
  obtain s k1 where c: "create_thread 0x40 1 0x1000 0
      (initial_kernel sample_machine \<lparr>bump_base = 0x100000, bump_next = 0x100000, bump_limit = 0x200000\<rparr>) = Inr (Some s, k1)"
    using sample_create by blast
  note cr = create_thread_Inr [OF sched_inv_initial c]
  have "s \<in> set (queue_list (ready_queue k1))" using cr(3) by simp
  from sched_inv_enter(2) [OF cr(1) sched_invD(4) [OF cr(1) this], of "0x80"] obtain en k2
    where e: "enter_user_mode 0x80 s k1 = Inr (en, k2)" by blast
  from first_thread_exit_restarts [OF c e, of "switch_restore 0 (\<lambda>_. 0)"] c e show ?thesis by blast
qed

end
