(* ===== verification/Vfs.thy ===== *)
theory Vfs
  imports Page_Table Utf8
begin

text \<open>
  The in-memory filesystem (\<^verbatim>\<open>kernel/src/vfs/mod.rs\<close>): the operations, and the namespace. File
  data lives in frames of the frame allocator, so the operations that touch it take and
  return the machine state.
\<close>

definition MAX_NAME_LEN :: nat where "MAX_NAME_LEN = 64"
definition MAX_NODES :: nat where "MAX_NODES = 256"
definition MAX_OPEN_FILES :: nat where "MAX_OPEN_FILES = 64"
definition FILE_DATA_FRAMES :: nat where "FILE_DATA_FRAMES = 16"

datatype NodeKind = Directory | File

type_synonym NodeId = nat
type_synonym FileHandle = nat

record Node =
  node_kind :: NodeKind
  node_parent :: "NodeId option"
  node_name :: bytes
  name_len :: nat

definition name_str :: "Node \<Rightarrow> bytes" where
  "name_str n = from_utf8_or_empty (take (name_len n) (node_name n))"

record OpenFile =
  of_node :: NodeId
  of_position :: nat
  of_writable :: bool

record vfs =
  nodes :: "Node option list"
  file_data :: "u64 option list list"
  file_sizes :: "nat list"
  open_files :: "OpenFile option list"

definition SLASH :: u8 where "SLASH = 0x2F"

text \<open>The zeroed statics, and \<open>init\<close>, which creates the root directory.\<close>

definition static_vfs :: vfs where
  "static_vfs = \<lparr>nodes = replicate MAX_NODES None, file_data = replicate MAX_NODES (replicate FILE_DATA_FRAMES None),
     file_sizes = replicate MAX_NODES 0, open_files = replicate MAX_OPEN_FILES None\<rparr>"

definition vfs_init :: "vfs \<Rightarrow> vfs" where
  "vfs_init v = v\<lparr>nodes := (nodes v)[0 := Some \<lparr>node_kind = Directory, node_parent = None,
     node_name = SLASH # replicate (MAX_NAME_LEN - 1) 0, name_len = 1\<rparr>]\<rparr>"

section \<open>Namespace operations\<close>

definition find_child :: "vfs \<Rightarrow> NodeId \<Rightarrow> bytes \<Rightarrow> NodeId option" where
  "find_child v parent name =
     position (\<lambda>slot. case slot of None \<Rightarrow> False | Some n \<Rightarrow> node_parent n = Some parent \<and> name_str n = name) (nodes v)"

definition vfs_create :: "NodeId \<Rightarrow> bytes \<Rightarrow> NodeKind \<Rightarrow> vfs \<Rightarrow> NodeId option \<times> vfs" where
  "vfs_create parent name kind v =
     (if length name > MAX_NAME_LEN then (None, v)
      else if find_child v parent name \<noteq> None then (None, v)
      else case position (\<lambda>s. s = None) (nodes v) of
             None \<Rightarrow> (None, v)
           | Some index \<Rightarrow>
               (Some index,
                v\<lparr>nodes := (nodes v)[index := Some \<lparr>node_kind = kind, node_parent = Some parent,
                    node_name = name @ replicate (MAX_NAME_LEN - length name) 0, name_len = length name\<rparr>]\<rparr>))"

definition trim_slashes :: "bytes \<Rightarrow> bytes" where
  "trim_slashes p = rev (dropWhile (\<lambda>b. b = SLASH) (rev (dropWhile (\<lambda>b. b = SLASH) p)))"

fun split_slash :: "bytes \<Rightarrow> bytes list" where
  "split_slash [] = [[]]"
| "split_slash (b # bs) =
     (if b = SLASH then [] # split_slash bs
      else case split_slash bs of [] \<Rightarrow> [[b]] | c # cs \<Rightarrow> (b # c) # cs)"

fun walk_components :: "vfs \<Rightarrow> NodeId \<Rightarrow> bytes list \<Rightarrow> NodeId option" where
  "walk_components v current [] = Some current"
| "walk_components v current (c # cs) =
     (if c = [] then walk_components v current cs
      else case find_child v current c of None \<Rightarrow> None | Some n \<Rightarrow> walk_components v n cs)"

definition vfs_lookup :: "vfs \<Rightarrow> bytes \<Rightarrow> NodeId option" where
  "vfs_lookup v p =
     (let q = trim_slashes p in if q = [] then Some 0 else walk_components v 0 (split_slash q))"

section \<open>Open files\<close>

definition vfs_open :: "NodeId \<Rightarrow> bool \<Rightarrow> vfs \<Rightarrow> (FileHandle option \<times> vfs) res" where
  "vfs_open node writable v =
     bind_res (index_chk (nodes v) node) (\<lambda>slot.
       case slot of
         None \<Rightarrow> Inr (None, v)
       | Some n \<Rightarrow>
           if node_kind n \<noteq> File then Inr (None, v)
           else case position (\<lambda>s. s = None) (open_files v) of
                  None \<Rightarrow> Inr (None, v)
                | Some index \<Rightarrow>
                    Inr (Some index,
                      v\<lparr>open_files := (open_files v)[index := Some \<lparr>of_node = node, of_position = 0, of_writable = writable\<rparr>]\<rparr>))"

definition file_size :: "FileHandle \<Rightarrow> vfs \<Rightarrow> nat option res" where
  "file_size h v =
     bind_res (index_chk (open_files v) h) (\<lambda>slot.
       case slot of None \<Rightarrow> Inr None | Some f \<Rightarrow> map_res Some (index_chk (file_sizes v) (of_node f)))"

definition vfs_close :: "FileHandle \<Rightarrow> vfs \<Rightarrow> (bool \<times> vfs) res" where
  "vfs_close h v =
     bind_res (index_chk (open_files v) h) (\<lambda>slot.
       if slot \<noteq> None then Inr (True, v\<lparr>open_files := (open_files v)[h := None]\<rparr>) else Inr (False, v))"

text \<open>
  The loop of \<open>read\<close>: \<open>want\<close> bytes of the buffer are left, the file is at \<open>pos\<close>; the result is
  the bytes stored into the buffer.
\<close>

lemma chunk_pos: "0 < w \<Longrightarrow> p < s \<Longrightarrow> 0 < min w (min (4096 - p mod 4096) (s - p :: nat))"
  by (simp only: min_less_iff_conj zero_less_diff) simp

function read_loop :: "mem \<Rightarrow> u64 option list \<Rightarrow> nat \<Rightarrow> nat \<Rightarrow> nat \<Rightarrow> bytes res" where
  "read_loop m frames sz pos want =
     (if \<not> (0 < want \<and> pos < sz) then Inr []
      else
        let frame_index = pos div 4096; frame_offset = pos mod 4096;
            to_read = min want (min (4096 - frame_offset) (sz - pos))
        in bind_res (index_chk frames frame_index) (\<lambda>slot.
           bind_res (case slot of
                       Some frame \<Rightarrow> map_res (\<lambda>src. read_bytes m src to_read) (add_chk frame (of_nat frame_offset))
                     | None \<Rightarrow> Inr (replicate to_read 0)) (\<lambda>chunk.
           map_res (\<lambda>rest. chunk @ rest) (read_loop m frames sz (pos + to_read) (want - to_read)))))"
  by pat_completeness blast
termination
proof (relation "measure (\<lambda>(m, frames, sz, pos, want). want)")
  fix m :: mem and frames :: "u64 option list" and sz pos want x xa n :: nat and xb xc
  assume h: "\<not> \<not> (0 < want \<and> pos < sz)" "xa = pos mod 4096" "n = min want (min (4096 - xa) (sz - pos))"
  have w: "0 < want" "pos < sz" using h(1) by blast+
  have "0 < n" unfolding h(3,2) by (rule chunk_pos [OF w])
  with w(1) show "((m, frames, sz, pos + n, want - n), m, frames, sz, pos, want) \<in> measure (\<lambda>(m, frames, sz, pos, want). want)"
    by simp
qed simp

definition vfs_read :: "FileHandle \<Rightarrow> nat \<Rightarrow> vfs \<Rightarrow> mem \<Rightarrow> (bytes option \<times> vfs) res" where
  "vfs_read h len v m =
     bind_res (index_chk (open_files v) h) (\<lambda>slot.
       case slot of
         None \<Rightarrow> Inr (None, v)
       | Some f \<Rightarrow>
           bind_res (index_chk (file_sizes v) (of_node f)) (\<lambda>sz.
           bind_res (index_chk (file_data v) (of_node f)) (\<lambda>frames.
           map_res (\<lambda>bs. (Some bs, v\<lparr>open_files := (open_files v)[h := Some (f\<lparr>of_position := of_position f + length bs\<rparr>)]\<rparr>))
             (read_loop m frames sz (of_position f) len))))"

text \<open>
  The loop of \<open>write\<close> on the bytes of the buffer that are left. The state holds what the loop
  changes; the flag is False when the early return for a missing frame was taken.
\<close>

record write_state =
  ws_mach :: machine
  ws_frames :: "u64 option list"
  ws_size :: nat
  ws_pos :: nat
  ws_written :: nat

definition ensure_frame :: "nat \<Rightarrow> write_state \<Rightarrow> write_state" where
  "ensure_frame i s =
     (if ws_frames s ! i = None
      then case alloc_frame (ws_mach s) of (r, m) \<Rightarrow> s\<lparr>ws_mach := m, ws_frames := (ws_frames s)[i := r]\<rparr>
      else s)"

definition put_chunk :: "u64 \<Rightarrow> bytes \<Rightarrow> write_state \<Rightarrow> write_state" where
  "put_chunk dst chunk s =
     (let m = ws_mach s; pos = ws_pos s + length chunk
      in s\<lparr>ws_mach := m\<lparr>phys := write_bytes (phys m) dst chunk\<rparr>, ws_pos := pos,
           ws_written := ws_written s + length chunk, ws_size := (if pos > ws_size s then pos else ws_size s)\<rparr>)"

function write_loop :: "bytes \<Rightarrow> write_state \<Rightarrow> (bool \<times> write_state) res" where
  "write_loop rest s =
     (if rest = [] then Inr (True, s)
      else
        let frame_index = ws_pos s div 4096
        in if frame_index \<ge> FILE_DATA_FRAMES then Inr (True, s)
           else
             let frame_offset = ws_pos s mod 4096; to_write = min (length rest) (4096 - frame_offset);
                 s1 = ensure_frame frame_index s
             in case ws_frames s1 ! frame_index of
                  None \<Rightarrow> Inr (False, s1)
                | Some frame \<Rightarrow>
                    bind_res (add_chk frame (of_nat frame_offset)) (\<lambda>dst.
                      write_loop (drop to_write rest) (put_chunk dst (take to_write rest) s1)))"
  by pat_completeness blast
termination
proof (relation "measure (\<lambda>(rest, s). length rest)")
  fix rest :: bytes and s s1 :: write_state and x xa n :: nat and xc and xd :: u64
  assume h: "rest \<noteq> []" "xa = ws_pos s mod 4096" "n = min (length rest) (4096 - xa)"
  have "0 < n" using h by simp
  with h show "((drop n rest, put_chunk xd (take n rest) s1), rest, s) \<in> measure (\<lambda>(rest, s). length rest)"
    by simp
qed simp

declare read_loop.simps [simp del] write_loop.simps [simp del]

definition vfs_write :: "FileHandle \<Rightarrow> bytes \<Rightarrow> vfs \<Rightarrow> machine \<Rightarrow> (nat option \<times> vfs \<times> machine) res" where
  "vfs_write h buf v m =
     bind_res (index_chk (open_files v) h) (\<lambda>slot.
       case slot of
         None \<Rightarrow> Inr (None, v, m)
       | Some f \<Rightarrow>
           if \<not> of_writable f then Inr (None, v, m)
           else
             bind_res (index_chk (file_sizes v) (of_node f)) (\<lambda>sz.
             bind_res (index_chk (file_data v) (of_node f)) (\<lambda>frames.
             map_res (\<lambda>(ok, s).
                 (if ok then Some (ws_written s) else None,
                  v\<lparr>open_files := (open_files v)[h := Some (f\<lparr>of_position := ws_pos s\<rparr>)],
                    file_sizes := (file_sizes v)[of_node f := ws_size s],
                    file_data := (file_data v)[of_node f := ws_frames s]\<rparr>,
                  ws_mach s))
               (write_loop buf \<lparr>ws_mach = m, ws_frames = frames, ws_size = sz, ws_pos = of_position f, ws_written = 0\<rparr>))))"

section \<open>Names\<close>

lemma find_child_SomeD:
  assumes "find_child v p name = Some i"
  shows "i < length (nodes v)" "\<exists>n. nodes v ! i = Some n \<and> node_parent n = Some p \<and> name_str n = name"
  using position_SomeD(1,2) [OF assms [unfolded find_child_def]] by (auto split: option.splits)

lemma find_child_None:
  "find_child v p name = None \<Longrightarrow> i < length (nodes v) \<Longrightarrow> nodes v ! i = Some n \<Longrightarrow>
   \<not> (node_parent n = Some p \<and> name_str n = name)"
  using position_None_iff [of _ "nodes v"] nth_mem [of i "nodes v"] unfolding find_child_def by fastforce

text \<open>At most one child of a parent has a given name.\<close>

definition names_unique :: "vfs \<Rightarrow> bool" where
  "names_unique v \<longleftrightarrow> (\<forall>i j n n'. i < length (nodes v) \<and> j < length (nodes v) \<and> nodes v ! i = Some n \<and> nodes v ! j = Some n' \<and>
     node_parent n = node_parent n' \<and> node_parent n \<noteq> None \<and> name_str n = name_str n' \<longrightarrow> i = j)"

lemma find_child_eq:
  assumes "names_unique v"
  shows "find_child v p name = Some i \<longleftrightarrow>
    i < length (nodes v) \<and> (\<exists>n. nodes v ! i = Some n \<and> node_parent n = Some p \<and> name_str n = name)"
proof
  assume r: "i < length (nodes v) \<and> (\<exists>n. nodes v ! i = Some n \<and> node_parent n = Some p \<and> name_str n = name)"
  show "find_child v p name = Some i"
  proof (cases "find_child v p name")
    case None
    with r find_child_None show ?thesis by blast
  next
    case (Some j)
    from r obtain n where n: "i < length (nodes v)" "nodes v ! i = Some n" "node_parent n = Some p" "name_str n = name" by blast
    from find_child_SomeD [OF Some] obtain n' where n': "j < length (nodes v)" "nodes v ! j = Some n'"
      "node_parent n' = Some p" "name_str n' = name" by blast
    have "i = j" using assms n n' unfolding names_unique_def by simp
    with Some show ?thesis by simp
  qed
qed (use find_child_SomeD in blast)

lemma vfs_create_Some:
  assumes "vfs_create p name kind v = (Some i, v')"
  shows "i < length (nodes v)" "nodes v ! i = None" "find_child v p name = None" "length name \<le> MAX_NAME_LEN"
    "v' = v\<lparr>nodes := (nodes v)[i := Some \<lparr>node_kind = kind, node_parent = Some p,
        node_name = name @ replicate (MAX_NAME_LEN - length name) 0, name_len = length name\<rparr>]\<rparr>"
proof -
  have *: "length name \<le> MAX_NAME_LEN" "find_child v p name = None" "position (\<lambda>s. s = None) (nodes v) = Some i"
    using assms by (auto simp: vfs_create_def split: if_splits option.splits)
  then show "i < length (nodes v)" "nodes v ! i = None" "find_child v p name = None" "length name \<le> MAX_NAME_LEN"
    using position_SomeD(1,2) [OF *(3)] by auto
  show "v' = v\<lparr>nodes := (nodes v)[i := Some \<lparr>node_kind = kind, node_parent = Some p,
        node_name = name @ replicate (MAX_NAME_LEN - length name) 0, name_len = length name\<rparr>]\<rparr>"
    using assms * by (auto simp: vfs_create_def)
qed

lemma name_str_new [simp]:
  "utf8_valid name \<Longrightarrow> name_str \<lparr>node_kind = k, node_parent = p, node_name = name @ z, name_len = length name\<rparr> = name"
  by (simp add: name_str_def)

lemma vfs_create_unique:
  assumes "names_unique v" "utf8_valid name" "vfs_create p name kind v = (Some i, v')"
  shows "names_unique v'"
proof -
  note c = vfs_create_Some [OF assms(3)]
  have new: "\<not> (node_parent n = Some p \<and> name_str n = name)" if "j < length (nodes v)" "nodes v ! j = Some n" for j n
    by (rule find_child_None [OF c(3) that])
  show ?thesis unfolding names_unique_def
  proof (intro allI impI, elim conjE)
    fix a b n n'
    assume h: "a < length (nodes v')" "b < length (nodes v')" "nodes v' ! a = Some n" "nodes v' ! b = Some n'"
      "node_parent n = node_parent n'" "node_parent n \<noteq> None" "name_str n = name_str n'"
    show "a = b"
    proof (cases "a = i \<or> b = i")
      case True
      with h new [of a n] new [of b n'] assms(2) c(1) show ?thesis
        by (auto simp: c(5) nth_list_update split: if_splits)
    next
      case False
      with h have "nodes v ! a = Some n" "nodes v ! b = Some n'" "a < length (nodes v)" "b < length (nodes v)"
        by (simp_all add: c(5))
      with h(5-7) assms(1) show ?thesis unfolding names_unique_def by blast
    qed
  qed
qed

lemma find_child_create:
  assumes "names_unique v" "utf8_valid name" "vfs_create p name kind v = (Some i, v')"
  shows "find_child v' q nm = (if q = p \<and> nm = name then Some i else find_child v q nm)"
proof -
  note c = vfs_create_Some [OF assms(3)] and u = vfs_create_unique [OF assms]
  have at: "nodes v' ! j = (if j = i then Some \<lparr>node_kind = kind, node_parent = Some p,
        node_name = name @ replicate (MAX_NAME_LEN - length name) 0, name_len = length name\<rparr> else nodes v ! j)" for j
    using c(1) by (simp add: c(5))
  have len: "length (nodes v') = length (nodes v)" by (simp add: c(5))
  have iff: "find_child v' q nm = Some j \<longleftrightarrow> (if q = p \<and> nm = name then j = i else find_child v q nm = Some j)" for j
  proof (cases "j = i")
    case True
    then show ?thesis unfolding find_child_eq [OF u] find_child_eq [OF assms(1)] at len
      using c(1,2) assms(2) by auto
  next
    case False
    then show ?thesis unfolding find_child_eq [OF u] find_child_eq [OF assms(1)] at len
      using find_child_None [OF c(3), of j] by auto
  qed
  show ?thesis
  proof (cases "find_child v' q nm")
    case None
    then have n: "\<not> (if q = p \<and> nm = name then j = i else find_child v q nm = Some j)" for j using iff by simp
    have ne: "\<not> (q = p \<and> nm = name)" using n [of i] by (auto split: if_split_asm)
    then have "find_child v q nm \<noteq> Some j" for j using n [of j] by auto
    then have "find_child v q nm = None" by (cases "find_child v q nm") auto
    with None ne show ?thesis by simp
  next
    case (Some j)
    then show ?thesis using iff [of j] by (auto split: if_splits)
  qed
qed

section \<open>Paths\<close>

text \<open>Empty components are skipped, so only the non-empty ones count, and trimming changes nothing.\<close>

definition components :: "bytes \<Rightarrow> bytes list" where
  "components p = filter (\<lambda>c. c \<noteq> []) (split_slash p)"

lemma split_slash_ne [simp]: "split_slash p \<noteq> []"
  by (induction p) (auto split: list.splits)

lemma walk_components_filter: "walk_components v c (filter (\<lambda>c. c \<noteq> []) cs) = walk_components v c cs"
  by (induction cs arbitrary: c) (auto split: option.splits)

lemma split_slash_append:
  "split_slash (p @ SLASH # q) = split_slash p @ split_slash q"
  by (induction p) (auto split: list.splits)

lemma components_append: "components (p @ SLASH # q) = components p @ components q"
  by (simp add: components_def split_slash_append)

lemma components_Nil [simp]: "components [] = []"
  by (simp add: components_def)

lemma components_slash_Cons [simp]: "components (SLASH # p) = components p"
  using components_append [of "[]" p] by simp

lemma components_slash_snoc [simp]: "components (p @ [SLASH]) = components p"
  using components_append [of p "[]"] by simp

lemma components_dropWhile: "components (dropWhile (\<lambda>b. b = SLASH) p) = components p"
  by (induction p) auto

lemma components_dropWhile_rev: "components (rev (dropWhile (\<lambda>b. b = SLASH) (rev p))) = components p"
  by (induction p rule: rev_induct) auto

lemma components_trim: "components (trim_slashes p) = components p"
  by (simp add: trim_slashes_def components_dropWhile_rev components_dropWhile)

lemma vfs_lookup_components: "vfs_lookup v p = walk_components v 0 (components p)"
proof -
  have "vfs_lookup v p = walk_components v 0 (components (trim_slashes p))"
    by (auto simp: vfs_lookup_def Let_def walk_components_filter components_def)
  then show ?thesis by (simp add: components_trim)
qed

lemma components_plain: "name \<noteq> [] \<Longrightarrow> SLASH \<notin> set name \<Longrightarrow> components name = [name]"
proof -
  have "split_slash name = [name]" if "SLASH \<notin> set name" using that by (induction name) auto
  then show "name \<noteq> [] \<Longrightarrow> SLASH \<notin> set name \<Longrightarrow> components name = [name]" by (simp add: components_def)
qed

lemma walk_components_append:
  "walk_components v c (xs @ ys) = (case walk_components v c xs of None \<Rightarrow> None | Some n \<Rightarrow> walk_components v n ys)"
  by (induction xs arbitrary: c) (auto split: option.splits)

lemma vfs_lookup_child:
  assumes "name \<noteq> []" "SLASH \<notin> set name"
  shows "vfs_lookup v (dir @ SLASH # name) =
    (case vfs_lookup v dir of None \<Rightarrow> None | Some d \<Rightarrow> find_child v d name)"
  using assms by (auto simp: vfs_lookup_components components_append components_plain walk_components_append
      split: option.splits)

lemma walk_components_create:
  assumes "names_unique v" "utf8_valid name" "vfs_create p name kind v = (Some i, v')"
    and "walk_components v c cs = Some n"
  shows "walk_components v' c cs = Some n"
proof -
  note f = find_child_create [OF assms(1-3)] and c3 = vfs_create_Some(3) [OF assms(3)]
  show ?thesis using assms(4)
  proof (induction cs arbitrary: c)
    case (Cons x xs)
    show ?case
    proof (cases "x = []")
      case False
      with Cons.prems obtain d where d: "find_child v c x = Some d" "walk_components v d xs = Some n"
        by (auto split: option.splits)
      have "find_child v' c x = Some d" using d(1) c3 by (auto simp: f)
      with Cons.IH [OF d(2)] False show ?thesis by simp
    qed (use Cons in simp)
  qed simp
qed

section \<open>Properties of the namespace\<close>

text \<open>C30: creating a node and looking up its path is a round trip. After \<open>create\<close> of a proper name (valid,
  non-empty, no slash) in the directory that a path denotes, the path extended by the name denotes the
  new node, which has the requested kind; every path that denoted a node before still does; a name
  occurs at most once per parent, and a second \<open>create\<close> of the same name is refused.\<close>

theorem vfs_create_lookup:
  assumes "names_unique v" "vfs_lookup v dir = Some d" "vfs_create d name kind v = (Some i, v')"
    and "utf8_valid name" "name \<noteq> []" "SLASH \<notin> set name"
  shows "vfs_lookup v' (dir @ SLASH # name) = Some i \<and> map_option node_kind (nodes v' ! i) = Some kind \<and>
    (\<forall>p n. vfs_lookup v p = Some n \<longrightarrow> vfs_lookup v' p = Some n) \<and> names_unique v' \<and>
    fst (vfs_create d name kind' v') = None"
proof -
  note f = find_child_create [OF assms(1,4,3)] and c = vfs_create_Some [OF assms(3)]
  have old: "vfs_lookup v' p = Some n" if "vfs_lookup v p = Some n" for p n
    using walk_components_create [OF assms(1,4,3)] that by (simp add: vfs_lookup_components)
  have "vfs_lookup v' (dir @ SLASH # name) = Some i"
    using vfs_lookup_child [OF assms(5,6), of v' dir] old [OF assms(2)] f [of d name] by simp
  moreover have "map_option node_kind (nodes v' ! i) = Some kind" using c(1) by (simp add: c(5))
  moreover have "fst (vfs_create d name kind' v') = None" using f [of d name] by (simp add: vfs_create_def)
  ultimately show ?thesis using old vfs_create_unique [OF assms(1,4,3)] by blast
qed

lemma sample_vfs_unique: "names_unique (vfs_init static_vfs)"
  by (auto simp: names_unique_def vfs_init_def static_vfs_def nth_list_update split: if_splits)

lemma boot_vfs:
  "find_child (vfs_init static_vfs) 0 [0x61] = None"
  "position (\<lambda>s. s = None) (nodes (vfs_init static_vfs)) = Some 1"
proof -
  show "find_child (vfs_init static_vfs) 0 [0x61] = None"
    by (auto simp: find_child_def position_None_iff vfs_init_def static_vfs_def MAX_NODES_def in_set_conv_nth nth_list_update
        split: if_splits)
  show "position (\<lambda>s. s = None) (nodes (vfs_init static_vfs)) = Some 1"
    by (rule position_SomeI) (auto simp: vfs_init_def static_vfs_def MAX_NODES_def)
qed

theorem vfs_create_lookup_witness:
  "\<exists>v'. vfs_create 0 [0x61] Directory (vfs_init static_vfs) = (Some 1, v') \<and> vfs_lookup v' [SLASH, 0x61] = Some 1"
proof -
  obtain v' where c: "vfs_create 0 [0x61] Directory (vfs_init static_vfs) = (Some 1, v')"
    by (simp add: vfs_create_def MAX_NAME_LEN_def boot_vfs)
  have "vfs_lookup (vfs_init static_vfs) [] = Some 0" by (simp add: vfs_lookup_components)
  from vfs_create_lookup [OF sample_vfs_unique this c] c show ?thesis by (auto simp: SLASH_def)
qed

end
