(* ===== verification/Vfs_Data.thy ===== *)
theory Vfs_Data
  imports Vfs Address_Space
begin

text \<open>
  File contents. The abstract state of a file is its sequence of bytes; the lemmas relate
  the frame-wise loops of \<open>read\<close> and \<open>write\<close> to taking from and overwriting that sequence.
\<close>

section \<open>Bytes of a file\<close>

definition file_byte :: "mem \<Rightarrow> u64 option list \<Rightarrow> nat \<Rightarrow> u8" where
  "file_byte m frames j = (case frames ! (j div 4096) of Some f \<Rightarrow> m (f + of_nat (j mod 4096)) | None \<Rightarrow> 0)"

definition file_bytes :: "mem \<Rightarrow> u64 option list \<Rightarrow> nat \<Rightarrow> bytes" where
  "file_bytes m frames sz = map (file_byte m frames) [0..<sz]"

lemma length_file_bytes [simp]: "length (file_bytes m fr sz) = sz"
  by (simp add: file_bytes_def)

lemma nth_file_bytes [simp]: "j < sz \<Longrightarrow> file_bytes m fr sz ! j = file_byte m fr j"
  by (simp add: file_bytes_def)

lemma aligned_offset_unat:
  assumes "page_aligned f" "k < 4096"
  shows "unat f + k < 2 ^ 64"
proof -
  obtain q where q: "unat f = 4096 * q" using assms(1) by (auto simp: page_aligned_iff mod_eq_0_iff_dvd elim: dvdE)
  have "4096 * q < 18446744073709551616" using unat_u64_less [of f] q by simp
  then have "q < 4503599627370496" by simp
  then show ?thesis using q assms(2) by simp
qed

lemma add_chk_offset: "page_aligned f \<Longrightarrow> k < 4096 \<Longrightarrow> add_chk f (of_nat k) = Inr (f + of_nat k)"
  using aligned_offset_unat [of f k] by (simp add: add_chk_def unat_of_nat)

lemma write_bytes_in_frame:
  assumes "page_aligned f" "page_aligned g" "off + length bs \<le> 4096" "k < 4096"
  shows "write_bytes m (f + of_nat off) bs (g + of_nat k) =
    (if g = f \<and> off \<le> k \<and> k < off + length bs then bs ! (k - off) else m (g + of_nat k))"
proof (cases "g = f")
  case False
  have "frame_of (g + of_nat k) = g" by (rule frame_of_offset [OF assms(2,4)])
  show ?thesis
  proof (cases "bs = []")
    case True
    then show ?thesis by (auto simp: write_bytes_def)
  next
    case ne: False
    then have off: "off < 4096" using assms(3) by (cases bs) auto
    have "frame_of (f + of_nat off) = f" by (rule frame_of_offset [OF assms(1) off])
    moreover have "unat (f + of_nat off) mod 4096 = off"
    proof -
      have "unat (f + of_nat off) = unat f + off"
        using aligned_offset_unat [OF assms(1) off] off by (simp add: unat_word_ariths unat_of_nat)
      moreover have "unat f mod 4096 = 0" using assms(1) by (simp add: page_aligned_iff)
      ultimately show ?thesis using off by (metis add.right_neutral add_0 mod_add_left_eq mod_less)
    qed
    ultimately show ?thesis
      using write_bytes_other_frame [of "f + of_nat off" bs "g + of_nat k" m] assms(3)
        \<open>frame_of (g + of_nat k) = g\<close> False by simp
  qed
next
  case True
  have e: "f + of_nat k - (f + of_nat off) = (of_nat k :: u64) - of_nat off" by simp
  have u: "unat (of_nat k :: u64) = k" "unat (of_nat off :: u64) = off" using assms(3,4) by (simp_all add: unat_of_nat)
  have "unat ((of_nat k :: u64) - of_nat off) = (if off \<le> k then k - off else k + 2 ^ 64 - off)"
    using unat_sub_if' [of "of_nat k :: u64" "of_nat off"] by (simp add: u word_le_nat_alt)
  then show ?thesis using True assms(3,4) by (auto simp: write_bytes_def e)
qed

section \<open>Reading\<close>

definition frames_ok :: "u64 option list \<Rightarrow> nat \<Rightarrow> bool" where
  "frames_ok fr sz \<longleftrightarrow> length fr = 16 \<and> sz \<le> 65536 \<and> (\<forall>f. Some f \<in> set fr \<longrightarrow> page_aligned f)"

lemma chunk_in_frame:
  assumes "n \<le> 4096 - pos mod 4096" "k < n"
  shows "(pos + k) div 4096 = pos div 4096" "(pos + k) mod 4096 = pos mod 4096 + (k :: nat)"
proof -
  let ?q = "pos div 4096" and ?r = "pos mod 4096"
  have p: "pos + k = 4096 * ?q + (?r + k)" by simp
  have lt: "?r + k < 4096" using assms by linarith
  show "(pos + k) div 4096 = ?q" by (subst p) (simp only: div_mult_self4 lt div_less)
  show "(pos + k) mod 4096 = ?r + k" by (subst p) (simp only: mod_mult_self4 lt mod_less)
qed

lemma read_loop_spec:
  "frames_ok fr sz \<Longrightarrow> read_loop m fr sz pos want = Inr (take want (drop pos (file_bytes m fr sz)))"
proof (induction m fr sz pos want rule: read_loop.induct)
  case (1 m fr sz pos want)
  show ?case
  proof (cases "0 < want \<and> pos < sz")
    case False
    then show ?thesis by (auto simp: read_loop.simps [of m fr sz pos want])
  next
    case True
    let ?i = "pos div 4096" and ?o = "pos mod 4096"
    define n where "n = min want (min (4096 - ?o) (sz - pos))"
    have n: "n \<le> 4096 - ?o" "n \<le> want" "pos + n \<le> sz" using True unfolding n_def by linarith+
    have i: "?i < length fr" using True "1.prems" by (simp add: frames_ok_def div_less_iff_less_mult)
    let ?chunk = "take n (drop pos (file_bytes m fr sz))"
    have len: "length ?chunk = n" using n(3) by simp
    have ch: "(case fr ! ?i of Some frame \<Rightarrow> map_res (\<lambda>src. read_bytes m src n) (add_chk frame (of_nat ?o))
        | None \<Rightarrow> Inr (replicate n 0)) = Inr ?chunk"
    proof (cases "fr ! ?i")
      case None
      have "?chunk ! k = 0" if "k < n" for k
        using that n(3) chunk_in_frame [OF n(1) that] None by (simp add: file_byte_def)
      then have "?chunk = replicate n 0" using len by (intro nth_equalityI) simp_all
      then show ?thesis using None by simp
    next
      case (Some f)
      then have "page_aligned f" using "1.prems" i unfolding frames_ok_def by (metis nth_mem)
      then have a: "add_chk f (of_nat ?o) = Inr (f + of_nat ?o)" by (simp add: add_chk_offset)
      have "read_bytes m (f + of_nat ?o) n = ?chunk"
      proof (rule nth_equalityI)
        fix k
        assume "k < length (read_bytes m (f + of_nat ?o) n)"
        then have k: "k < n" by simp
        then show "read_bytes m (f + of_nat ?o) n ! k = ?chunk ! k"
          using n(3) chunk_in_frame [OF n(1) k] Some by (simp add: file_byte_def add.assoc)
      qed (use len in simp)
      with Some a show ?thesis by simp
    qed
    have IH: "read_loop m fr sz (pos + n) (want - n) = Inr (take (want - n) (drop (pos + n) (file_bytes m fr sz)))"
      using "1.IH" [OF _ refl refl refl, folded n_def] True i ch "1.prems" by (simp add: index_chk_def)
    have "take want (drop pos (file_bytes m fr sz)) = ?chunk @ take (want - n) (drop (pos + n) (file_bytes m fr sz))"
      using take_add [of n "want - n" "drop pos (file_bytes m fr sz)"] n(2) by (simp add: add.commute)
    then show ?thesis using True i ch IH
      unfolding read_loop.simps [of m fr sz pos want] Let_def n_def [symmetric] by (simp add: index_chk_def)
  qed
qed

section \<open>Writing\<close>

text \<open>The write loop's invariant: the file's frames are distinct, aligned and not free, and there is one for
  every byte below the size.\<close>

definition own_frames :: "u64 option list \<Rightarrow> u64 set" where
  "own_frames fr = {f. Some f \<in> set fr}"

definition file_ok :: "frame_allocator \<Rightarrow> u64 option list \<Rightarrow> nat \<Rightarrow> bool" where
  "file_ok fa fr sz \<longleftrightarrow> frames_ok fr sz \<and> own_frames fr \<inter> free_frames fa = {} \<and>
     (\<forall>i j f. i < 16 \<and> j < 16 \<and> fr ! i = Some f \<and> fr ! j = Some f \<longrightarrow> i = j) \<and>
     (\<forall>i<16. i * 4096 < sz \<longrightarrow> fr ! i \<noteq> None)"

definition ws_inv :: "write_state \<Rightarrow> bool" where
  "ws_inv s \<longleftrightarrow> fa_inv (falloc (ws_mach s)) \<and> file_ok (falloc (ws_mach s)) (ws_frames s) (ws_size s) \<and> ws_pos s \<le> ws_size s"

definition ws_bytes :: "write_state \<Rightarrow> bytes" where
  "ws_bytes s = file_bytes (phys (ws_mach s)) (ws_frames s) (ws_size s)"

text \<open>What may change besides the file itself.\<close>

definition ws_frame :: "write_state \<Rightarrow> write_state \<Rightarrow> bool" where
  "ws_frame s s' \<longleftrightarrow> free_frames (falloc (ws_mach s')) \<subseteq> free_frames (falloc (ws_mach s)) \<and>
     managed_frames (falloc (ws_mach s')) = managed_frames (falloc (ws_mach s)) \<and>
     own_frames (ws_frames s') \<subseteq> own_frames (ws_frames s) \<union> free_frames (falloc (ws_mach s)) \<and>
     kernel_cr3 (ws_mach s') = kernel_cr3 (ws_mach s) \<and>
     (\<forall>x. frame_of x \<notin> own_frames (ws_frames s) \<union> free_frames (falloc (ws_mach s)) \<longrightarrow>
        phys (ws_mach s') x = phys (ws_mach s) x)"

lemma ws_frame_refl: "ws_frame s s"
  by (simp add: ws_frame_def)

lemma ws_frame_trans:
  assumes "ws_frame a b" "ws_frame b c"
  shows "ws_frame a c"
proof -
  have "phys (ws_mach c) x = phys (ws_mach a) x"
    if x: "frame_of x \<notin> own_frames (ws_frames a) \<union> free_frames (falloc (ws_mach a))" for x
  proof -
    have "frame_of x \<notin> own_frames (ws_frames b) \<union> free_frames (falloc (ws_mach b))"
      using assms(1) x unfolding ws_frame_def by blast
    then have "phys (ws_mach c) x = phys (ws_mach b) x" using assms(2) unfolding ws_frame_def by blast
    also have "\<dots> = phys (ws_mach a) x" using assms(1) x unfolding ws_frame_def by blast
    finally show ?thesis .
  qed
  with assms show ?thesis unfolding ws_frame_def by (auto simp only: Un_iff subset_iff)
qed

lemma own_frames_nth: "f \<in> own_frames fr \<longleftrightarrow> (\<exists>i<length fr. fr ! i = Some f)"
  by (auto simp: own_frames_def in_set_conv_nth)

lemma own_frames_update:
  "i < length fr \<Longrightarrow> fr ! i = None \<Longrightarrow> own_frames (fr[i := Some f]) = insert f (own_frames fr)"
  by (auto simp: own_frames_nth nth_list_update split: if_splits) (metis option.distinct(1))+

lemma file_okD:
  assumes "file_ok fa fr sz"
  shows "length fr = 16" "sz \<le> 65536" "\<And>i f. i < 16 \<Longrightarrow> fr ! i = Some f \<Longrightarrow> page_aligned f \<and> f \<notin> free_frames fa"
    "\<And>i j f. i < 16 \<Longrightarrow> j < 16 \<Longrightarrow> fr ! i = Some f \<Longrightarrow> fr ! j = Some f \<Longrightarrow> i = j"
    "\<And>i. i < 16 \<Longrightarrow> i * 4096 < sz \<Longrightarrow> fr ! i \<noteq> None"
proof -
  have l: "length fr = 16" using assms by (simp add: file_ok_def frames_ok_def)
  then show "length fr = 16" .
  show "page_aligned f \<and> f \<notin> free_frames fa" if "i < 16" "fr ! i = Some f" for i f
  proof -
    have "Some f \<in> set fr" using that l nth_mem [of i fr] by simp
    then show ?thesis using assms by (auto simp: file_ok_def frames_ok_def own_frames_def)
  qed
qed (use assms in \<open>auto simp: file_ok_def frames_ok_def\<close>)

lemma alloc_frame_cases:
  assumes "fa_inv (falloc m)" "alloc_frame m = (r, m')"
  shows "phys m' = phys m" "kernel_cr3 m' = kernel_cr3 m" "fa_inv (falloc m')"
    "managed_frames (falloc m') = managed_frames (falloc m)"
    "case r of None \<Rightarrow> free_frames (falloc m) = {} \<and> free_frames (falloc m') = {}
     | Some f \<Rightarrow> f \<in> free_frames (falloc m) \<and> page_aligned f \<and> free_frames (falloc m') = free_frames (falloc m) - {f}"
proof -
  obtain fa' where al: "allocate_frame (falloc m) = (r, fa')" "m' = m\<lparr>falloc := fa'\<rparr>"
    using assms(2) by (auto simp: alloc_frame_def split: prod.splits)
  then show "phys m' = phys m" "kernel_cr3 m' = kernel_cr3 m" by simp_all
  have "fa_inv fa' \<and> managed_frames fa' = managed_frames (falloc m) \<and> (case r of None \<Rightarrow> free_frames (falloc m) = {} \<and> free_frames fa' = {}
     | Some f \<Rightarrow> f \<in> free_frames (falloc m) \<and> page_aligned f \<and> free_frames fa' = free_frames (falloc m) - {f})"
  proof (cases r)
    case None
    then show ?thesis using fa.alloc_empty [OF assms(1)] al(1) by auto
  next
    case (Some f)
    then show ?thesis using fa.alloc_take [OF assms(1)] fa.alloc_aligned [OF assms(1)] al(1) by auto
  qed
  then show "fa_inv (falloc m')" "managed_frames (falloc m') = managed_frames (falloc m)"
    "case r of None \<Rightarrow> free_frames (falloc m) = {} \<and> free_frames (falloc m') = {}
     | Some f \<Rightarrow> f \<in> free_frames (falloc m) \<and> page_aligned f \<and> free_frames (falloc m') = free_frames (falloc m) - {f}"
    using al(2) by (simp_all split: option.splits)
qed

lemma ensure_frame_spec:
  assumes inv: "ws_inv s" and i: "i < 16" "i * 4096 \<le> ws_pos s"
  shows "ws_inv (ensure_frame i s)" "ws_frame s (ensure_frame i s)" "ws_bytes (ensure_frame i s) = ws_bytes s"
    "ws_size (ensure_frame i s) = ws_size s" "ws_pos (ensure_frame i s) = ws_pos s" "ws_written (ensure_frame i s) = ws_written s"
    "ws_frames (ensure_frame i s) ! i = None \<Longrightarrow> free_frames (falloc (ws_mach (ensure_frame i s))) = {}"
    "phys (ws_mach (ensure_frame i s)) = phys (ws_mach s)"
proof -
  have fa: "fa_inv (falloc (ws_mach s))" and ok: "file_ok (falloc (ws_mach s)) (ws_frames s) (ws_size s)"
    and pos: "ws_pos s \<le> ws_size s" using inv by (auto simp: ws_inv_def)
  note d = file_okD [OF ok]
  let ?e = "ensure_frame i s"
  have "ws_inv ?e \<and> ws_frame s ?e \<and> ws_bytes ?e = ws_bytes s \<and> ws_size ?e = ws_size s \<and> ws_pos ?e = ws_pos s \<and>
    ws_written ?e = ws_written s \<and> (ws_frames ?e ! i = None \<longrightarrow> free_frames (falloc (ws_mach ?e)) = {}) \<and> phys (ws_mach ?e) = phys (ws_mach s)"
  proof (cases "ws_frames s ! i")
    case (Some f)
    then show ?thesis using inv by (simp add: ensure_frame_def ws_frame_refl)
  next
    case None
    have sz: "ws_size s \<le> i * 4096" using d(5) [OF i(1)] None by (meson not_le)
    obtain r m where al: "alloc_frame (ws_mach s) = (r, m)" by fastforce
    note a = alloc_frame_cases [OF fa al]
    have e: "?e = s\<lparr>ws_mach := m, ws_frames := (ws_frames s)[i := r]\<rparr>" using None al by (simp add: ensure_frame_def)
    show ?thesis
    proof (cases r)
      case n: None
      then have "(ws_frames s)[i := r] = ws_frames s" using None by (metis list_update_id)
      then show ?thesis using a n ok pos None
        by (simp add: e ws_inv_def ws_frame_def ws_bytes_def file_ok_def)
    next
      case (Some f)
      then have f: "f \<in> free_frames (falloc (ws_mach s))" "page_aligned f"
        "free_frames (falloc m) = free_frames (falloc (ws_mach s)) - {f}" using a(5) by auto
      have own: "own_frames ((ws_frames s)[i := r]) = insert f (own_frames (ws_frames s))"
        using own_frames_update i(1) d(1) None Some by simp
      have fresh: "f \<notin> own_frames (ws_frames s)" using ok f(1) by (auto simp: file_ok_def)
      have fo: "frames_ok ((ws_frames s)[i := r]) (ws_size s)"
        using ok f(2) own unfolding file_ok_def frames_ok_def own_frames_def by auto
      have inj: "\<forall>j k g. j < 16 \<and> k < 16 \<and> (ws_frames s)[i := r] ! j = Some g \<and> (ws_frames s)[i := r] ! k = Some g \<longrightarrow> j = k"
        using d(1,4) fresh i(1) Some by (auto simp: nth_list_update own_frames_nth split: if_splits)
      have cov: "\<forall>j<16. j * 4096 < ws_size s \<longrightarrow> (ws_frames s)[i := r] ! j \<noteq> None"
        using d(1,5) i(1) Some by (auto simp: nth_list_update)
      have "file_ok (falloc m) ((ws_frames s)[i := r]) (ws_size s)"
        using fo inj cov own fresh ok f(3) unfolding file_ok_def by auto
      moreover have "file_bytes (phys m) ((ws_frames s)[i := r]) (ws_size s) = ws_bytes s"
      proof (rule nth_equalityI)
        fix j
        assume "j < length (file_bytes (phys m) ((ws_frames s)[i := r]) (ws_size s))"
        then have j: "j < ws_size s" by simp
        then have "j div 4096 \<noteq> i" using sz by (metis div_less_iff_less_mult less_irrefl order_less_le_trans zero_less_numeral)
        then show "file_bytes (phys m) ((ws_frames s)[i := r]) (ws_size s) ! j = ws_bytes s ! j"
          using j a(1) by (simp add: ws_bytes_def file_byte_def)
      qed (simp add: ws_bytes_def)
      ultimately show ?thesis using a(1-4) f own pos d(1) i(1) Some
        by (auto simp: e ws_inv_def ws_frame_def ws_bytes_def)
    qed
  qed
  then show "ws_inv ?e" "ws_frame s ?e" "ws_bytes ?e = ws_bytes s" "ws_size ?e = ws_size s" "ws_pos ?e = ws_pos s"
    "ws_written ?e = ws_written s" "ws_frames ?e ! i = None \<Longrightarrow> free_frames (falloc (ws_mach ?e)) = {}"
    "phys (ws_mach ?e) = phys (ws_mach s)" by blast+
qed

lemma put_chunk_spec:
  assumes inv: "ws_inv s" and f: "ws_frames s ! (ws_pos s div 4096) = Some f" and i: "ws_pos s div 4096 < 16"
    and ch: "ws_pos s mod 4096 + length chunk \<le> 4096"
  shows "ws_inv (put_chunk (f + of_nat (ws_pos s mod 4096)) chunk s)"
    "ws_frame s (put_chunk (f + of_nat (ws_pos s mod 4096)) chunk s)"
    "ws_bytes (put_chunk (f + of_nat (ws_pos s mod 4096)) chunk s) = overwrite (ws_bytes s) (ws_pos s) chunk"
proof -
  let ?p = "put_chunk (f + of_nat (ws_pos s mod 4096)) chunk s"
  let ?i = "ws_pos s div 4096" and ?o = "ws_pos s mod 4096"
  have fa: "fa_inv (falloc (ws_mach s))" and ok: "file_ok (falloc (ws_mach s)) (ws_frames s) (ws_size s)"
    and pos: "ws_pos s \<le> ws_size s" using inv by (auto simp: ws_inv_def)
  note d = file_okD [OF ok]
  have af: "page_aligned f" using d(3) [OF i f] by blast
  have sz: "ws_size ?p = max (ws_size s) (ws_pos s + length chunk)"
    and fields: "ws_frames ?p = ws_frames s" "ws_pos ?p = ws_pos s + length chunk" "falloc (ws_mach ?p) = falloc (ws_mach s)"
      "kernel_cr3 (ws_mach ?p) = kernel_cr3 (ws_mach s)"
      "phys (ws_mach ?p) = write_bytes (phys (ws_mach s)) (f + of_nat ?o) chunk"
    by (simp_all add: put_chunk_def Let_def)
  have fin: "ws_pos s + length chunk \<le> 4096 * Suc ?i"
  proof -
    have "ws_pos s = 4096 * ?i + ?o" by simp
    then have "ws_pos s + length chunk \<le> 4096 * ?i + 4096" using ch by linarith
    then show ?thesis by simp
  qed
  have szb: "ws_size ?p \<le> 65536" using sz d(2) fin i by simp
  have cov: "ws_frames s ! j \<noteq> None" if "j < 16" "j * 4096 < ws_size ?p" for j
  proof (cases "j * 4096 < ws_size s")
    case False
    then have lt: "j * 4096 < ws_pos s + length chunk" and ge: "ws_pos s \<le> j * 4096" using that(2) sz pos by auto
    have "4096 * j < 4096 * Suc ?i" using order_less_le_trans [OF lt fin] by (simp only: mult.commute)
    then have "j < Suc ?i" by (simp only: mult_less_cancel1)
    moreover have "?i \<le> j" using ge by (metis div_le_mono nonzero_mult_div_cancel_right zero_neq_numeral)
    ultimately have "j = ?i" by simp
    then show ?thesis using f by simp
  qed (rule d(5) [OF that(1)])
  have "file_ok (falloc (ws_mach ?p)) (ws_frames ?p) (ws_size ?p)"
    using ok szb cov unfolding file_ok_def frames_ok_def fields by blast
  then show "ws_inv ?p" using fa unfolding ws_inv_def fields sz by simp
  have own: "f \<in> own_frames (ws_frames s)" using f i d(1) by (auto simp: own_frames_nth)
  have other: "phys (ws_mach ?p) x = phys (ws_mach s) x" if "frame_of x \<noteq> f" for x
  proof -
    have x: "x = frame_of x + of_nat (unat x mod 4096)"
      using and_not_FFF_or [of x] by (simp add: frame_of_def unat_and_FFF [symmetric])
    have lt: "unat x mod 4096 < 4096" by simp
    show ?thesis unfolding fields
      using write_bytes_in_frame [OF af page_aligned_frame_of [of x] ch lt, of "phys (ws_mach s)"] that
      by (simp only: x [symmetric] simp_thms if_False)
  qed
  have "\<forall>x. frame_of x \<notin> own_frames (ws_frames s) \<union> free_frames (falloc (ws_mach s)) \<longrightarrow>
      phys (ws_mach ?p) x = phys (ws_mach s) x"
    using other own by (metis Un_iff)
  then show "ws_frame s ?p" unfolding ws_frame_def fields by simp
  show "ws_bytes ?p = overwrite (ws_bytes s) (ws_pos s) chunk"
  proof (rule nth_equalityI)
    show "length (ws_bytes ?p) = length (overwrite (ws_bytes s) (ws_pos s) chunk)"
      using pos by (simp add: ws_bytes_def length_overwrite sz)
  next
    fix j
    assume "j < length (ws_bytes ?p)"
    then have j: "j < max (ws_size s) (ws_pos s + length chunk)" "j < ws_size ?p" by (simp_all add: ws_bytes_def sz)
    have jd: "j div 4096 < 16" using j(2) szb by (simp add: div_less_iff_less_mult)
    have "j div 4096 * 4096 \<le> j" by simp
    then have "j div 4096 * 4096 < ws_size ?p" using j(2) by linarith
    with cov [OF jd] obtain g where g: "ws_frames s ! (j div 4096) = Some g" by blast
    have ag: "page_aligned g" using d(3) [OF jd g] by blast
    have gf: "g = f \<longleftrightarrow> j div 4096 = ?i" using d(4) [OF jd i] f g by auto
    have rng: "j div 4096 = ?i \<and> ?o \<le> j mod 4096 \<and> j mod 4096 < ?o + length chunk \<longleftrightarrow>
        ws_pos s \<le> j \<and> j < ws_pos s + length chunk" (is "?L \<longleftrightarrow> ?R")
    proof
      assume L: ?L
      have "j = 4096 * ?i + j mod 4096" using L mult_div_mod_eq [of 4096 j] by simp
      moreover have "ws_pos s = 4096 * ?i + ?o" by simp
      ultimately show ?R using L by linarith
    next
      assume R: ?R
      define k where "k = j - ws_pos s"
      have k: "j = ws_pos s + k" "k < length chunk" using R by (simp_all add: k_def) linarith
      have n: "length chunk \<le> 4096 - ?o" using ch by linarith
      show ?L using chunk_in_frame [OF n k(2)] k by simp
    qed
    have off: "j mod 4096 - ?o = j - ws_pos s" if "ws_pos s \<le> j" "j < ws_pos s + length chunk"
    proof -
      define k where "k = j - ws_pos s"
      have k: "j = ws_pos s + k" "k < length chunk" using that by (simp_all add: k_def)
      have n: "length chunk \<le> 4096 - ?o" using ch by linarith
      show ?thesis using chunk_in_frame [OF n k(2)] k by simp
    qed
    have "ws_bytes ?p ! j = write_bytes (phys (ws_mach s)) (f + of_nat ?o) chunk (g + of_nat (j mod 4096))"
      using j(2) g by (simp add: ws_bytes_def fields file_byte_def)
    also have "\<dots> = (if g = f \<and> ?o \<le> j mod 4096 \<and> j mod 4096 < ?o + length chunk then chunk ! (j mod 4096 - ?o)
        else phys (ws_mach s) (g + of_nat (j mod 4096)))"
      by (rule write_bytes_in_frame [OF af ag ch]) simp
    also have "\<dots> = (if ws_pos s \<le> j \<and> j < ws_pos s + length chunk then chunk ! (j - ws_pos s)
        else phys (ws_mach s) (g + of_nat (j mod 4096)))"
      unfolding gf rng by (rule if_cong) (simp_all add: off)
    also have "\<dots> = overwrite (ws_bytes s) (ws_pos s) chunk ! j"
      using nth_overwrite [of "ws_pos s" "ws_bytes s" j chunk] pos j(1) g
      by (auto simp: ws_bytes_def file_byte_def)
    finally show "ws_bytes ?p ! j = overwrite (ws_bytes s) (ws_pos s) chunk ! j" .
  qed
qed

lemma chunk_min: "(c :: nat) \<le> r \<Longrightarrow> min l c + min (l - min l c) (r - min l c) = min l r"
  by linarith

lemma write_loop_spec:
  "ws_inv s \<Longrightarrow> \<exists>ok s' n. write_loop rest s = Inr (ok, s') \<and> ws_inv s' \<and> ws_frame s s' \<and> n \<le> length rest \<and>
     ws_written s' = ws_written s + n \<and> ws_pos s' = ws_pos s + n \<and>
     ws_bytes s' = overwrite (ws_bytes s) (ws_pos s) (take n rest) \<and>
     (ok \<longrightarrow> n = min (length rest) (65536 - ws_pos s)) \<and> (\<not> ok \<longrightarrow> free_frames (falloc (ws_mach s')) = {})"
proof (induction rest s rule: write_loop.induct)
  case (1 rest s)
  let ?i = "ws_pos s div 4096" and ?o = "ws_pos s mod 4096"
  have pos: "ws_pos s \<le> ws_size s" "ws_size s \<le> 65536"
    using "1.prems" file_okD(2) by (auto simp: ws_inv_def)
  have nil: "overwrite (ws_bytes s) (ws_pos s) [] = ws_bytes s" by (simp add: overwrite_def)
  show ?case
  proof (cases "rest = [] \<or> ?i \<ge> 16")
    case True
    then have "min (length rest) (65536 - ws_pos s) = 0"
    proof
      assume "?i \<ge> 16"
      then have "65536 \<le> ws_pos s" by (simp add: less_eq_div_iff_mult_less_eq)
      then show ?thesis by simp
    qed simp
    moreover have "write_loop rest s = Inr (True, s)"
      using True by (auto simp: write_loop.simps [of rest s] FILE_DATA_FRAMES_def Let_def)
    ultimately show ?thesis using "1.prems" nil
      by (intro exI [of _ True] exI [of _ s] exI [of _ 0]) (simp add: ws_frame_refl)
  next
    case False
    then have ne: "rest \<noteq> []" and i: "?i < 16" by auto
    define n where "n = min (length rest) (4096 - ?o)"
    define s1 where "s1 = ensure_frame ?i s"
    have "?i * 4096 \<le> ws_pos s" by simp
    note e = ensure_frame_spec [OF "1.prems" i this, folded s1_def]
    show ?thesis
    proof (cases "ws_frames s1 ! ?i")
      case None
      have "write_loop rest s = Inr (False, s1)"
        using ne i None unfolding write_loop.simps [of rest s] Let_def s1_def [symmetric] FILE_DATA_FRAMES_def by simp
      then show ?thesis using e None nil
        by (intro exI [of _ False] exI [of _ s1] exI [of _ 0]) simp
    next
      case (Some f)
      have ok1: "file_ok (falloc (ws_mach s1)) (ws_frames s1) (ws_size s1)" using e(1) by (simp add: ws_inv_def)
      have af: "page_aligned f" using file_okD(3) [OF ok1 i Some] by blast
      have ol: "?o < 4096" by simp
      let ?s2 = "put_chunk (f + of_nat ?o) (take n rest) s1"
      have len: "length (take n rest) = n" and ol2: "?o + n \<le> 4096" by (simp_all add: n_def)
      note p = put_chunk_spec [OF e(1), unfolded e(5), OF Some i, of "take n rest", unfolded len, OF ol2]
      have f2: "ws_pos ?s2 = ws_pos s + n" "ws_written ?s2 = ws_written s + n"
        using len by (simp_all add: put_chunk_def Let_def e(5,6))
      from "1.IH" [OF ne refl _ refl refl refl, folded n_def s1_def, unfolded FILE_DATA_FRAMES_def, OF _ Some add_chk_offset [OF af ol] p(1)] i
      obtain ok s' k where IH: "write_loop (drop n rest) ?s2 = Inr (ok, s')" "ws_inv s'" "ws_frame ?s2 s'" "k \<le> length (drop n rest)"
        "ws_written s' = ws_written ?s2 + k" "ws_pos s' = ws_pos ?s2 + k"
        "ws_bytes s' = overwrite (ws_bytes ?s2) (ws_pos ?s2) (take k (drop n rest))"
        "ok \<longrightarrow> k = min (length (drop n rest)) (65536 - ws_pos ?s2)" "\<not> ok \<longrightarrow> free_frames (falloc (ws_mach s')) = {}"
        by (auto simp: not_le)
      have run: "write_loop rest s = Inr (ok, s')"
        using ne i Some add_chk_offset [OF af ol] IH(1)
        unfolding write_loop.simps [of rest s] Let_def s1_def [symmetric] n_def [symmetric] FILE_DATA_FRAMES_def by simp
      have "ws_bytes s' = overwrite (ws_bytes s) (ws_pos s) (take (n + k) rest)"
      proof -
        have "ws_pos s \<le> length (ws_bytes s)" using pos by (simp add: ws_bytes_def)
        then have "overwrite (overwrite (ws_bytes s) (ws_pos s) (take n rest)) (ws_pos s + length (take n rest)) (take k (drop n rest))
            = overwrite (ws_bytes s) (ws_pos s) (take n rest @ take k (drop n rest))" by (rule overwrite_append)
        then show ?thesis using IH(7) p(3) e(3,5) f2(1) len by (simp add: take_add)
      qed
      moreover have "n + k \<le> length rest" using IH(4) len by (simp add: n_def)
      moreover have "n + k = min (length rest) (65536 - ws_pos s)" if "ok"
      proof -
        have "ws_pos s = 4096 * ?i + ?o" by simp
        then have "ws_pos s + (4096 - ?o) = 4096 * ?i + 4096" using ol by linarith
        moreover have "4096 * ?i + 4096 \<le> 65536" using i by simp
        ultimately have "4096 - ?o \<le> 65536 - ws_pos s" by linarith
        note c = chunk_min [OF this, of "length rest", folded n_def]
        have "k = min (length rest - n) (65536 - ws_pos s - n)" using IH(8) that unfolding f2(1) by simp
        with c show ?thesis by simp
      qed
      moreover have "ws_frame s s'" using ws_frame_trans [OF ws_frame_trans [OF e(2) p(2)] IH(3)] .
      ultimately show ?thesis using run IH(2,5,6,9) f2
        by (intro exI [of _ ok] exI [of _ s'] exI [of _ "n + k"]) auto
    qed
  qed
qed

section \<open>The whole filesystem\<close>

text \<open>Every file is well-formed, no frame belongs to two files, and every open file refers to a node and is
  positioned within it.\<close>

definition vfs_inv :: "vfs \<Rightarrow> machine \<Rightarrow> bool" where
  "vfs_inv v m \<longleftrightarrow> fa_inv (falloc m) \<and> length (nodes v) = MAX_NODES \<and> length (file_data v) = MAX_NODES \<and>
     length (file_sizes v) = MAX_NODES \<and> length (open_files v) = MAX_OPEN_FILES \<and>
     (\<forall>n<MAX_NODES. file_ok (falloc m) (file_data v ! n) (file_sizes v ! n)) \<and>
     (\<forall>n<MAX_NODES. \<forall>n'<MAX_NODES. n \<noteq> n' \<longrightarrow> own_frames (file_data v ! n) \<inter> own_frames (file_data v ! n') = {}) \<and>
     (\<forall>f. Some f \<in> set (open_files v) \<longrightarrow> of_node f < MAX_NODES \<and> of_position f \<le> file_sizes v ! of_node f)"

definition contents :: "vfs \<Rightarrow> machine \<Rightarrow> NodeId \<Rightarrow> bytes" where
  "contents v m n = file_bytes (phys m) (file_data v ! n) (file_sizes v ! n)"

lemma vfs_invD:
  assumes "vfs_inv v m"
  shows "fa_inv (falloc m)" "length (nodes v) = MAX_NODES" "length (file_data v) = MAX_NODES" "length (file_sizes v) = MAX_NODES"
    "length (open_files v) = MAX_OPEN_FILES" "\<And>n. n < MAX_NODES \<Longrightarrow> file_ok (falloc m) (file_data v ! n) (file_sizes v ! n)"
    "\<And>n n'. n < MAX_NODES \<Longrightarrow> n' < MAX_NODES \<Longrightarrow> n \<noteq> n' \<Longrightarrow> own_frames (file_data v ! n) \<inter> own_frames (file_data v ! n') = {}"
    "\<And>h f. h < MAX_OPEN_FILES \<Longrightarrow> open_files v ! h = Some f \<Longrightarrow> of_node f < MAX_NODES \<and> of_position f \<le> file_sizes v ! of_node f"
  using assms nth_mem unfolding vfs_inv_def by (blast, blast, blast, blast, blast, blast, blast, metis)

lemma file_bytes_cong:
  assumes ok: "file_ok fa fr sz" and same: "\<And>x. frame_of x \<in> own_frames fr \<Longrightarrow> m' x = m x"
  shows "file_bytes m' fr sz = file_bytes m fr sz"
proof (rule nth_equalityI)
  fix j
  assume "j < length (file_bytes m' fr sz)"
  then have j: "j < sz" by simp
  note d = file_okD [OF ok]
  have jd: "j div 4096 < 16" using j d(2) by (simp add: div_less_iff_less_mult)
  show "file_bytes m' fr sz ! j = file_bytes m fr sz ! j"
  proof (cases "fr ! (j div 4096)")
    case (Some f)
    have "frame_of (f + of_nat (j mod 4096)) = f" using d(3) [OF jd Some] by (simp add: frame_of_offset)
    moreover have "f \<in> own_frames fr" using Some jd d(1) by (auto simp: own_frames_nth)
    ultimately show ?thesis using same [of "f + of_nat (j mod 4096)"] Some j by (simp add: file_byte_def)
  qed (use j in \<open>simp add: file_byte_def\<close>)
qed simp

lemma vfs_read_spec:
  assumes "vfs_inv v m" "h < MAX_OPEN_FILES" "open_files v ! h = Some f"
  shows "vfs_read h len v (phys m) =
    (let bs = take len (drop (of_position f) (contents v m (of_node f)))
     in Inr (Some bs, v\<lparr>open_files := (open_files v)[h := Some (f\<lparr>of_position := of_position f + length bs\<rparr>)]\<rparr>))"
proof -
  note d = vfs_invD [OF assms(1)]
  have n: "of_node f < MAX_NODES" using d(8) [OF assms(2,3)] by blast
  have "frames_ok (file_data v ! of_node f) (file_sizes v ! of_node f)" using d(6) [OF n] by (simp add: file_ok_def)
  note r = read_loop_spec [OF this, of "phys m" "of_position f" len]
  show ?thesis using assms(2,3) d n by (simp add: vfs_read_def index_chk_def r contents_def Let_def)
qed

lemma vfs_inv_position:
  assumes "vfs_inv v m" "h < MAX_OPEN_FILES" "open_files v ! h = Some f" "p \<le> file_sizes v ! of_node f"
  shows "vfs_inv (v\<lparr>open_files := (open_files v)[h := Some (f\<lparr>of_position := p\<rparr>)]\<rparr>) m"
proof -
  have "of_node g < MAX_NODES \<and> of_position g \<le> file_sizes v ! of_node g"
    if "Some g \<in> set ((open_files v)[h := Some (f\<lparr>of_position := p\<rparr>)])" for g
    using that set_update_subset_insert [of "open_files v" h] assms(1,4) vfs_invD(8) [OF assms(1-3)]
    unfolding vfs_inv_def by fastforce
  then show ?thesis using assms(1) unfolding vfs_inv_def by simp
qed

lemma vfs_write_spec:
  assumes inv: "vfs_inv v m" and h: "h < MAX_OPEN_FILES" "open_files v ! h = Some f" and wr: "of_writable f"
  shows "\<exists>r v' m' n. vfs_write h buf v m = Inr (r, v', m') \<and> vfs_inv v' m' \<and> n \<le> length buf \<and>
    contents v' m' (of_node f) = overwrite (contents v m (of_node f)) (of_position f) (take n buf) \<and>
    (\<forall>k<MAX_NODES. k \<noteq> of_node f \<longrightarrow> contents v' m' k = contents v m k) \<and>
    open_files v' = (open_files v)[h := Some (f\<lparr>of_position := of_position f + n\<rparr>)] \<and> nodes v' = nodes v \<and>
    (r = Some n \<and> n = min (length buf) (65536 - of_position f) \<or> r = None \<and> free_frames (falloc m') = {})"
proof -
  note d = vfs_invD [OF inv]
  let ?n = "of_node f"
  let ?s = "\<lparr>ws_mach = m, ws_frames = file_data v ! ?n, ws_size = file_sizes v ! ?n, ws_pos = of_position f, ws_written = 0\<rparr>"
  have nn: "?n < MAX_NODES" and ps: "of_position f \<le> file_sizes v ! ?n" using d(8) [OF h] by auto
  have "ws_inv ?s" using d(1) d(6) [OF nn] ps by (simp add: ws_inv_def)
  from write_loop_spec [OF this, of buf] obtain ok s' n where
    w: "write_loop buf ?s = Inr (ok, s')" "ws_inv s'" "ws_frame ?s s'" "n \<le> length buf" "ws_written s' = n" "ws_pos s' = of_position f + n"
      "ws_bytes s' = overwrite (contents v m ?n) (of_position f) (take n buf)"
      "ok \<longrightarrow> n = min (length buf) (65536 - of_position f)" "\<not> ok \<longrightarrow> free_frames (falloc (ws_mach s')) = {}"
    by (auto simp: ws_bytes_def contents_def)
  let ?v = "v\<lparr>open_files := (open_files v)[h := Some (f\<lparr>of_position := ws_pos s'\<rparr>)],
      file_sizes := (file_sizes v)[?n := ws_size s'], file_data := (file_data v)[?n := ws_frames s']\<rparr>"
  have run: "vfs_write h buf v m = Inr (if ok then Some n else None, ?v, ws_mach s')"
    using h wr d nn w(1,5) by (simp add: vfs_write_def index_chk_def)
  have grow: "file_sizes v ! ?n \<le> ws_size s'"
  proof -
    have "length (ws_bytes s') = max (file_sizes v ! ?n) (of_position f + n)"
      unfolding w(7) using ps w(4) by (simp add: length_overwrite contents_def)
    then show ?thesis by (simp add: ws_bytes_def)
  qed
  have fr: "free_frames (falloc (ws_mach s')) \<subseteq> free_frames (falloc m)"
    "own_frames (ws_frames s') \<subseteq> own_frames (file_data v ! ?n) \<union> free_frames (falloc m)"
    "\<And>x. frame_of x \<notin> own_frames (file_data v ! ?n) \<union> free_frames (falloc m) \<Longrightarrow> phys (ws_mach s') x = phys m x"
    using w(3) by (auto simp: ws_frame_def)
  have nofree: "own_frames (file_data v ! k) \<inter> free_frames (falloc m) = {}" if "k < MAX_NODES" for k
    using d(6) [OF that] by (simp add: file_ok_def)
  have ok': "file_ok (falloc (ws_mach s')) (file_data ?v ! k) (file_sizes ?v ! k)" if "k < MAX_NODES" for k
  proof (cases "k = ?n")
    case True
    then show ?thesis using w(2) nn d by (simp add: ws_inv_def)
  next
    case False
    then show ?thesis using d(6) [OF that] fr(1) by (auto simp: file_ok_def)
  qed
  have disj: "own_frames (file_data ?v ! k) \<inter> own_frames (file_data ?v ! k') = {}"
    if "k < MAX_NODES" "k' < MAX_NODES" "k \<noteq> k'" for k k'
    using that d(3,7) nn fr(2) nofree by (auto simp: nth_list_update) blast+
  have op: "of_node g < MAX_NODES \<and> of_position g \<le> file_sizes ?v ! of_node g" if "Some g \<in> set (open_files ?v)" for g
  proof -
    from that consider "g = f\<lparr>of_position := ws_pos s'\<rparr>" | "Some g \<in> set (open_files v)"
      using set_update_subset_insert [of "open_files v" h] by auto
    then show ?thesis
    proof cases
      case 1
      then show ?thesis using nn w(2) d by (simp add: ws_inv_def)
    next
      case 2
      then have "of_node g < MAX_NODES" "of_position g \<le> file_sizes v ! of_node g" using inv by (auto simp: vfs_inv_def)
      then show ?thesis using grow d nn by (auto simp: nth_list_update)
    qed
  qed
  have inv': "vfs_inv ?v (ws_mach s')" unfolding vfs_inv_def
    using ok' disj op w(2) d by (simp add: ws_inv_def)
  have "contents ?v (ws_mach s') k = contents v m k" if "k < MAX_NODES" "k \<noteq> ?n" for k
    unfolding contents_def using that
    by (simp, intro file_bytes_cong [OF d(6)] fr(3)) (use d(7) [OF that(1) nn] nofree [OF that(1)] that in auto)
  moreover have "contents ?v (ws_mach s') ?n = ws_bytes s'" using nn d by (simp add: contents_def ws_bytes_def)
  ultimately show ?thesis using run inv' w(4,6-9)
    by (intro exI [of _ "if ok then Some n else None"] exI [of _ ?v] exI [of _ "ws_mach s'"] exI [of _ n]) auto
qed

section \<open>The other operations\<close>

lemma vfs_open_Some:
  assumes "vfs_open n w v = Inr (Some h, v')"
  shows "n < length (nodes v)" "h < length (open_files v)"
    "v' = v\<lparr>open_files := (open_files v)[h := Some \<lparr>of_node = n, of_position = 0, of_writable = w\<rparr>]\<rparr>"
    "\<exists>nd. nodes v ! n = Some nd \<and> node_kind nd = File" "open_files v ! h = None"
proof -
  have "n < length (nodes v) \<and> (\<exists>nd. nodes v ! n = Some nd \<and> node_kind nd = File) \<and>
      position (\<lambda>s. s = None) (open_files v) = Some h \<and>
      v' = v\<lparr>open_files := (open_files v)[h := Some \<lparr>of_node = n, of_position = 0, of_writable = w\<rparr>]\<rparr>"
    using assms by (auto simp: vfs_open_def bind_res_Inr_iff index_chk_Inr_iff split: option.splits if_splits)
  then show "n < length (nodes v)" "h < length (open_files v)"
    "v' = v\<lparr>open_files := (open_files v)[h := Some \<lparr>of_node = n, of_position = 0, of_writable = w\<rparr>]\<rparr>"
    "\<exists>nd. nodes v ! n = Some nd \<and> node_kind nd = File" "open_files v ! h = None"
    using position_SomeD(1,2) [of "\<lambda>s. s = None" "open_files v" h] by auto
qed

lemma vfs_inv_open_files:
  assumes "vfs_inv v m" "length fs = MAX_OPEN_FILES"
    "\<And>f. Some f \<in> set fs \<Longrightarrow> of_node f < MAX_NODES \<and> of_position f \<le> file_sizes v ! of_node f"
  shows "vfs_inv (v\<lparr>open_files := fs\<rparr>) m"
  using assms unfolding vfs_inv_def by simp

lemma vfs_inv_create: "vfs_inv v m \<Longrightarrow> vfs_inv (snd (vfs_create p name kind v)) m"
  by (auto simp: vfs_inv_def vfs_create_def split: option.splits)

lemma vfs_inv_open:
  assumes inv: "vfs_inv v m" and run: "vfs_open n w v = Inr (r, v')"
  shows "vfs_inv v' m"
proof (cases r)
  case None
  then have "v' = v" using run by (auto simp: vfs_open_def bind_res_Inr_iff split: option.splits if_splits)
  then show ?thesis using inv by simp
next
  case (Some h)
  note o = vfs_open_Some [OF run [unfolded Some]]
  have "of_node f < MAX_NODES \<and> of_position f \<le> file_sizes v ! of_node f"
    if "Some f \<in> set ((open_files v)[h := Some \<lparr>of_node = n, of_position = 0, of_writable = w\<rparr>])" for f
    using that set_update_subset_insert [of "open_files v" h] inv o(1) unfolding vfs_inv_def by fastforce
  then show ?thesis unfolding o(3) using inv by (intro vfs_inv_open_files) (auto simp: vfs_inv_def)
qed

lemma vfs_inv_close:
  assumes inv: "vfs_inv v m" and run: "vfs_close h v = Inr (r, v')"
  shows "vfs_inv v' m"
proof -
  have "v' = v \<or> v' = v\<lparr>open_files := (open_files v)[h := None]\<rparr>"
    using run by (auto simp: vfs_close_def bind_res_Inr_iff split: if_splits)
  moreover have "vfs_inv (v\<lparr>open_files := (open_files v)[h := None]\<rparr>) m"
  proof (rule vfs_inv_open_files [OF inv])
    show "of_node f < MAX_NODES \<and> of_position f \<le> file_sizes v ! of_node f"
      if "Some f \<in> set ((open_files v)[h := None])" for f
      using that set_update_subset_insert [of "open_files v" h None] inv unfolding vfs_inv_def by blast
  qed (use inv in \<open>simp add: vfs_inv_def\<close>)
  ultimately show ?thesis using inv by auto
qed

lemma vfs_inv_init:
  assumes "fa_inv (falloc m)"
  shows "vfs_inv (vfs_init static_vfs) m"
proof -
  have "file_ok (falloc m) (replicate 16 None) 0" by (auto simp: file_ok_def frames_ok_def own_frames_def)
  then show ?thesis using assms
    by (auto simp: vfs_inv_def vfs_init_def static_vfs_def FILE_DATA_FRAMES_def own_frames_def MAX_NODES_def)
qed

text \<open>A sequence of filesystem calls, as an inductive step relation over filesystem and machine.\<close>

inductive vfs_step :: "vfs \<times> machine \<Rightarrow> vfs \<times> machine \<Rightarrow> bool" where
  create: "vfs_create p name kind v = (r, v') \<Longrightarrow> vfs_step (v, m) (v', m)"
| opens: "vfs_open n w v = Inr (r, v') \<Longrightarrow> vfs_step (v, m) (v', m)"
| close: "vfs_close h v = Inr (r, v') \<Longrightarrow> vfs_step (v, m) (v', m)"
| read: "vfs_read h len v (phys m) = Inr (r, v') \<Longrightarrow> vfs_step (v, m) (v', m)"
| writes: "vfs_write h buf v m = Inr (r, v', m') \<Longrightarrow> vfs_step (v, m) (v', m')"

lemma vfs_inv_read:
  assumes inv: "vfs_inv v m" and run: "vfs_read h len v (phys m) = Inr (r, v')"
  shows "vfs_inv v' m"
proof -
  have h: "h < MAX_OPEN_FILES" using run inv by (auto simp: vfs_read_def bind_res_Inr_iff index_chk_Inr_iff vfs_inv_def)
  show ?thesis
  proof (cases "open_files v ! h")
    case None
    then show ?thesis using run inv h by (simp add: vfs_read_def index_chk_def vfs_inv_def)
  next
    case (Some f)
    have p: "of_position f \<le> file_sizes v ! of_node f" using vfs_invD(8) [OF inv h Some] by blast
    let ?bs = "take len (drop (of_position f) (contents v m (of_node f)))"
    have "v' = v\<lparr>open_files := (open_files v)[h := Some (f\<lparr>of_position := of_position f + length ?bs\<rparr>)]\<rparr>"
      using run vfs_read_spec [OF inv h Some, of len] by (simp add: Let_def)
    moreover have "of_position f + length ?bs \<le> file_sizes v ! of_node f" using p by (simp add: contents_def)
    ultimately show ?thesis using vfs_inv_position [OF inv h Some] by simp
  qed
qed

lemma vfs_inv_write:
  assumes inv: "vfs_inv v m" and run: "vfs_write h buf v m = Inr (r, v', m')"
  shows "vfs_inv v' m'"
proof -
  have h: "h < MAX_OPEN_FILES" using run inv by (auto simp: vfs_write_def bind_res_Inr_iff index_chk_Inr_iff vfs_inv_def)
  show ?thesis
  proof (cases "\<exists>f. open_files v ! h = Some f \<and> of_writable f")
    case True
    then show ?thesis using vfs_write_spec [OF inv h, of _ buf] run by fastforce
  next
    case False
    then have "v' = v" "m' = m" using run h inv
      by (auto simp: vfs_write_def index_chk_def vfs_inv_def split: option.splits)
    then show ?thesis using inv by simp
  qed
qed

lemma vfs_inv_step: "vfs_step s s' \<Longrightarrow> vfs_inv (fst s) (snd s) \<Longrightarrow> vfs_inv (fst s') (snd s')"
proof (induction rule: vfs_step.induct)
  case (create p name kind v r v' m)
  then show ?case using vfs_inv_create [of v m p name kind] by simp
next
  case (opens n w v r v' m)
  then show ?case using vfs_inv_open by auto
next
  case (close h v r v' m)
  then show ?case using vfs_inv_close by auto
next
  case (read h len v m r v')
  then show ?case using vfs_inv_read by auto
next
  case (writes h buf v m r v' m')
  then show ?case using vfs_inv_write by auto
qed

section \<open>Properties of file data\<close>

text \<open>The calls on the abstract files: a byte sequence per node, of at most 64 KiB.\<close>

definition spec_read :: "bytes \<Rightarrow> nat \<Rightarrow> nat \<Rightarrow> bytes" where
  "spec_read file pos len = take len (drop pos file)"

definition spec_write :: "bytes \<Rightarrow> nat \<Rightarrow> bytes \<Rightarrow> bytes" where
  "spec_write file pos buf = overwrite file pos (take (65536 - pos) buf)"

text \<open>C6: after any sequence of filesystem calls from initialisation the filesystem is well-formed (no two files
  share a frame, no file owns a free frame, every file has a frame for each of its bytes and at most
  64 KiB, every open file is positioned within its file), and reading from or writing to any of the 64
  handles does not panic.\<close>

theorem vfs_reachable_safe:
  assumes "fa_inv (falloc m)" "vfs_step\<^sup>*\<^sup>* (vfs_init static_vfs, m) (v', m')"
  shows "vfs_inv v' m' \<and> (\<forall>h<MAX_OPEN_FILES. \<not> panics (vfs_read h len v' (phys m')) \<and> \<not> panics (vfs_write h buf v' m'))"
proof -
  have "vfs_inv (fst s) (snd s)" if "vfs_step\<^sup>*\<^sup>* (vfs_init static_vfs, m) s" for s
    using that by (induction rule: rtranclp_induct) (auto simp: vfs_inv_init [OF assms(1)] intro: vfs_inv_step)
  from this [OF assms(2)] have inv: "vfs_inv v' m'" by simp
  have "\<not> panics (vfs_read h len v' (phys m'))" if h: "h < MAX_OPEN_FILES" for h
    using vfs_read_spec [OF inv h] h inv
    by (cases "open_files v' ! h") (simp_all add: vfs_read_def index_chk_def vfs_inv_def Let_def)
  moreover have "\<not> panics (vfs_write h buf v' m')" if h: "h < MAX_OPEN_FILES" for h
  proof (cases "\<exists>f. open_files v' ! h = Some f \<and> of_writable f")
    case True
    then show ?thesis using vfs_write_spec [OF inv h, of _ buf] by fastforce
  next
    case False
    then show ?thesis using h inv by (auto simp: vfs_write_def index_chk_def vfs_inv_def split: option.splits)
  qed
  ultimately show ?thesis using inv by blast
qed

text \<open>C5: \<open>read\<close> and \<open>write\<close> refine the abstract files. A read returns the bytes at the handle's position and
  advances it by their number; a write to a writable handle that reports success overwrites the file at
  the position, cut at 64 KiB, and returns the number of bytes written; both leave every other file
  as it was. A write is refused midway only when no frame is free.\<close>

theorem vfs_read_write_refine:
  assumes "vfs_inv v m" "h < MAX_OPEN_FILES" "open_files v ! h = Some f" "of_writable f"
  shows "(\<exists>v1. vfs_read h len v (phys m) = Inr (Some (spec_read (contents v m (of_node f)) (of_position f) len), v1) \<and>
      (\<forall>k. contents v1 m k = contents v m k) \<and>
      map_option of_position (open_files v1 ! h) =
        Some (of_position f + length (spec_read (contents v m (of_node f)) (of_position f) len))) \<and>
    (\<exists>r v2 m2. vfs_write h buf v m = Inr (r, v2, m2) \<and> (r = None \<longrightarrow> free_frames (falloc m2) = {}) \<and>
      (\<forall>n. r = Some n \<longrightarrow> n = min (length buf) (65536 - of_position f) \<and>
         contents v2 m2 (of_node f) = spec_write (contents v m (of_node f)) (of_position f) buf \<and>
         map_option of_position (open_files v2 ! h) = Some (of_position f + n)) \<and>
      (\<forall>k<MAX_NODES. k \<noteq> of_node f \<longrightarrow> contents v2 m2 k = contents v m k))"
proof
  have hl: "h < length (open_files v)" using assms(1,2) by (simp add: vfs_inv_def)
  show "\<exists>v1. vfs_read h len v (phys m) = Inr (Some (spec_read (contents v m (of_node f)) (of_position f) len), v1) \<and>
      (\<forall>k. contents v1 m k = contents v m k) \<and>
      map_option of_position (open_files v1 ! h) =
        Some (of_position f + length (spec_read (contents v m (of_node f)) (of_position f) len))"
    using vfs_read_spec [OF assms(1-3), of len] hl by (simp add: Let_def spec_read_def contents_def)
  from vfs_write_spec [OF assms, of buf] obtain r v2 m2 n where
    w: "vfs_write h buf v m = Inr (r, v2, m2)" "contents v2 m2 (of_node f) = overwrite (contents v m (of_node f)) (of_position f) (take n buf)"
      "\<forall>k<MAX_NODES. k \<noteq> of_node f \<longrightarrow> contents v2 m2 k = contents v m k"
      "open_files v2 = (open_files v)[h := Some (f\<lparr>of_position := of_position f + n\<rparr>)]"
      "r = Some n \<and> n = min (length buf) (65536 - of_position f) \<or> r = None \<and> free_frames (falloc m2) = {}" by blast
  have "take (min (length buf) (65536 - of_position f)) buf = take (65536 - of_position f) buf"
    by (simp add: min_def)
  with w hl show "\<exists>r v2 m2. vfs_write h buf v m = Inr (r, v2, m2) \<and> (r = None \<longrightarrow> free_frames (falloc m2) = {}) \<and>
      (\<forall>n. r = Some n \<longrightarrow> n = min (length buf) (65536 - of_position f) \<and>
         contents v2 m2 (of_node f) = spec_write (contents v m (of_node f)) (of_position f) buf \<and>
         map_option of_position (open_files v2 ! h) = Some (of_position f + n)) \<and>
      (\<forall>k<MAX_NODES. k \<noteq> of_node f \<longrightarrow> contents v2 m2 k = contents v m k)"
    by (intro exI [of _ r] exI [of _ v2] exI [of _ m2]) (auto simp: spec_write_def)
qed

text \<open>A file of node 1 opened for writing.\<close>

definition sample_open_file :: OpenFile where
  "sample_open_file = \<lparr>of_node = 1, of_position = 0, of_writable = True\<rparr>"

definition sample_vfs :: vfs where
  "sample_vfs = (snd (vfs_create 0 [0x61] File (vfs_init static_vfs)))\<lparr>open_files := (open_files static_vfs)[0 := Some sample_open_file]\<rparr>"

lemma vfs_create_data:
  "file_data (snd (vfs_create p n k v)) = file_data v" "file_sizes (snd (vfs_create p n k v)) = file_sizes v"
  "open_files (snd (vfs_create p n k v)) = open_files v"
  by (auto simp: vfs_create_def split: option.splits)

lemma sample_vfs_data: "file_data sample_vfs ! 1 = replicate 16 None" "file_sizes sample_vfs ! 1 = 0"
  by (simp_all add: sample_vfs_def vfs_create_data vfs_init_def static_vfs_def MAX_NODES_def FILE_DATA_FRAMES_def)

lemma sample_vfs_node: "\<exists>nd. nodes sample_vfs ! 1 = Some nd \<and> node_kind nd = File"
  using boot_vfs by (simp add: sample_vfs_def vfs_create_def MAX_NAME_LEN_def vfs_init_def static_vfs_def MAX_NODES_def)

lemma sample_vfs: "vfs_inv sample_vfs sample_machine" "open_files sample_vfs ! 0 = Some sample_open_file"
proof -
  show "open_files sample_vfs ! 0 = Some sample_open_file" by (simp add: sample_vfs_def static_vfs_def MAX_OPEN_FILES_def)
  show "vfs_inv sample_vfs sample_machine" unfolding sample_vfs_def
  proof (rule vfs_inv_open_files [OF vfs_inv_create [OF vfs_inv_init [OF sample_fa_inv]]])
    show "of_node f < MAX_NODES \<and> of_position f \<le> file_sizes (snd (vfs_create 0 [0x61] File (vfs_init static_vfs))) ! of_node f"
      if "Some f \<in> set ((open_files static_vfs)[0 := Some sample_open_file])" for f
      using that set_update_subset_insert [of "open_files static_vfs" 0 "Some sample_open_file"]
      by (auto simp: static_vfs_def sample_open_file_def MAX_NODES_def vfs_create_data vfs_init_def)
  qed (simp add: static_vfs_def)
qed

theorem vfs_read_write_refine_witness:
  "\<exists>v1. vfs_read 0 10 sample_vfs (phys sample_machine) = Inr (Some [], v1)"
proof -
  have "contents sample_vfs sample_machine 1 = []"
    unfolding contents_def sample_vfs_data by (simp add: file_bytes_def)
  then show ?thesis
    using vfs_read_write_refine [OF sample_vfs(1) _ sample_vfs(2), of 10 "[]"]
    by (auto simp: MAX_OPEN_FILES_def sample_open_file_def spec_read_def)
qed

text \<open>What is written is read back: after a successful write at the start of a file through one handle, a
  handle freshly opened on the same node reads exactly the bytes written (the first 64 KiB of them).\<close>

theorem vfs_write_read_roundtrip:
  assumes "vfs_inv v m" "h < MAX_OPEN_FILES" "open_files v ! h = Some f" "of_writable f" "of_position f = 0"
    and "vfs_write h buf v m = Inr (Some n, v1, m1)" "vfs_open (of_node f) w v1 = Inr (Some h2, v2)"
  shows "n = min (length buf) 65536 \<and> (\<exists>v3. vfs_read h2 n v2 (phys m1) = Inr (Some (take n buf), v3))"
proof -
  from vfs_write_spec [OF assms(1-4), of buf] assms(5,6) have
    w: "vfs_inv v1 m1" "contents v1 m1 (of_node f) = overwrite (contents v m (of_node f)) 0 (take n buf)"
      "n = min (length buf) 65536" by auto
  note o = vfs_open_Some [OF assms(7)]
  have i2: "vfs_inv v2 m1" by (rule vfs_inv_open [OF w(1) assms(7)])
  have h2: "h2 < MAX_OPEN_FILES" "open_files v2 ! h2 = Some \<lparr>of_node = of_node f, of_position = 0, of_writable = w\<rparr>"
    using o(2,3) w(1) by (simp_all add: vfs_inv_def)
  have "contents v2 m1 (of_node f) = contents v1 m1 (of_node f)" by (simp add: o(3) contents_def)
  moreover have "take n (overwrite (contents v m (of_node f)) 0 (take n buf)) = take n buf"
    using w(3) by (simp add: overwrite_def)
  ultimately show ?thesis using vfs_read_spec [OF i2 h2, of n] w(2,3) by (simp add: Let_def)
qed

lemma sample_write: "\<exists>v1 m1. vfs_write 0 [7, 8] sample_vfs sample_machine = Inr (Some 2, v1, m1)"
proof -
  obtain r fa' where al: "allocate_frame (falloc sample_machine) = (r, fa')" by fastforce
  have "r \<noteq> None" using allocate_frame_None(1) [OF sample_fa_inv] al sample_frees(2) by force
  then obtain f where f: "alloc_frame sample_machine = (Some f, sample_machine\<lparr>falloc := fa'\<rparr>)"
    using al by (auto simp: alloc_frame_def)
  then have "page_aligned f" using alloc_frame_cases(5) [OF sample_fa_inv f] by simp
  then have a: "add_chk f 0 = Inr f" using add_chk_offset [of f 0] by simp
  have "\<exists>s. write_loop [7, 8] \<lparr>ws_mach = sample_machine, ws_frames = replicate 16 None, ws_size = 0, ws_pos = 0, ws_written = 0\<rparr>
      = Inr (True, s) \<and> ws_written s = 2"
    using f a by (simp add: write_loop.simps ensure_frame_def FILE_DATA_FRAMES_def put_chunk_def Let_def)
  moreover have "0 < length (open_files sample_vfs)" "1 < length (file_sizes sample_vfs)" "1 < length (file_data sample_vfs)"
    using sample_vfs(1) by (simp_all add: vfs_inv_def MAX_OPEN_FILES_def MAX_NODES_def)
  ultimately show ?thesis using sample_vfs(2) sample_vfs_data
    by (auto simp: vfs_write_def index_chk_def sample_open_file_def)
qed

lemma sample_reopen:
  "\<exists>v1 m1 v2. vfs_write 0 [7, 8] sample_vfs sample_machine = Inr (Some 2, v1, m1) \<and> nodes v1 = nodes sample_vfs \<and>
     vfs_open 1 False v1 = Inr (Some 1, v2)"
proof -
  obtain v1 m1 where w: "vfs_write 0 [7, 8] sample_vfs sample_machine = Inr (Some 2, v1, m1)" using sample_write by blast
  have h: "0 < MAX_OPEN_FILES" "of_writable sample_open_file" by (simp_all add: MAX_OPEN_FILES_def sample_open_file_def)
  from vfs_write_spec [OF sample_vfs(1) h(1) sample_vfs(2) h(2), of "[7, 8]"] w obtain n where
    v1: "vfs_inv v1 m1" "nodes v1 = nodes sample_vfs" "open_files v1 = (open_files sample_vfs)[0 := Some (sample_open_file\<lparr>of_position := n\<rparr>)]"
    by (auto simp: sample_open_file_def)
  have "position (\<lambda>s. s = None) (open_files v1) = Some 1"
    by (rule position_SomeI) (auto simp: v1(3) sample_vfs_def static_vfs_def MAX_OPEN_FILES_def)
  moreover have "1 < length (nodes v1)" using v1(1) by (simp add: vfs_inv_def MAX_NODES_def)
  ultimately have "\<exists>v2. vfs_open 1 False v1 = Inr (Some 1, v2)"
    using sample_vfs_node v1(2) by (auto simp: vfs_open_def index_chk_def)
  with w v1(2) show ?thesis by blast
qed

text \<open>The sample file system is reached by creating and opening a file, and a write to it takes a frame.\<close>

lemma sample_vfs_reached: "vfs_step\<^sup>*\<^sup>* (vfs_init static_vfs, sample_machine) (sample_vfs, sample_machine)"
proof -
  let ?v = "vfs_init static_vfs"
  obtain v1 where v1: "vfs_create 0 [0x61] File ?v = (Some 1, v1)" using boot_vfs by (simp add: vfs_create_def MAX_NAME_LEN_def)
  note c = vfs_create_Some [OF v1]
  have "position (\<lambda>s. s = None) (open_files v1) = Some 0"
    by (rule position_SomeI) (simp_all add: c(5) vfs_init_def static_vfs_def MAX_OPEN_FILES_def)
  then have "vfs_open 1 True v1 = Inr (Some 0, v1\<lparr>open_files := (open_files v1)[0 := Some sample_open_file]\<rparr>)"
    using c(1) by (simp add: vfs_open_def index_chk_def c(5) sample_open_file_def)
  moreover have "sample_vfs = v1\<lparr>open_files := (open_files v1)[0 := Some sample_open_file]\<rparr>"
    using v1 by (simp add: sample_vfs_def) (simp add: c(5) vfs_init_def)
  ultimately have "vfs_step (v1, sample_machine) (sample_vfs, sample_machine)" by (metis vfs_step.opens)
  then show ?thesis using vfs_step.create [OF v1, of sample_machine] by (meson r_into_rtranclp rtranclp.rtrancl_into_rtrancl)
qed

theorem vfs_reachable_safe_witness:
  "\<exists>v1 m1. vfs_write 0 [7, 8] sample_vfs sample_machine = Inr (Some 2, v1, m1) \<and> vfs_inv v1 m1 \<and>
     \<not> panics (vfs_read 0 9 v1 (phys m1)) \<and> \<not> panics (vfs_write 0 [1] v1 m1)"
proof -
  obtain v1 m1 where w: "vfs_write 0 [7, 8] sample_vfs sample_machine = Inr (Some 2, v1, m1)" using sample_write by blast
  have "vfs_step\<^sup>*\<^sup>* (vfs_init static_vfs, sample_machine) (v1, m1)"
    using sample_vfs_reached vfs_step.writes [OF w] by (rule rtranclp.rtrancl_into_rtrancl)
  from vfs_reachable_safe [OF sample_fa_inv this, of 9 "[1]"] w show ?thesis by (auto simp: MAX_OPEN_FILES_def)
qed

theorem vfs_write_read_roundtrip_witness:
  "\<exists>v1 m1 h2 v2 v3. vfs_write 0 [7, 8] sample_vfs sample_machine = Inr (Some 2, v1, m1) \<and>
     vfs_open 1 False v1 = Inr (Some h2, v2) \<and> vfs_read h2 2 v2 (phys m1) = Inr (Some [7, 8], v3)"
proof -
  obtain v1 m1 v2 where w: "vfs_write 0 [7, 8] sample_vfs sample_machine = Inr (Some 2, v1, m1)"
      and o: "vfs_open (of_node sample_open_file) False v1 = Inr (Some 1, v2)"
    using sample_reopen by (auto simp: sample_open_file_def)
  have h: "0 < MAX_OPEN_FILES" "of_writable sample_open_file" "of_position sample_open_file = 0" "of_node sample_open_file = 1"
    by (simp_all add: MAX_OPEN_FILES_def sample_open_file_def)
  from vfs_write_read_roundtrip [OF sample_vfs(1) h(1) sample_vfs(2) h(2,3) w o] w o show ?thesis
    unfolding h(4) by auto
qed

end
