(* ===== verification/Nt.thy ===== *)
theory Nt
  imports Loader Objects Scheduler Vfs_Data
begin

text \<open>
  NT system calls (\<^verbatim>\<open>kernel/src/win32/nt.rs\<close>) and process creation (\<open>load_pe\<close> of \<^verbatim>\<open>loader.rs\<close>): the
  handlers, the dispatch table, and the file, memory and process services behind them. The state
  brings together the kernel (machine, heap, scheduler), the handle table and the file system;
  the \<^verbatim>\<open>Process\<close> structures the heap holds are a store indexed by their address. Arguments are
  the 16 words of the source's array. A function pointer of the dispatch table is a value of
  \<open>SyscallHandler\<close>. The pointers a caller passes are checked where \<^verbatim>\<open>core\<close> checks them: \<open>ptr_chk\<close> for a typed access
  (aligned and not null), \<open>raw_slice_chk\<close> for a buffer (not null and shorter than \<open>2\<^sup>6\<^sup>3\<close>); a pointer that
  fails panics the kernel.
\<close>

datatype SyscallHandler =
  HClose | HCreateFile | HReadFile | HWriteFile | HAllocateVirtualMemory | HFreeVirtualMemory
| HQuerySystemInformation | HQueryInformationProcess | HDelayExecution

record os =
  kern :: kernel
  handles :: handle_table
  files :: vfs
  procs :: "u64 \<Rightarrow> Process option"
  nt_initialized :: bool
  syscall_table :: "SyscallHandler option list"

datatype NtStatus =
  Success | Pending | NotImplemented | InvalidParameter | AccessDenied | BufferTooSmall
| ObjectNameNotFound | ObjectNameCollision | EndOfFile

fun status_code :: "NtStatus \<Rightarrow> u32" where
  "status_code Success = 0x00000000"
| "status_code Pending = 0x00000103"
| "status_code NotImplemented = 0xC0000002"
| "status_code InvalidParameter = 0xC000000D"
| "status_code AccessDenied = 0xC0000022"
| "status_code BufferTooSmall = 0xC0000023"
| "status_code ObjectNameNotFound = 0xC0000034"
| "status_code ObjectNameCollision = 0xC0000035"
| "status_code EndOfFile = 0xC0000011"

datatype SyscallNumber =
  NtCreateFile | NtClose | NtReadFile | NtWriteFile | NtAllocateVirtualMemory | NtFreeVirtualMemory
| NtCreateProcess | NtCreateThread | NtQuerySystemInformation | NtQueryInformationProcess
| NtSetInformationProcess | NtDelayExecution | NtCreateKey | NtQueryValueKey | NtSetValueKey
| NtWaitForMultipleObjects

fun syscall_raw :: "SyscallNumber \<Rightarrow> nat" where
  "syscall_raw NtCreateFile = 0x55"
| "syscall_raw NtClose = 0x0F"
| "syscall_raw NtReadFile = 0x6F"
| "syscall_raw NtWriteFile = 0x08"
| "syscall_raw NtAllocateVirtualMemory = 0x18"
| "syscall_raw NtFreeVirtualMemory = 0x1E"
| "syscall_raw NtCreateProcess = 0x4F"
| "syscall_raw NtCreateThread = 0x4E"
| "syscall_raw NtQuerySystemInformation = 0x36"
| "syscall_raw NtQueryInformationProcess = 0x19"
| "syscall_raw NtSetInformationProcess = 0x1C"
| "syscall_raw NtDelayExecution = 0x34"
| "syscall_raw NtCreateKey = 0x1D"
| "syscall_raw NtQueryValueKey = 0x49"
| "syscall_raw NtSetValueKey = 0x5D"
| "syscall_raw NtWaitForMultipleObjects = 0x01"

definition from_raw :: "nat \<Rightarrow> SyscallNumber option" where
  "from_raw v =
     (if v = 0x55 then Some NtCreateFile
      else if v = 0x0F then Some NtClose
      else if v = 0x6F then Some NtReadFile
      else if v = 0x08 then Some NtWriteFile
      else if v = 0x18 then Some NtAllocateVirtualMemory
      else if v = 0x1E then Some NtFreeVirtualMemory
      else if v = 0x4F then Some NtCreateProcess
      else if v = 0x4E then Some NtCreateThread
      else if v = 0x36 then Some NtQuerySystemInformation
      else if v = 0x19 then Some NtQueryInformationProcess
      else if v = 0x1C then Some NtSetInformationProcess
      else if v = 0x34 then Some NtDelayExecution
      else if v = 0x1D then Some NtCreateKey
      else if v = 0x49 then Some NtQueryValueKey
      else if v = 0x5D then Some NtSetValueKey
      else if v = 0x01 then Some NtWaitForMultipleObjects
      else None)"

definition syscall_from :: "nat \<Rightarrow> SyscallNumber" where
  "syscall_from v = (case from_raw v of Some n \<Rightarrow> n | None \<Rightarrow> NtWaitForMultipleObjects)"

definition nt_init :: "os \<Rightarrow> os" where
  "nt_init s = s\<lparr>nt_initialized := True\<rparr>"

section \<open>Access to the state\<close>

definition os_mem :: "os \<Rightarrow> mem" where
  "os_mem s = phys (mach (kern s))"

definition os_write :: "u64 \<Rightarrow> bytes \<Rightarrow> os \<Rightarrow> os" where
  "os_write a bs s =
     s\<lparr>kern := (kern s)\<lparr>mach := (mach (kern s))\<lparr>phys := write_bytes (phys (mach (kern s))) a bs\<rparr>\<rparr>\<rparr>"

definition os_mach :: "machine \<Rightarrow> os \<Rightarrow> os" where
  "os_mach m s = s\<lparr>kern := (kern s)\<lparr>mach := m\<rparr>\<rparr>"

text \<open>A guest pointer: physical for interpreted threads, translated for native ones.\<close>

definition user_ptr_to_phys :: "u64 \<Rightarrow> os \<Rightarrow> u64 option" where
  "user_ptr_to_phys addr s =
     (if addr = 0 then None
      else
        let cr3 = (case fst (with_current_thread (\<lambda>t. (process_page_table_root t, t)) (kern s)) of
                     Some c \<Rightarrow> c | None \<Rightarrow> 0)
        in if cr3 = 0 then Some addr
           else case page_table_root cr3 of
                  None \<Rightarrow> None
                | Some root \<Rightarrow> translate (mach (kern s)) root addr)"

definition guest_cstr :: "mem \<Rightarrow> u64 \<Rightarrow> nat \<Rightarrow> bytes res" where
  "guest_cstr m a max_len =
     map_res (\<lambda>_. let bs = read_bytes m a max_len in take (string_len bs 0 0) bs) (raw_slice_chk a max_len)"

section \<open>Files\<close>

definition rfind_slash :: "bytes \<Rightarrow> nat option" where
  "rfind_slash p = map_option (\<lambda>i. length p - 1 - i) (position (\<lambda>b. b = SLASH) (rev p))"

definition parent_path :: "bytes \<Rightarrow> bytes" where
  "parent_path p =
     (case rfind_slash p of
        None \<Rightarrow> [SLASH]
      | Some idx \<Rightarrow> if idx = 0 then [SLASH] else take idx p)"

definition path_file_name :: "bytes \<Rightarrow> bytes" where
  "path_file_name p = (case rfind_slash p of None \<Rightarrow> p | Some idx \<Rightarrow> drop (idx + 1) p)"

definition open_node :: "NodeId \<Rightarrow> bool \<Rightarrow> vfs \<Rightarrow> ((NtStatus + FileHandle) \<times> vfs) res" where
  "open_node n write_access v =
     map_res (\<lambda>(r, v'). (case r of None \<Rightarrow> Inl InvalidParameter | Some h \<Rightarrow> Inr h, v')) (vfs_open n write_access v)"

definition open_vfs_file :: "bytes \<Rightarrow> bool \<Rightarrow> bool \<Rightarrow> vfs \<Rightarrow> ((NtStatus + FileHandle) \<times> vfs) res" where
  "open_vfs_file path create write_access v =
     (case vfs_lookup v path of
        Some n \<Rightarrow> if create then Inr (Inl ObjectNameCollision, v) else open_node n write_access v
      | None \<Rightarrow>
          if \<not> create then Inr (Inl ObjectNameNotFound, v)
          else case vfs_lookup v (parent_path path) of
                 None \<Rightarrow> Inr (Inl ObjectNameNotFound, v)
               | Some parent_node \<Rightarrow>
                   (case vfs_create parent_node (path_file_name path) NodeKind.File v of
                      (None, v') \<Rightarrow> Inr (Inl InvalidParameter, v')
                    | (Some n, v') \<Rightarrow> open_node n write_access v'))"

definition create_file :: "bytes \<Rightarrow> bool \<Rightarrow> bool \<Rightarrow> bool \<Rightarrow> os \<Rightarrow> ((NtStatus + Handle) \<times> os) res" where
  "create_file path create directory write_access s =
     bind_res (open_vfs_file path create write_access (files s)) (\<lambda>(r, v).
     case r of
       Inl status \<Rightarrow> Inr (Inl status, s\<lparr>files := v\<rparr>)
     | Inr fh \<Rightarrow>
         (case allocate ObjectKind.File (of_nat fh) (handles s) of
            (None, t) \<Rightarrow> Inr (Inl InvalidParameter, s\<lparr>files := v, handles := t\<rparr>)
          | (Some h, t) \<Rightarrow> Inr (Inr h, s\<lparr>files := v, handles := t\<rparr>)))"

definition vfs_file_from_object :: "Handle \<Rightarrow> os \<Rightarrow> NtStatus + FileHandle" where
  "vfs_file_from_object h s =
     (case lookup (handles s) h of
        None \<Rightarrow> Inl InvalidParameter
      | Some obj \<Rightarrow> if obj_kind obj \<noteq> ObjectKind.File then Inl InvalidParameter else Inr (unat (obj_data obj)))"

text \<open>\<open>read_file\<close> fills the start of a buffer at \<open>a\<close>; \<open>write_file\<close> takes the buffer's bytes.\<close>

definition read_file :: "Handle \<Rightarrow> u64 \<Rightarrow> nat \<Rightarrow> os \<Rightarrow> ((NtStatus + nat) \<times> os) res" where
  "read_file h a len s =
     (case vfs_file_from_object h s of
        Inl status \<Rightarrow> Inr (Inl status, s)
      | Inr fh \<Rightarrow>
          map_res (\<lambda>(r, v). case r of
              None \<Rightarrow> (Inl InvalidParameter, s\<lparr>files := v\<rparr>)
            | Some bs \<Rightarrow> (Inr (length bs), os_write a bs (s\<lparr>files := v\<rparr>)))
            (vfs_read fh len (files s) (os_mem s)))"

definition write_file :: "Handle \<Rightarrow> bytes \<Rightarrow> os \<Rightarrow> ((NtStatus + nat) \<times> os) res" where
  "write_file h buf s =
     (case vfs_file_from_object h s of
        Inl status \<Rightarrow> Inr (Inl status, s)
      | Inr fh \<Rightarrow>
          map_res (\<lambda>(r, v, m). (case r of None \<Rightarrow> Inl InvalidParameter | Some n \<Rightarrow> Inr n, os_mach m (s\<lparr>files := v\<rparr>)))
            (vfs_write fh buf (files s) (mach (kern s))))"

definition nt_close :: "Handle \<Rightarrow> os \<Rightarrow> (NtStatus \<times> os) res" where
  "nt_close h s =
     (case lookup (handles s) h of
        None \<Rightarrow> Inr (InvalidParameter, s)
      | Some obj \<Rightarrow>
          if obj_kind obj \<noteq> ObjectKind.File then Inr (InvalidParameter, s)
          else
            map_res (\<lambda>(_, v). case close h (handles s) of
                (ok, t) \<Rightarrow> (if ok then Success else InvalidParameter, s\<lparr>files := v, handles := t\<rparr>))
              (vfs_close (unat (obj_data obj)) (files s)))"

section \<open>Memory\<close>

fun alloc_frames :: "nat \<Rightarrow> u64 \<Rightarrow> machine \<Rightarrow> (NtStatus + u64) \<times> machine" where
  "alloc_frames 0 base m = (Inr base, m)"
| "alloc_frames (Suc n) base m =
     (case alloc_frame m of
        (None, m') \<Rightarrow> (Inl InvalidParameter, m')
      | (Some frame, m') \<Rightarrow> alloc_frames n (if base = 0 then frame else base) m')"

definition allocate_virtual_memory :: "u64 \<Rightarrow> machine \<Rightarrow> ((NtStatus + u64) \<times> machine) res" where
  "allocate_virtual_memory sz m =
     map_res (\<lambda>n. alloc_frames (unat n div 4096) 0 m) (add_chk sz 4095)"

definition free_one :: "u64 \<Rightarrow> nat \<Rightarrow> machine \<Rightarrow> machine res" where
  "free_one base i m =
     bind_res (mul_chk (of_nat i) 4096) (\<lambda>off.
     map_res (\<lambda>f. m\<lparr>falloc := free_frame (falloc m) f\<rparr>) (add_chk base off))"

definition free_virtual_memory :: "u64 \<Rightarrow> u64 \<Rightarrow> machine \<Rightarrow> (NtStatus \<times> machine) res" where
  "free_virtual_memory base sz m =
     bind_res (add_chk sz 4095) (\<lambda>n.
     map_res (\<lambda>m'. (Success, m')) (for_each (free_one base) [0..<unat n div 4096] m))"

section \<open>Handlers\<close>

definition handle_close :: "u64 list \<Rightarrow> os \<Rightarrow> (NtStatus \<times> os) res" where
  "handle_close args s = nt_close (ucast (args ! 0)) s"

definition handle_create_file :: "u64 list \<Rightarrow> os \<Rightarrow> (NtStatus \<times> os) res" where
  "handle_create_file args s =
     (let out_handle_ptr = args ! 0; path_ptr = args ! 1 in
      if path_ptr = 0 \<or> out_handle_ptr = 0 then Inr (InvalidParameter, s)
      else case user_ptr_to_phys path_ptr s of
        None \<Rightarrow> Inr (InvalidParameter, s)
      | Some path_phys \<Rightarrow>
          (case user_ptr_to_phys out_handle_ptr s of
             None \<Rightarrow> Inr (InvalidParameter, s)
           | Some out_phys \<Rightarrow>
               bind_res (guest_cstr (os_mem s) path_phys 128) (\<lambda>path.
               let create = (args ! 2 \<noteq> 0);
                   write_access = (args ! 3 AND 0x40000000 \<noteq> 0 \<or> create)
               in bind_res (create_file path create False write_access s) (\<lambda>(r, s').
                    case r of
                      Inr h \<Rightarrow> map_res (\<lambda>_. (Success, os_write out_phys (to_le 8 (ucast h :: u64)) s')) (ptr_chk 8 out_phys)
                    | Inl status \<Rightarrow> Inr (status, s')))))"

definition handle_read_file :: "u64 list \<Rightarrow> os \<Rightarrow> (NtStatus \<times> os) res" where
  "handle_read_file args s =
     (let h = ucast (args ! 0); buf_ptr = args ! 1; len = args ! 2 in
      if buf_ptr = 0 \<or> len = 0 then Inr (Success, s)
      else case user_ptr_to_phys buf_ptr s of
        None \<Rightarrow> Inr (InvalidParameter, s)
      | Some buf_phys \<Rightarrow>
          bind_res (raw_slice_chk buf_phys (unat len)) (\<lambda>_.
          map_res (\<lambda>(r, s'). (case r of Inr _ \<Rightarrow> Success | Inl status \<Rightarrow> status, s')) (read_file h buf_phys (unat len) s)))"

definition handle_write_file :: "u64 list \<Rightarrow> os \<Rightarrow> (NtStatus \<times> os) res" where
  "handle_write_file args s =
     (let h = ucast (args ! 0); buf_ptr = args ! 1; len = args ! 2 in
      if buf_ptr = 0 \<or> len = 0 then Inr (Success, s)
      else case user_ptr_to_phys buf_ptr s of
        None \<Rightarrow> Inr (InvalidParameter, s)
      | Some buf_phys \<Rightarrow>
          bind_res (raw_slice_chk buf_phys (unat len)) (\<lambda>_.
          map_res (\<lambda>(r, s'). (case r of Inr _ \<Rightarrow> Success | Inl status \<Rightarrow> status, s'))
            (write_file h (read_bytes (os_mem s) buf_phys (unat len)) s)))"

text \<open>The base pointer is written as given, without translation.\<close>

definition handle_allocate_virtual_memory :: "u64 list \<Rightarrow> os \<Rightarrow> (NtStatus \<times> os) res" where
  "handle_allocate_virtual_memory args s =
     bind_res (allocate_virtual_memory (args ! 3) (mach (kern s))) (\<lambda>(r, m).
       let s1 = os_mach m s in
       case r of
         Inr base \<Rightarrow>
           if args ! 1 \<noteq> 0 then map_res (\<lambda>_. (Success, os_write (args ! 1) (to_le 8 base) s1)) (ptr_chk 8 (args ! 1))
           else Inr (Success, s1)
       | Inl status \<Rightarrow> Inr (status, s1))"

definition handle_free_virtual_memory :: "u64 list \<Rightarrow> os \<Rightarrow> (NtStatus \<times> os) res" where
  "handle_free_virtual_memory args s =
     map_res (\<lambda>(st, m). (st, os_mach m s)) (free_virtual_memory (args ! 0) (args ! 1) (mach (kern s)))"

definition write_ret_len :: "u64 \<Rightarrow> u32 \<Rightarrow> os \<Rightarrow> os res" where
  "write_ret_len p v s =
     (if p \<noteq> 0 then
        case user_ptr_to_phys p s of
          Some a \<Rightarrow> map_res (\<lambda>_. os_write a (to_le 4 v) s) (ptr_chk 4 a)
        | None \<Rightarrow> Inr s
      else Inr s)"

definition handle_query_system_information :: "u64 list \<Rightarrow> os \<Rightarrow> (NtStatus \<times> os) res" where
  "handle_query_system_information args s =
     (let cls = ucast (args ! 0) :: u32; buf_ptr = args ! 1; len = args ! 2; ret_len_ptr = args ! 3 in
      if buf_ptr = 0 \<or> len = 0 then Inr (InvalidParameter, s)
      else case user_ptr_to_phys buf_ptr s of
        None \<Rightarrow> Inr (InvalidParameter, s)
      | Some buf_phys \<Rightarrow>
          bind_res (raw_slice_chk buf_phys (unat len)) (\<lambda>_.
          if cls = 0 then
            if len < 64 then Inr (BufferTooSmall, s)
            else map_res (Pair Success) (write_ret_len ret_len_ptr 64
                   (os_write buf_phys (to_le 4 (4096 :: u32) @ to_le 4 (0x8000 :: u32) @ replicate 56 0) s))
          else if cls = 1 then
            if len < 2 then Inr (BufferTooSmall, s)
            else map_res (Pair Success) (write_ret_len ret_len_ptr 2 (os_write buf_phys (to_le 2 (12 :: u16)) s))
          else Inr (NotImplemented, s)))"

definition handle_query_information_process :: "u64 list \<Rightarrow> os \<Rightarrow> (NtStatus \<times> os) res" where
  "handle_query_information_process args s =
     (let cls = ucast (args ! 1) :: u32; buf_ptr = args ! 2; len = args ! 3; ret_len_ptr = args ! 4 in
      if buf_ptr = 0 \<or> len = 0 then Inr (InvalidParameter, s)
      else case user_ptr_to_phys buf_ptr s of
        None \<Rightarrow> Inr (InvalidParameter, s)
      | Some buf_phys \<Rightarrow>
          if cls = 0 then
            if len < 48 then Inr (BufferTooSmall, s)
            else bind_res (raw_slice_chk buf_phys 48) (\<lambda>_.
                 map_res (Pair Success) (write_ret_len ret_len_ptr 48
                   (os_write buf_phys (to_le 8 (1 :: u64) @ replicate 40 0) s)))
          else Inr (NotImplemented, s))"

text \<open>The interval is read (and its pointer checked) but not used; the call yields, and the result is the state in which the
  next thread resumes.\<close>

definition handle_delay_execution :: "cpu \<Rightarrow> u64 list \<Rightarrow> os \<Rightarrow> (NtStatus \<times> cpu \<times> os) res" where
  "handle_delay_execution c args s =
     (let interval_ptr = args ! 1 in
      bind_res (if interval_ptr \<noteq> 0
                then case user_ptr_to_phys interval_ptr s of Some p \<Rightarrow> ptr_chk 8 p | None \<Rightarrow> Inr ()
                else Inr ()) (\<lambda>_.
      map_res (\<lambda>(c', k). (Success, c', s\<lparr>kern := k\<rparr>)) (yield_current c (kern s))))"

definition handler_table :: "SyscallHandler option list" where
  "handler_table = fold (\<lambda>(n, h) t. t[syscall_raw n := Some h])
     [(NtClose, HClose), (NtCreateFile, HCreateFile), (NtReadFile, HReadFile), (NtWriteFile, HWriteFile),
      (NtAllocateVirtualMemory, HAllocateVirtualMemory), (NtFreeVirtualMemory, HFreeVirtualMemory),
      (NtQuerySystemInformation, HQuerySystemInformation), (NtQueryInformationProcess, HQueryInformationProcess),
      (NtDelayExecution, HDelayExecution)]
     (replicate 256 None)"

definition init_syscall_table :: "os \<Rightarrow> os" where
  "init_syscall_table s = s\<lparr>syscall_table := handler_table\<rparr>"

definition call_handler :: "SyscallHandler \<Rightarrow> u64 list \<Rightarrow> cpu \<Rightarrow> os \<Rightarrow> (NtStatus \<times> cpu \<times> os) res" where
  "call_handler h args c s =
     (let keep = map_res (\<lambda>(st, s'). (st, c, s')) in
      case h of
        HClose \<Rightarrow> keep (handle_close args s)
      | HCreateFile \<Rightarrow> keep (handle_create_file args s)
      | HReadFile \<Rightarrow> keep (handle_read_file args s)
      | HWriteFile \<Rightarrow> keep (handle_write_file args s)
      | HAllocateVirtualMemory \<Rightarrow> keep (handle_allocate_virtual_memory args s)
      | HFreeVirtualMemory \<Rightarrow> keep (handle_free_virtual_memory args s)
      | HQuerySystemInformation \<Rightarrow> keep (handle_query_system_information args s)
      | HQueryInformationProcess \<Rightarrow> keep (handle_query_information_process args s)
      | HDelayExecution \<Rightarrow> handle_delay_execution c args s)"

definition dispatch :: "SyscallNumber \<Rightarrow> u64 list \<Rightarrow> cpu \<Rightarrow> os \<Rightarrow> (NtStatus \<times> cpu \<times> os) res" where
  "dispatch number args c s =
     (if \<not> nt_initialized s then Inr (AccessDenied, c, s)
      else bind_res (index_chk (syscall_table s) (syscall_raw number)) (\<lambda>entry.
        case entry of
          Some h \<Rightarrow> call_handler h args c s
        | None \<Rightarrow> Inr (NotImplemented, c, s)))"

section \<open>Processes\<close>

definition PROCESS_SIZE :: u64 where "PROCESS_SIZE = 64"
definition PROCESS_ALIGN :: u64 where "PROCESS_ALIGN = 8"

definition load_pe :: "slice \<Rightarrow> u64 \<Rightarrow> os \<Rightarrow> ((Handle \<times> bool) option \<times> os) res" where
  "load_pe sl p s =
     bind_res (parse_pe (slice_bytes (mach (kern s)) sl)) (\<lambda>r.
     case r of
       None \<Rightarrow> Inr (None, s)
     | Some img \<Rightarrow>
         bind_res (kernel_alloc PROCESS_SIZE PROCESS_ALIGN (kern s)) (\<lambda>(q, k1).
         case q of
           None \<Rightarrow> Inr (None, s\<lparr>kern := k1\<rparr>)
         | Some ptr \<Rightarrow>
             bind_res (load_into_process img (new_process p) sl (mach k1)) (\<lambda>(ok, proc, m).
             let s1 = s\<lparr>kern := k1\<lparr>mach := m\<rparr>, procs := (procs s)(ptr := Some proc)\<rparr> in
             if \<not> ok then Inr (None, s1)
             else
               (case allocate ObjectKind.Process ptr (handles s1) of
                  (None, t) \<Rightarrow> Inr (None, s1\<lparr>handles := t\<rparr>)
                | (Some h, t) \<Rightarrow> Inr (Some (h, requires_translation (pe_machine img)), s1\<lparr>handles := t\<rparr>)))))"

definition create_user_process :: "bytes \<Rightarrow> os \<Rightarrow> ((Handle \<times> bool) option \<times> os) res" where
  "create_user_process path s =
     bind_res (open_vfs_file path False False (files s)) (\<lambda>(r, v).
     let s1 = s\<lparr>files := v\<rparr> in
     case r of
       Inl _ \<Rightarrow> Inr (None, s1)
     | Inr fh \<Rightarrow>
         bind_res (file_size fh v) (\<lambda>sz.
         case sz of
           None \<Rightarrow> Inr (None, s1)
         | Some n \<Rightarrow>
             bind_res (kernel_alloc (of_nat n) 1 (kern s1)) (\<lambda>(q, k).
             let s2 = s1\<lparr>kern := k\<rparr> in
             case q of
               None \<Rightarrow> Inr (None, s2)
             | Some buf \<Rightarrow>
                 bind_res (vfs_read fh n v (os_mem s2)) (\<lambda>(rd, v2).
                 case rd of
                   None \<Rightarrow> Inr (None, s2\<lparr>files := v2\<rparr>)
                 | Some bs \<Rightarrow>
                     let s3 = os_write buf bs (s2\<lparr>files := v2\<rparr>) in
                     if length bs \<noteq> n then Inr (None, s3)
                     else
                       bind_res (vfs_close fh v2) (\<lambda>(_, v3).
                       load_pe (buf, n) 1 (s3\<lparr>files := v3\<rparr>))))))"

section \<open>The dispatch table\<close>

lemma dispatch_table:
  assumes "syscall_table s = handler_table"
  shows "dispatch n args c s =
    (if \<not> nt_initialized s then Inr (AccessDenied, c, s)
     else case n of
       NtClose \<Rightarrow> call_handler HClose args c s
     | NtCreateFile \<Rightarrow> call_handler HCreateFile args c s
     | NtReadFile \<Rightarrow> call_handler HReadFile args c s
     | NtWriteFile \<Rightarrow> call_handler HWriteFile args c s
     | NtAllocateVirtualMemory \<Rightarrow> call_handler HAllocateVirtualMemory args c s
     | NtFreeVirtualMemory \<Rightarrow> call_handler HFreeVirtualMemory args c s
     | NtQuerySystemInformation \<Rightarrow> call_handler HQuerySystemInformation args c s
     | NtQueryInformationProcess \<Rightarrow> call_handler HQueryInformationProcess args c s
     | NtDelayExecution \<Rightarrow> call_handler HDelayExecution args c s
     | _ \<Rightarrow> Inr (NotImplemented, c, s))"
  using assms by (cases n) (simp_all add: dispatch_def handler_table_def index_chk_def)

lemma syscall_raw_roundtrip: "from_raw (syscall_raw n) = Some n"
  by (cases n) (simp_all add: from_raw_def)

section \<open>Paths and handles\<close>

lemma rfind_slash_child: "SLASH \<notin> set name \<Longrightarrow> rfind_slash (dir @ SLASH # name) = Some (length dir)"
proof -
  assume "SLASH \<notin> set name"
  then have "position (\<lambda>b. b = SLASH) (rev name @ SLASH # rev dir) = Some (length name)"
    using position_None_iff [of "\<lambda>b. b = SLASH" "rev name"] by (auto simp: position_append)
  then show ?thesis by (simp add: rfind_slash_def)
qed

lemma path_file_name_child: "SLASH \<notin> set name \<Longrightarrow> path_file_name (dir @ SLASH # name) = name"
  by (simp add: path_file_name_def rfind_slash_child)

lemma lookup_parent_child: "SLASH \<notin> set name \<Longrightarrow> vfs_lookup v (parent_path (dir @ SLASH # name)) = vfs_lookup v dir"
  by (simp add: parent_path_def rfind_slash_child vfs_lookup_components)

lemma find_child_nodes: "nodes v' = nodes v \<Longrightarrow> find_child v' = find_child v"
  by (simp add: find_child_def fun_eq_iff)

lemma vfs_lookup_nodes: "nodes v' = nodes v \<Longrightarrow> vfs_lookup v' p = vfs_lookup v p"
proof -
  assume n: "nodes v' = nodes v"
  have "walk_components v' c cs = walk_components v c cs" for c cs
    by (induction cs arbitrary: c) (simp_all add: find_child_nodes [OF n] split: option.splits)
  then show ?thesis by (simp add: vfs_lookup_components)
qed

lemma lookup_created:
  assumes "names_unique v" "vfs_lookup v dir = Some d" "vfs_create d name kind v = (Some i, v')"
    and "utf8_valid name" "name \<noteq> []" "SLASH \<notin> set name"
  shows "vfs_lookup v' (dir @ SLASH # name) = Some i"
proof -
  have "vfs_lookup v' dir = Some d"
    using walk_components_create [OF assms(1,4,3)] assms(2) by (simp add: vfs_lookup_components)
  then show ?thesis using vfs_lookup_child [OF assms(5,6), of v' dir] find_child_create [OF assms(1,4,3), of d name] by simp
qed

text \<open>A successful \<open>create_file\<close> opens a node and enters the open file into the handle table.\<close>

lemma open_node_Inr:
  "open_node n w v = Inr (Inr fh, v') \<Longrightarrow> vfs_open n w v = Inr (Some fh, v')"
  by (auto simp: open_node_def map_res_Inr_iff split: option.splits)

lemma create_file_Inr:
  assumes run: "create_file p create dir w s = Inr (Inr h, s')" and pk: "packed objs (handles s)" "length objs < MAX_HANDLES"
  obtains fh v where "open_vfs_file p create w (files s) = Inr (Inr fh, v)" "h = of_nat (Suc (length objs))"
    "kern s' = kern s" "files s' = v" "packed (objs @ [\<lparr>obj_kind = ObjectKind.File, obj_data = of_nat fh\<rparr>]) (handles s')"
proof -
  obtain r v where o: "open_vfs_file p create w (files s) = Inr (r, v)"
    using run by (auto simp: create_file_def bind_res_Inr_iff)
  obtain fh where r: "r = Inr fh" using run o by (cases r) (auto simp: create_file_def)
  obtain t where t: "allocate ObjectKind.File (of_nat fh) (handles s) = (Some (of_nat (Suc (length objs))), t)"
      "packed (objs @ [\<lparr>obj_kind = ObjectKind.File, obj_data = of_nat fh\<rparr>]) t"
    using packed_allocate [OF pk, of ObjectKind.File "of_nat fh"] by metis
  show thesis using run o r t by (intro that [OF o [unfolded r]]) (auto simp: create_file_def)
qed

lemma file_from_packed:
  assumes "packed objs (handles s)" "i < length objs" "objs ! i = \<lparr>obj_kind = ObjectKind.File, obj_data = of_nat fh\<rparr>" "fh < 2 ^ 64"
  shows "vfs_file_from_object (of_nat (Suc i)) s = Inr fh"
proof -
  have "i < MAX_HANDLES" using assms(1,2) by (auto simp: packed_def)
  then show ?thesis using packed_lookup [OF assms(1)] assms(2-4)
    by (simp add: vfs_file_from_object_def unat_of_nat del: of_nat_Suc)
qed

end
