(* ===== verification/Nt_Properties.thy ===== *)
theory Nt_Properties
  imports Nt
begin

text \<open>
  The invariant of the system-call layer and its properties: which calls can panic, which keep
  the invariant, and what a user program observes of a file it creates, writes, closes and opens
  again.
\<close>

definition file_objects_ok :: "handle_table \<Rightarrow> bool" where
  "file_objects_ok t \<longleftrightarrow>
     (\<forall>obj. Some obj \<in> set (slots t) \<longrightarrow> obj_kind obj = ObjectKind.File \<longrightarrow> unat (obj_data obj) < MAX_OPEN_FILES)"

definition os_inv :: "os \<Rightarrow> bool" where
  "os_inv s \<longleftrightarrow> sched_inv (kern s) \<and> vfs_inv (files s) (mach (kern s)) \<and> table_inv (handles s) \<and> file_objects_ok (handles s)"

lemma os_invD:
  assumes "os_inv s"
  shows "sched_inv (kern s)" "vfs_inv (files s) (mach (kern s))" "table_inv (handles s)" "file_objects_ok (handles s)"
  using assms by (auto simp: os_inv_def)

section \<open>The pointers of a call\<close>

text \<open>
  The bytes from physical address \<open>a\<close> that a call touches for its caller: the address is aligned for the access, the range is
  shorter than \<open>2\<^sup>6\<^sup>3\<close> bytes and inside the address space, and it meets neither \<open>K\<close>, the memory in which the kernel keeps what this model holds
  outside of memory (its static tables, the allocator's bitmap, the \<^verbatim>\<open>Process\<close> structures), nor the frames of a file.
\<close>

definition file_frames :: "os \<Rightarrow> u64 set" where
  "file_frames s = (\<Union>n<MAX_NODES. own_frames (file_data (files s) ! n))"

definition range_ok :: "u64 set \<Rightarrow> nat \<Rightarrow> u64 \<Rightarrow> nat \<Rightarrow> os \<Rightarrow> bool" where
  "range_ok K n a len s \<longleftrightarrow> ptr_ok n a \<and> len < 2 ^ 63 \<and> unat a + len \<le> 2 ^ 64 \<and>
     (\<forall>i<len. a + of_nat i \<notin> K \<and> frame_of (a + of_nat i) \<notin> file_frames s)"

definition user_range_ok :: "u64 set \<Rightarrow> nat \<Rightarrow> u64 \<Rightarrow> nat \<Rightarrow> os \<Rightarrow> bool" where
  "user_range_ok K n p len s \<longleftrightarrow> (case user_ptr_to_phys p s of None \<Rightarrow> True | Some a \<Rightarrow> range_ok K n a len s)"

text \<open>The ranges each call uses. The pointer for the length of a query's result is translated after the buffer is written, and
  the bytes of a path are taken as a \<^verbatim>\<open>str\<close> without a check that they are UTF-8.\<close>

definition call_pointers_ok :: "u64 set \<Rightarrow> SyscallNumber \<Rightarrow> u64 list \<Rightarrow> os \<Rightarrow> bool" where
  "call_pointers_ok K n args s \<longleftrightarrow>
     (case n of
        NtCreateFile \<Rightarrow> user_range_ok K 1 (args ! 1) 128 s \<and> user_range_ok K 8 (args ! 0) 8 s \<and>
          (\<forall>a path. user_ptr_to_phys (args ! 1) s = Some a \<and> guest_cstr (os_mem s) a 128 = Inr path \<longrightarrow> utf8_valid path)
      | NtReadFile \<Rightarrow> user_range_ok K 1 (args ! 1) (unat (args ! 2)) s
      | NtWriteFile \<Rightarrow> user_range_ok K 1 (args ! 1) (unat (args ! 2)) s
      | NtAllocateVirtualMemory \<Rightarrow> args ! 1 \<noteq> 0 \<longrightarrow> range_ok K 8 (args ! 1) 8 s
      | NtQuerySystemInformation \<Rightarrow> user_range_ok K 1 (args ! 1) (unat (args ! 2)) s \<and>
          (\<forall>b bs. user_ptr_to_phys (args ! 1) s = Some b \<and> length bs \<le> unat (args ! 2) \<longrightarrow> user_range_ok K 4 (args ! 3) 4 (os_write b bs s))
      | NtQueryInformationProcess \<Rightarrow> user_range_ok K 1 (args ! 2) 48 s \<and>
          (\<forall>b bs. user_ptr_to_phys (args ! 2) s = Some b \<and> length bs \<le> 48 \<longrightarrow> user_range_ok K 4 (args ! 4) 4 (os_write b bs s))
      | NtDelayExecution \<Rightarrow> user_range_ok K 8 (args ! 1) 8 s
      | _ \<Rightarrow> True)"

lemma range_ok_chk [simp]:
  assumes "range_ok K n a len s"
  shows "ptr_chk n a = Inr ()" "raw_slice_chk a len = Inr ()"
  using assms by (simp_all add: range_ok_def ptr_ok_def ptr_chk_def raw_slice_chk_def)

lemma user_range_chk:
  "user_range_ok K n p len s \<Longrightarrow> user_ptr_to_phys p s = Some a \<Longrightarrow> ptr_chk n a = Inr () \<and> raw_slice_chk a len = Inr ()"
  by (auto simp: user_range_ok_def)

section \<open>State changes that keep the invariant\<close>

lemma vfs_inv_frames:
  assumes "vfs_inv v m" "fa_inv (falloc m')" "free_frames (falloc m') \<subseteq> free_frames (falloc m)"
  shows "vfs_inv v m'"
  using assms unfolding vfs_inv_def file_ok_def by blast

lemma os_inv_write [simp]: "os_inv (os_write a bs s) = os_inv s"
  by (auto simp: os_inv_def os_write_def vfs_inv_def)

lemma os_inv_files:
  assumes "os_inv s" "vfs_inv v (mach (kern s))"
  shows "os_inv (s\<lparr>files := v\<rparr>)"
  using assms by (simp add: os_inv_def)

lemma os_inv_mach:
  assumes "os_inv s" "vfs_inv (files s) m"
  shows "os_inv (os_mach m s)"
  using assms by (simp add: os_inv_def os_mach_def)

lemma file_objects_ok_ops:
  assumes "file_objects_ok t"
  shows "file_objects_ok (snd (close h t))"
    "(k = ObjectKind.File \<longrightarrow> unat d < MAX_OPEN_FILES) \<Longrightarrow> file_objects_ok (snd (allocate k d t))"
proof -
  have upd: "Some obj \<in> set (xs[i := y]) \<Longrightarrow> y = Some obj \<or> Some obj \<in> set xs" for obj y and xs :: "ObjectHeader option list" and i
    using set_update_subset_insert [of xs i y] by blast
  show "file_objects_ok (snd (close h t))"
    using assms unfolding file_objects_ok_def close_def by (auto dest!: upd)
  show "file_objects_ok (snd (allocate k d t))" if "k = ObjectKind.File \<longrightarrow> unat d < MAX_OPEN_FILES"
    using assms that unfolding file_objects_ok_def allocate_def by (auto dest!: upd split: option.splits)
qed

section \<open>The services do not panic\<close>

lemma find_child_bound: "find_child v p name = Some i \<Longrightarrow> i < length (nodes v)"
  using find_child_SomeD(1) .

lemma walk_components_bound:
  "walk_components v c cs = Some n \<Longrightarrow> c < length (nodes v) \<Longrightarrow> n < length (nodes v)"
  by (induction cs arbitrary: c) (auto split: if_splits option.splits dest: find_child_bound)

lemma vfs_lookup_bound: "vfs_inv v m \<Longrightarrow> vfs_lookup v p = Some n \<Longrightarrow> n < MAX_NODES"
  using walk_components_bound [of v 0 _ n] by (auto simp: vfs_lookup_components vfs_inv_def MAX_NODES_def)

lemma vfs_open_ok:
  assumes "vfs_inv v m" "n < MAX_NODES"
  shows "\<exists>r v'. vfs_open n w v = Inr (r, v') \<and> vfs_inv v' m \<and> (\<forall>h. r = Some h \<longrightarrow> h < MAX_OPEN_FILES)"
proof -
  have "n < length (nodes v)" using assms by (simp add: vfs_inv_def)
  then have "\<exists>r v'. vfs_open n w v = Inr (r, v')" by (simp add: vfs_open_def index_chk_def split: option.splits)
  then obtain r v' where run: "vfs_open n w v = Inr (r, v')" by blast
  have "h < MAX_OPEN_FILES" if "r = Some h" for h
    using vfs_open_Some(2) [of n w v h v'] run that assms(1) by (simp add: vfs_inv_def)
  then show ?thesis using vfs_inv_open [OF assms(1) run] run by blast
qed

lemma open_node_ok:
  assumes "vfs_inv v m" "n < MAX_NODES"
  shows "\<exists>r v'. open_node n w v = Inr (r, v') \<and> vfs_inv v' m \<and> (\<forall>h. r = Inr h \<longrightarrow> h < MAX_OPEN_FILES)"
  using vfs_open_ok [OF assms, of w] by (auto simp: open_node_def split: option.splits)

lemma open_vfs_file_ok:
  assumes inv: "vfs_inv v m"
  shows "\<exists>r v'. open_vfs_file p c w v = Inr (r, v') \<and> vfs_inv v' m \<and> (\<forall>h. r = Inr h \<longrightarrow> h < MAX_OPEN_FILES)"
proof (cases "vfs_lookup v p")
  case (Some n)
  then show ?thesis using inv open_node_ok [OF inv vfs_lookup_bound [OF inv Some], of w]
    by (simp add: open_vfs_file_def)
next
  case None
  show ?thesis
  proof (cases "vfs_lookup v (parent_path p)")
    case n: None
    then show ?thesis using None inv by (simp add: open_vfs_file_def)
  next
    case (Some d)
    obtain r v1 where cr: "vfs_create d (path_file_name p) NodeKind.File v = (r, v1)" by fastforce
    have i1: "vfs_inv v1 m" using vfs_inv_create [OF inv, of d "path_file_name p" NodeKind.File] cr by simp
    show ?thesis
    proof (cases r)
      case n: None
      then show ?thesis using None Some cr inv i1 by (simp add: open_vfs_file_def)
    next
      case i: (Some i)
      have "i < MAX_NODES" using vfs_create_Some(1) [of d _ _ v i v1] cr i inv by (simp add: vfs_inv_def)
      then show ?thesis using open_node_ok [OF i1, of i w] None Some cr i inv by (simp add: open_vfs_file_def)
    qed
  qed
qed

lemma create_file_ok:
  assumes inv: "os_inv s"
  shows "\<exists>r s'. create_file p c d w s = Inr (r, s') \<and> os_inv s'"
proof -
  obtain r v where o: "open_vfs_file p c w (files s) = Inr (r, v)" "vfs_inv v (mach (kern s))"
      "\<And>h. r = Inr h \<Longrightarrow> h < MAX_OPEN_FILES"
    using open_vfs_file_ok [OF os_invD(2) [OF inv], of p c w] by blast
  show ?thesis
  proof (cases r)
    case (Inl st)
    then show ?thesis using o os_inv_files [OF inv o(2)] by (simp add: create_file_def)
  next
    case (Inr fh)
    have fb: "unat (of_nat fh :: u64) < MAX_OPEN_FILES" using o(3) [OF Inr] by (simp add: unat_of_nat MAX_OPEN_FILES_def)
    obtain h t where al: "allocate ObjectKind.File (of_nat fh) (handles s) = (h, t)" by fastforce
    have "table_inv t" "file_objects_ok t"
      using table_inv_ops(1) [OF os_invD(3) [OF inv], of ObjectKind.File "of_nat fh"]
        file_objects_ok_ops(2) [OF os_invD(4) [OF inv], of ObjectKind.File "of_nat fh"] fb al by simp_all
    then show ?thesis using o al Inr inv by (cases h) (simp_all add: create_file_def os_inv_def)
  qed
qed

lemma file_object_bound:
  assumes "os_inv s" "vfs_file_from_object h s = Inr fh"
  shows "fh < MAX_OPEN_FILES"
proof -
  obtain obj where l: "lookup (handles s) h = Some obj" "obj_kind obj = ObjectKind.File" "fh = unat (obj_data obj)"
    using assms(2) by (auto simp: vfs_file_from_object_def split: option.splits if_splits)
  have "slots (handles s) ! handle_index h \<in> set (slots (handles s))"
    using os_invD(3) [OF assms(1)] by (intro nth_mem) (simp add: table_inv_def)
  then show ?thesis using l os_invD(4) [OF assms(1)] by (auto simp: lookup_def file_objects_ok_def)
qed

lemma vfs_read_ok:
  assumes inv: "vfs_inv v m" and h: "h < MAX_OPEN_FILES"
  shows "\<exists>r v'. vfs_read h len v (phys m) = Inr (r, v') \<and> vfs_inv v' m"
proof -
  have "\<exists>r v'. vfs_read h len v (phys m) = Inr (r, v')"
    using vfs_read_spec [OF inv h] h inv
    by (cases "open_files v ! h") (simp_all add: vfs_read_def index_chk_def vfs_inv_def Let_def)
  then show ?thesis using vfs_inv_read [OF inv] by blast
qed

lemma vfs_write_ok:
  assumes inv: "vfs_inv v m" and h: "h < MAX_OPEN_FILES"
  shows "\<exists>r v' m'. vfs_write h buf v m = Inr (r, v', m') \<and> vfs_inv v' m'"
proof (cases "\<exists>f. open_files v ! h = Some f \<and> of_writable f")
  case True
  then show ?thesis using vfs_write_spec [OF inv h, of _ buf] by fastforce
next
  case False
  then have "vfs_write h buf v m = Inr (None, v, m)"
    using h inv by (auto simp: vfs_write_def index_chk_def vfs_inv_def split: option.splits)
  then show ?thesis using inv by blast
qed

lemma read_file_ok:
  assumes inv: "os_inv s"
  shows "\<exists>r s'. read_file h a len s = Inr (r, s') \<and> os_inv s'"
proof (cases "vfs_file_from_object h s")
  case (Inl st)
  then show ?thesis using inv by (simp add: read_file_def)
next
  case (Inr fh)
  obtain r v where rd: "vfs_read fh len (files s) (os_mem s) = Inr (r, v)" "vfs_inv v (mach (kern s))"
    using vfs_read_ok [OF os_invD(2) [OF inv] file_object_bound [OF inv Inr], of len] by (auto simp: os_mem_def)
  then show ?thesis using Inr os_inv_files [OF inv rd(2)] by (cases r) (simp_all add: read_file_def)
qed

lemma write_file_ok:
  assumes inv: "os_inv s"
  shows "\<exists>r s'. write_file h buf s = Inr (r, s') \<and> os_inv s'"
proof (cases "vfs_file_from_object h s")
  case (Inl st)
  then show ?thesis using inv by (simp add: write_file_def)
next
  case (Inr fh)
  obtain r v m where wr: "vfs_write fh buf (files s) (mach (kern s)) = Inr (r, v, m)" "vfs_inv v m"
    using vfs_write_ok [OF os_invD(2) [OF inv] file_object_bound [OF inv Inr], of buf] by blast
  then have "os_inv (os_mach m (s\<lparr>files := v\<rparr>))" using inv by (simp add: os_inv_def os_mach_def)
  then show ?thesis using Inr wr by (simp add: write_file_def)
qed

lemma nt_close_ok:
  assumes inv: "os_inv s"
  shows "\<exists>r s'. nt_close h s = Inr (r, s') \<and> os_inv s'"
proof (cases "vfs_file_from_object h s")
  case (Inl st)
  then show ?thesis using inv
    by (auto simp: nt_close_def vfs_file_from_object_def split: option.splits if_splits)
next
  case (Inr fh)
  then obtain obj where l: "lookup (handles s) h = Some obj" "obj_kind obj = ObjectKind.File" "fh = unat (obj_data obj)"
    by (auto simp: vfs_file_from_object_def split: option.splits if_splits)
  have "fh < length (open_files (files s))"
    using file_object_bound [OF inv Inr] os_invD(2) [OF inv] by (simp add: vfs_inv_def)
  then have "\<exists>ok v. vfs_close fh (files s) = Inr (ok, v)"
    by (cases "open_files (files s) ! fh") (auto simp: vfs_close_def index_chk_def)
  then obtain ok v where cl: "vfs_close fh (files s) = Inr (ok, v)" by blast
  have "table_inv (snd (close h (handles s)))" "file_objects_ok (snd (close h (handles s)))"
    using table_inv_ops(2) [OF os_invD(3) [OF inv]] file_objects_ok_ops(1) [OF os_invD(4) [OF inv]] by simp_all
  then have "os_inv (s\<lparr>files := v, handles := snd (close h (handles s))\<rparr>)"
    using inv vfs_inv_close [OF os_invD(2) [OF inv] cl] by (simp add: os_inv_def)
  then show ?thesis using l cl by (simp add: nt_close_def case_prod_beta)
qed

lemma alloc_frames_ok:
  assumes "fa_inv (falloc m)" "alloc_frames n base m = (r, m')"
  shows "fa_inv (falloc m') \<and> free_frames (falloc m') \<subseteq> free_frames (falloc m)"
  using assms
proof (induction n base m rule: alloc_frames.induct)
  case (2 n base m)
  obtain q m1 where al: "alloc_frame m = (q, m1)" by fastforce
  note st = alloc_frame_step [OF "2.prems"(1) al]
  show ?case
  proof (cases q)
    case (Some f)
    then have "alloc_frames n (if base = 0 then f else base) m1 = (r, m')" using "2.prems"(2) al by simp
    from "2.IH" [OF al [symmetric] Some st(1) this] show ?thesis using st(4) by blast
  qed (use "2.prems"(2) al st in auto)
qed simp

lemma free_one_ok:
  assumes "4096 * i < 2 ^ 64" "unat base + 4096 * i < 2 ^ 64"
  shows "\<exists>m'. free_one base i m = Inr m'"
proof -
  have "i < 2 ^ 64" using assms(1) by simp
  then have u: "unat (of_nat i :: u64) = i" by (simp add: unat_of_nat)
  have "unat (of_nat i * 4096 :: u64) = 4096 * i" using assms(1) u by (simp add: unat_word_ariths)
  then show ?thesis using assms u by (simp add: free_one_def mul_chk_def add_chk_def)
qed

lemma free_one_panics:
  assumes "4096 * i < 2 ^ 64" "2 ^ 64 \<le> unat base + 4096 * i"
  shows "panics (free_one base i m)"
proof -
  have "i < 2 ^ 64" using assms(1) by simp
  then have u: "unat (of_nat i :: u64) = i" by (simp add: unat_of_nat)
  have "unat (of_nat i * 4096 :: u64) = 4096 * i" using assms(1) u by (simp add: unat_word_ariths)
  then show ?thesis using assms u by (simp add: free_one_def mul_chk_def add_chk_def)
qed

lemma free_loop_panics:
  assumes "4096 * n < 2 ^ 64"
  shows "panics (for_each (free_one base) [0..<n] m) \<longleftrightarrow> 0 < n \<and> 2 ^ 64 \<le> unat base + 4096 * (n - 1)"
  using assms
proof (induction n)
  case (Suc n)
  have n1: "4096 * n < 2 ^ 64" using Suc.prems by simp
  show ?case
  proof (cases "panics (for_each (free_one base) [0..<n] m)")
    case True
    moreover have "4096 * (n - 1) \<le> 4096 * n" by simp
    ultimately have "2 ^ 64 \<le> unat base + 4096 * n" using Suc.IH [OF n1] by linarith
    with True show ?thesis by (auto simp: for_each_append bind_res_def panics_def split: sum.splits)
  next
    case False
    then obtain m1 where m1: "for_each (free_one base) [0..<n] m = Inr m1" by (auto simp: not_panics_iff)
    have s: "panics (for_each (free_one base) [0..<Suc n] m) = panics (free_one base n m1)"
      by (cases "free_one base n m1") (simp_all add: for_each_append m1)
    show ?thesis unfolding s using free_one_ok [OF n1, of base m1] free_one_panics [OF n1, of base m1]
      by (cases "unat base + 4096 * n < 2 ^ 64") auto
  qed
qed simp

lemma schedule_falloc:
  assumes "schedule c k = Inr (c', k')"
  shows "falloc (mach k') = falloc (mach k)"
proof -
  have enq: "mach (snd (enqueue_thread s k)) = mach k" for s k
    by (simp add: enqueue_thread_def split: option.splits)
  have deq: "mach (snd (dequeue_thread k)) = mach k"
    by (simp add: dequeue_thread_def split: option.splits prod.splits)
  have sw: "falloc (mach k2) = falloc (mach k1)" if "switch_to n r c k1 = Inr (c', k2)" for n r k1 k2
    using that enq by (auto simp: switch_to_def Let_def split: option.splits prod.splits if_splits)
  obtain n k1 where d: "dequeue_thread k = (n, k1)" by fastforce
  then have "mach k1 = mach k" using deq by simp
  then show ?thesis using assms d sw by (auto simp: schedule_def split: option.splits)
qed

section \<open>Handlers\<close>

lemma handle_create_file_ok:
  assumes inv: "os_inv s" and path: "user_range_ok K 1 (args ! 1) 128 s" and out: "user_range_ok K 8 (args ! 0) 8 s"
  shows "\<exists>st s'. handle_create_file args s = Inr (st, s') \<and> os_inv s'"
proof -
  have run: "\<exists>r s'. create_file p c False w s = Inr (r, s') \<and> os_inv s'" for p c w
    using create_file_ok [OF inv] .
  have "\<exists>st s'. bind_res (create_file p c False w s) (\<lambda>(r, s'). case r of
      Inr h \<Rightarrow> map_res (\<lambda>_. (Success, os_write a (f h) s')) (ptr_chk 8 a) | Inl st \<Rightarrow> Inr (st, s')) = Inr (st, s') \<and> os_inv s'"
    if "ptr_chk 8 a = Inr ()" for p c w a f
    using run [of p c w] that by (auto split: sum.splits)
  then show ?thesis using inv user_range_chk [OF path] user_range_chk [OF out]
    unfolding handle_create_file_def Let_def guest_cstr_def by (auto split: option.splits)
qed

lemma handle_read_file_ok:
  assumes inv: "os_inv s" and buf: "user_range_ok K 1 (args ! 1) (unat (args ! 2)) s"
  shows "\<exists>st s'. handle_read_file args s = Inr (st, s') \<and> os_inv s'"
proof -
  have "\<exists>st s'. map_res (\<lambda>(r, s'). (f r, s')) (read_file h a len s) = Inr (st, s') \<and> os_inv s'" for f :: "NtStatus + nat \<Rightarrow> NtStatus" and h a len
    using read_file_ok [OF inv, of h a len] by auto
  then show ?thesis using inv user_range_chk [OF buf] unfolding handle_read_file_def Let_def by (auto split: option.splits)
qed

lemma handle_write_file_ok:
  assumes inv: "os_inv s" and buf: "user_range_ok K 1 (args ! 1) (unat (args ! 2)) s"
  shows "\<exists>st s'. handle_write_file args s = Inr (st, s') \<and> os_inv s'"
proof -
  have "\<exists>st s'. map_res (\<lambda>(r, s'). (f r, s')) (write_file h buf s) = Inr (st, s') \<and> os_inv s'" for f :: "NtStatus + nat \<Rightarrow> NtStatus" and h buf
    using write_file_ok [OF inv, of h buf] by auto
  then show ?thesis using inv user_range_chk [OF buf] unfolding handle_write_file_def Let_def by (auto split: option.splits)
qed

lemma write_ret_len_ok:
  assumes "os_inv s" "user_range_ok K 4 p 4 s"
  shows "\<exists>s'. write_ret_len p v s = Inr s' \<and> os_inv s'"
  using assms user_range_chk [OF assms(2)] by (auto simp: write_ret_len_def split: option.splits)

lemma query_system_ok:
  assumes inv: "os_inv s" and ok: "call_pointers_ok K NtQuerySystemInformation args s"
  shows "\<exists>st s'. handle_query_system_information args s = Inr (st, s') \<and> os_inv s'"
proof (cases "user_ptr_to_phys (args ! 1) s")
  case None
  then show ?thesis using inv by (simp add: handle_query_system_information_def Let_def)
next
  case (Some b)
  have chk: "raw_slice_chk b (unat (args ! 2)) = Inr ()" using ok user_range_chk [OF _ Some] by (auto simp: call_pointers_ok_def)
  have w: "\<exists>s'. write_ret_len (args ! 3) v (os_write b bs s) = Inr s' \<and> os_inv s'" if "of_nat (length bs) \<le> args ! 2" "length bs < 100" for v bs
  proof (rule write_ret_len_ok)
    have "length bs \<le> unat (args ! 2)" using that by (simp add: word_le_nat_alt unat_of_nat)
    then show "user_range_ok K 4 (args ! 3) 4 (os_write b bs s)" using ok Some by (simp add: call_pointers_ok_def)
  qed (use inv in simp)
  show ?thesis
    using inv Some chk w [of "to_le 4 (4096 :: u32) @ to_le 4 (0x8000 :: u32) @ replicate 56 0" 64] w [of "to_le 2 (12 :: u16)" 2]
    by (auto simp: handle_query_system_information_def Let_def not_less)
qed

lemma query_process_ok:
  assumes inv: "os_inv s" and ok: "call_pointers_ok K NtQueryInformationProcess args s"
  shows "\<exists>st s'. handle_query_information_process args s = Inr (st, s') \<and> os_inv s'"
proof (cases "user_ptr_to_phys (args ! 2) s")
  case None
  then show ?thesis using inv by (simp add: handle_query_information_process_def Let_def)
next
  case (Some b)
  have chk: "raw_slice_chk b 48 = Inr ()" using ok user_range_chk [OF _ Some] by (auto simp: call_pointers_ok_def)
  have "user_range_ok K 4 (args ! 4) 4 (os_write b (to_le 8 (1 :: u64) @ replicate 40 0) s)"
    using ok Some by (simp add: call_pointers_ok_def)
  from write_ret_len_ok [OF _ this, of 48] show ?thesis
    using inv Some chk by (auto simp: handle_query_information_process_def Let_def)
qed

lemma delay_ok:
  assumes inv: "os_inv s" and ptr: "user_range_ok K 8 (args ! 1) 8 s"
  shows "\<exists>st c' s'. handle_delay_execution c args s = Inr (st, c', s') \<and> os_inv s'"
proof -
  obtain c' k where k: "schedule c (kern s) = Inr (c', k)" "sched_inv k"
    using schedule_total [OF os_invD(1) [OF inv], of c] by blast
  have "vfs_inv (files s) (mach k)"
    using vfs_inv_frames [OF os_invD(2) [OF inv]] schedule_falloc [OF k(1)] os_invD(2) [OF inv] by (simp add: vfs_inv_def)
  then show ?thesis using k inv user_range_chk [OF ptr]
    by (auto simp: handle_delay_execution_def Let_def yield_current_def os_inv_def split: option.splits)
qed

lemma handle_allocate_inv:
  assumes inv: "os_inv s" and run: "handle_allocate_virtual_memory args s = Inr (st, s')"
  shows "os_inv s'"
proof -
  obtain x where x: "add_chk (args ! 3) 4095 = Inr x"
    using run by (auto simp: handle_allocate_virtual_memory_def allocate_virtual_memory_def bind_res_Inr_iff map_res_Inr_iff)
  obtain r m where n: "alloc_frames (unat x div 4096) 0 (mach (kern s)) = (r, m)" by fastforce
  have s': "s' = os_mach m s \<or> (\<exists>a bs. s' = os_write a bs (os_mach m s))"
    using run by (cases r) (auto simp: handle_allocate_virtual_memory_def allocate_virtual_memory_def x n Let_def map_res_Inr_iff split: if_splits)
  have fi: "fa_inv (falloc (mach (kern s)))" using os_invD(2) [OF inv] by (simp add: vfs_inv_def)
  have "vfs_inv (files s) m"
    using alloc_frames_ok [OF fi n] by (intro vfs_inv_frames [OF os_invD(2) [OF inv]]) simp_all
  then show ?thesis using os_inv_mach [OF inv] s' by auto
qed

lemma handle_allocate_panics:
  assumes "args ! 1 \<noteq> 0 \<longrightarrow> range_ok K 8 (args ! 1) 8 s"
  shows "panics (handle_allocate_virtual_memory args s) \<longleftrightarrow> 2 ^ 64 \<le> unat (args ! 3) + 4095"
proof -
  have "args ! 1 \<noteq> 0 \<Longrightarrow> ptr_chk 8 (args ! 1) = Inr ()" using assms by (auto intro: range_ok_chk)
  then show ?thesis
    by (auto simp: handle_allocate_virtual_memory_def allocate_virtual_memory_def add_chk_def Let_def split: prod.splits sum.splits)
qed

text \<open>Where the frames are there but the pointer for their address is not aligned, the call panics.\<close>

lemma handle_allocate_bad_pointer:
  assumes "add_chk (args ! 3) 4095 = Inr x" "alloc_frames (unat x div 4096) 0 (mach (kern s)) = (Inr base, m)"
    and "args ! 1 \<noteq> 0" "unat (args ! 1) mod 8 \<noteq> 0"
  shows "handle_allocate_virtual_memory args s = Inl Bad_Pointer"
  using assms by (simp add: handle_allocate_virtual_memory_def allocate_virtual_memory_def Let_def ptr_chk_def ptr_ok_def)

lemma handle_free_panics:
  "panics (handle_free_virtual_memory args s) \<longleftrightarrow>
     (let n = (unat (args ! 1) + 4095) div 4096 in
      2 ^ 64 \<le> unat (args ! 1) + 4095 \<or> 0 < n \<and> 2 ^ 64 \<le> unat (args ! 0) + 4096 * (n - 1))"
proof (cases "unat (args ! 1) + 4095 < 2 ^ 64")
  case True
  define n where "n = (unat (args ! 1) + 4095) div 4096"
  have n: "4096 * n < 2 ^ 64" using True by (simp add: n_def)
  have "unat (args ! 1 + 4095) = unat (args ! 1) + 4095" using True by (simp add: unat_word_ariths)
  then have run: "handle_free_virtual_memory args s =
      map_res (\<lambda>(st, m). (st, os_mach m s)) (map_res (Pair Success) (for_each (free_one (args ! 0)) [0..<n] (mach (kern s))))"
    using True by (simp add: handle_free_virtual_memory_def free_virtual_memory_def add_chk_def n_def)
  show ?thesis using free_loop_panics [OF n] True unfolding run n_def [symmetric] Let_def by (simp add: panics_map_res)
next
  case False
  then show ?thesis by (simp add: handle_free_virtual_memory_def free_virtual_memory_def add_chk_def Let_def)
qed

section \<open>Creating a file\<close>

lemma create_new_file:
  assumes un: "names_unique (files s)" and pk: "packed objs (handles s)" "length objs < MAX_HANDLES"
    and name: "utf8_valid name" "name \<noteq> []" "SLASH \<notin> set name" and inv: "vfs_inv (files s) (mach (kern s))"
    and run: "create_file (dir @ SLASH # name) True False w s = Inr (Inr h, s')"
  obtains i fh where "h = of_nat (Suc (length objs))" "kern s' = kern s" "vfs_inv (files s') (mach (kern s))"
    "vfs_lookup (files s') (dir @ SLASH # name) = Some i" "fh < MAX_OPEN_FILES"
    "open_files (files s') ! fh = Some \<lparr>of_node = i, of_position = 0, of_writable = w\<rparr>"
    "packed (objs @ [\<lparr>obj_kind = ObjectKind.File, obj_data = of_nat fh\<rparr>]) (handles s')"
proof -
  let ?p = "dir @ SLASH # name"
  obtain fh v where c: "open_vfs_file ?p True w (files s) = Inr (Inr fh, v)" "h = of_nat (Suc (length objs))"
      "kern s' = kern s" "files s' = v" "packed (objs @ [\<lparr>obj_kind = ObjectKind.File, obj_data = of_nat fh\<rparr>]) (handles s')"
    by (rule create_file_Inr [OF run pk])
  obtain d where d: "vfs_lookup (files s) dir = Some d"
    using c(1) lookup_parent_child [OF name(3), of "files s" dir] by (auto simp: open_vfs_file_def split: option.splits)
  obtain r v0 where cr: "vfs_create d name NodeKind.File (files s) = (r, v0)" by fastforce
  obtain i where i: "r = Some i" "open_node i w v0 = Inr (Inr fh, v)"
    using c(1) d cr by (cases r) (auto simp: open_vfs_file_def lookup_parent_child [OF name(3)] path_file_name_child [OF name(3)] split: option.splits)
  note o = vfs_open_Some [OF open_node_Inr [OF i(2)]]
  have i0: "vfs_inv v0 (mach (kern s))" using vfs_inv_create [OF inv, of d name NodeKind.File] cr by simp
  have "vfs_lookup v ?p = Some i"
    using lookup_created [OF un d cr [unfolded i(1)] name] vfs_lookup_nodes [of v v0] o(3) by simp
  then show thesis using that [of i fh] c o i0 vfs_inv_open [OF i0 open_node_Inr [OF i(2)]]
    by (simp add: vfs_inv_def)
qed

text \<open>A created file, the boot-time file system around it and the first handle.\<close>

definition sample_os :: os where
  "sample_os = \<lparr>kern = initial_kernel sample_machine new_bump, handles = initial_handles, files = vfs_init static_vfs,
     procs = (\<lambda>_. None), nt_initialized = True, syscall_table = handler_table\<rparr>"

lemma sample_os_table: "syscall_table sample_os = handler_table" "nt_initialized sample_os"
  by (simp_all add: sample_os_def)

lemma sample_os_inv: "os_inv sample_os"
  using sched_inv_initial vfs_inv_init [OF sample_fa_inv] table_inv_initial
  by (auto simp: os_inv_def sample_os_def initial_kernel_def file_objects_ok_def initial_handles_def)

lemma sample_file_created:
  "\<exists>s1. create_file [SLASH, 0x61] True False True sample_os = Inr (Inr 1, s1) \<and> files s1 = sample_vfs \<and>
     kern s1 = kern sample_os \<and> packed [\<lparr>obj_kind = ObjectKind.File, obj_data = 0\<rparr>] (handles s1)"
  "vfs_lookup sample_vfs [SLASH, 0x61] = Some 1"
proof -
  let ?v = "vfs_init static_vfs"
  have root: "vfs_lookup ?v [] = Some 0" by (simp add: vfs_lookup_components)
  have n: "vfs_lookup ?v [SLASH, 0x61] = None"
    using vfs_lookup_child [of "[0x61]" ?v "[]"] boot_vfs(1) root by (simp add: SLASH_def)
  have p: "vfs_lookup ?v (parent_path [SLASH, 0x61]) = Some 0" "path_file_name [SLASH, 0x61] = [0x61]"
    using lookup_parent_child [of "[0x61]" ?v "[]"] path_file_name_child [of "[0x61]" "[]"] root by (simp_all add: SLASH_def)
  obtain v1 where v1: "vfs_create 0 [0x61] NodeKind.File ?v = (Some 1, v1)"
    using boot_vfs by (simp add: vfs_create_def MAX_NAME_LEN_def)
  note c = vfs_create_Some [OF v1]
  have "position (\<lambda>s. s = None) (open_files v1) = Some 0"
    by (rule position_SomeI) (simp_all add: c(5) vfs_init_def static_vfs_def MAX_OPEN_FILES_def)
  then have "vfs_open 1 True v1 = Inr (Some 0, v1\<lparr>open_files := (open_files v1)[0 := Some sample_open_file]\<rparr>)"
    using c(1) by (simp add: vfs_open_def index_chk_def c(5) sample_open_file_def)
  moreover have v: "sample_vfs = v1\<lparr>open_files := (open_files v1)[0 := Some sample_open_file]\<rparr>"
    using v1 by (simp add: sample_vfs_def) (simp add: c(5) vfs_init_def)
  ultimately have o: "open_vfs_file [SLASH, 0x61] True True ?v = Inr (Inr 0, sample_vfs)"
    by (simp add: open_vfs_file_def n p v1 open_node_def)
  obtain t where "allocate ObjectKind.File 0 initial_handles = (Some 1, t)" "packed [\<lparr>obj_kind = ObjectKind.File, obj_data = 0\<rparr>] t"
    using packed_allocate [OF packed_initial, of ObjectKind.File 0] by (simp add: MAX_HANDLES_def)
  then show "\<exists>s1. create_file [SLASH, 0x61] True False True sample_os = Inr (Inr 1, s1) \<and> files s1 = sample_vfs \<and>
     kern s1 = kern sample_os \<and> packed [\<lparr>obj_kind = ObjectKind.File, obj_data = 0\<rparr>] (handles s1)"
    by (simp add: create_file_def sample_os_def o)
  show "vfs_lookup sample_vfs [SLASH, 0x61] = Some 1"
    using lookup_created [OF sample_vfs_unique root v1] vfs_lookup_nodes [of sample_vfs v1 "[SLASH, 0x61]"]
    by (simp add: SLASH_def v)
qed

section \<open>Properties\<close>

lemma dispatch_services:
  assumes inv: "os_inv s" and tbl: "syscall_table s = handler_table" and n: "n \<noteq> NtAllocateVirtualMemory" "n \<noteq> NtFreeVirtualMemory"
    and ok: "call_pointers_ok K n args s"
  shows "\<not> panics (dispatch n args c s) \<and> (\<forall>st c' s'. dispatch n args c s = Inr (st, c', s') \<longrightarrow> os_inv s')"
proof (cases n)
  case NtClose
  then show ?thesis using nt_close_ok [OF inv, of "ucast (args ! 0)"] inv by (auto simp: dispatch_table [OF tbl] call_handler_def Let_def handle_close_def)
next
  case NtCreateFile
  then show ?thesis using handle_create_file_ok [OF inv, of K args] ok inv by (auto simp: dispatch_table [OF tbl] call_handler_def Let_def call_pointers_ok_def)
next
  case NtReadFile
  then show ?thesis using handle_read_file_ok [OF inv, of K args] ok inv by (auto simp: dispatch_table [OF tbl] call_handler_def Let_def call_pointers_ok_def)
next
  case NtWriteFile
  then show ?thesis using handle_write_file_ok [OF inv, of K args] ok inv by (auto simp: dispatch_table [OF tbl] call_handler_def Let_def call_pointers_ok_def)
next
  case NtQuerySystemInformation
  then show ?thesis using query_system_ok [OF inv, of K args] ok inv by (auto simp: dispatch_table [OF tbl] call_handler_def Let_def)
next
  case NtQueryInformationProcess
  then show ?thesis using query_process_ok [OF inv, of K args] ok inv by (auto simp: dispatch_table [OF tbl] call_handler_def Let_def)
next
  case NtDelayExecution
  then show ?thesis using delay_ok [OF inv, of K args c] ok inv by (auto simp: dispatch_table [OF tbl] call_handler_def Let_def call_pointers_ok_def)
qed (use n inv in \<open>auto simp: dispatch_table [OF tbl] call_handler_def Let_def\<close>)

text \<open>The arguments on which the arithmetic of the two memory calls overflows.\<close>

definition memory_overflow :: "SyscallNumber \<Rightarrow> u64 list \<Rightarrow> bool" where
  "memory_overflow n args \<longleftrightarrow>
     n = NtAllocateVirtualMemory \<and> 2 ^ 64 \<le> unat (args ! 3) + 4095 \<or>
     n = NtFreeVirtualMemory \<and> (let k = (unat (args ! 1) + 4095) div 4096 in
       2 ^ 64 \<le> unat (args ! 1) + 4095 \<or> 0 < k \<and> 2 ^ 64 \<le> unat (args ! 0) + 4096 * (k - 1))"

lemma dispatch_outcome:
  assumes inv: "os_inv s" and tbl: "syscall_table s = handler_table" and ok: "call_pointers_ok K n args s"
  shows "(panics (dispatch n args c s) \<longleftrightarrow> nt_initialized s \<and> memory_overflow n args) \<and>
    (\<forall>st c' s'. dispatch n args c s = Inr (st, c', s') \<longrightarrow> n \<noteq> NtFreeVirtualMemory \<longrightarrow> os_inv s')"
proof (cases "nt_initialized s \<and> (n = NtAllocateVirtualMemory \<or> n = NtFreeVirtualMemory)")
  case True
  have keep: "os_inv s'" if "map_res (\<lambda>(st, s'). (st, c, s')) (handle_allocate_virtual_memory args s) = Inr (st, c', s')" for st c' s'
    using that handle_allocate_inv [OF inv, of args] by (auto simp: map_res_Inr_iff)
  consider "n = NtAllocateVirtualMemory" | "n = NtFreeVirtualMemory" using True by blast
  then show ?thesis
  proof cases
    case 1
    then have d: "dispatch n args c s = map_res (\<lambda>(st, s'). (st, c, s')) (handle_allocate_virtual_memory args s)"
      using True by (simp add: dispatch_table [OF tbl] call_handler_def Let_def)
    have "args ! 1 \<noteq> 0 \<longrightarrow> range_ok K 8 (args ! 1) 8 s" using ok 1 by (simp add: call_pointers_ok_def)
    note p = handle_allocate_panics [OF this]
    show ?thesis unfolding d panics_map_res p using keep True 1 by (simp add: memory_overflow_def)
  next
    case 2
    then have d: "dispatch n args c s = map_res (\<lambda>(st, s'). (st, c, s')) (handle_free_virtual_memory args s)"
      using True by (simp add: dispatch_table [OF tbl] call_handler_def Let_def)
    show ?thesis unfolding d panics_map_res handle_free_panics using True 2 by (simp add: memory_overflow_def)
  qed
next
  case False
  then show ?thesis
  proof (cases "nt_initialized s")
    case True
    then show ?thesis using False dispatch_services [OF inv tbl _ _ ok, of c] by (auto simp: memory_overflow_def)
  qed (use inv in \<open>auto simp: dispatch_table [OF tbl] call_handler_def Let_def\<close>)
qed


lemma sample_os_range:
  assumes "ptr_ok n a" "len < 0x1000" "0x200000 \<le> unat a" "unat a < 0x300000"
  shows "range_ok {x. unat x < 0x200000} n a len sample_os" "user_range_ok {x. unat x < 0x200000} n a len sample_os"
proof -
  have a: "unat (a + of_nat i) = unat a + i" if "i < len" for i
    using that assms by (simp add: unat_word_ariths unat_of_nat)
  have "file_frames sample_os = {}"
    by (auto simp: file_frames_def sample_os_def vfs_init_def static_vfs_def own_frames_def MAX_NODES_def)
  then show r: "range_ok {x. unat x < 0x200000} n a len sample_os" using assms a by (auto simp: range_ok_def)
  have "user_ptr_to_phys a sample_os = Some a"
    using assms by (auto simp: user_ptr_to_phys_def with_current_thread_def sample_os_def initial_kernel_def ptr_ok_def)
  then show "user_range_ok {x. unat x < 0x200000} n a len sample_os" using r by (simp add: user_range_ok_def)
qed


text \<open>C17: as long as no handle has been closed, what a program writes to a file it created is what it reads when it opens the
  file again by its path. After creating \<open>dir/name\<close>, writing \<open>buf\<close> and opening the path again, all of these
  successful, the write reported the first 64 KiB of \<open>buf\<close> as written and a read through the second
  handle puts exactly those bytes at the reader's buffer.\<close>

theorem nt_file_roundtrip:
  assumes un: "names_unique (files s)" and inv: "vfs_inv (files s) (mach (kern s))"
    and pk: "packed objs (handles s)" "length objs + 2 \<le> MAX_HANDLES"
    and name: "utf8_valid name" "name \<noteq> []" "SLASH \<notin> set name"
    and cr: "create_file (dir @ SLASH # name) True False w s = Inr (Inr h, s1)"
    and wr: "write_file h buf s1 = Inr (Inr n, s2)"
    and op: "create_file (dir @ SLASH # name) False False w2 s2 = Inr (Inr h2, s3)"
  shows "n = min (length buf) 65536 \<and>
    (\<exists>s4. read_file h2 a n s3 = Inr (Inr n, s4) \<and> read_bytes (os_mem s4) a n = take n buf)"
proof -
  let ?p = "dir @ SLASH # name" and ?o = "\<lambda>fh. \<lparr>obj_kind = ObjectKind.File, obj_data = of_nat fh\<rparr>"
  have lt: "length objs < MAX_HANDLES" using pk(2) by simp
  obtain i fh where c: "h = of_nat (Suc (length objs))" "kern s1 = kern s" "vfs_inv (files s1) (mach (kern s))"
    "vfs_lookup (files s1) ?p = Some i" "fh < MAX_OPEN_FILES"
    "open_files (files s1) ! fh = Some \<lparr>of_node = i, of_position = 0, of_writable = w\<rparr>"
    "packed (objs @ [?o fh]) (handles s1)"
    by (rule create_new_file [OF un pk(1) lt name inv cr])
  have fb: "f < 2 ^ 64" if "f < MAX_OPEN_FILES" for f using that by (simp add: MAX_OPEN_FILES_def)
  have "vfs_file_from_object h s1 = Inr fh"
    unfolding c(1) by (rule file_from_packed [OF c(7)]) (use fb [OF c(5)] in simp_all)
  then obtain v m where w: "vfs_write fh buf (files s1) (mach (kern s)) = Inr (Some n, v, m)" "s2 = os_mach m (s1\<lparr>files := v\<rparr>)"
    using wr c(2) by (auto simp: write_file_def map_res_Inr_iff split: option.splits)
  have "w"
  proof (rule ccontr)
    assume "\<not> w"
    then show False using w(1) c(5,6) vfs_invD(5) [OF c(3)] by (simp add: vfs_write_def index_chk_def)
  qed
  then obtain v1: "vfs_inv v m" "n = min (length buf) 65536" "nodes v = nodes (files s1)"
      "contents v m i = overwrite (contents (files s1) (mach (kern s)) i) 0 (take n buf)"
    using vfs_write_spec [OF c(3,5,6), of buf] w(1) by auto
  have s2: "files s2 = v" "mach (kern s2) = m" "handles s2 = handles s1" by (simp_all add: w(2) os_mach_def)
  obtain fh2 v2 where o: "open_vfs_file ?p False w2 (files s2) = Inr (Inr fh2, v2)" "h2 = of_nat (Suc (length (objs @ [?o fh])))"
      "kern s3 = kern s2" "files s3 = v2" "packed ((objs @ [?o fh]) @ [?o fh2]) (handles s3)"
    by (rule create_file_Inr [OF op, unfolded s2(3), OF c(7)]) (use pk(2) in simp)
  have "vfs_open i w2 v = Inr (Some fh2, v2)"
    using o(1) c(4) vfs_lookup_nodes [OF v1(3)] by (auto simp: s2 open_vfs_file_def intro: open_node_Inr)
  note vo = vfs_open_Some [OF this] and i2 = vfs_inv_open [OF v1(1) this]
  have h2: "fh2 < MAX_OPEN_FILES" "open_files v2 ! fh2 = Some \<lparr>of_node = i, of_position = 0, of_writable = w2\<rparr>"
    using vo(2,3) v1(1) by (simp_all add: vfs_inv_def)
  have "vfs_file_from_object h2 s3 = Inr fh2"
    unfolding o(2) by (rule file_from_packed [OF o(5)]) (use fb [OF h2(1)] in \<open>simp_all add: nth_append\<close>)
  moreover have "take n (contents v2 m i) = take n buf"
    using v1(2,4) by (simp add: vo(3) contents_def overwrite_def)
  ultimately show ?thesis using vfs_read_spec [OF i2 h2, of n] v1(2) read_write_bytes_same [of "take n buf" "phys m" a]
    by (simp add: read_file_def o s2 os_mem_def os_write_def Let_def)
qed

theorem nt_file_roundtrip_witness:
  "\<exists>s1 s2 s3 s4. create_file [SLASH, 0x61] True False True sample_os = Inr (Inr 1, s1) \<and>
     write_file 1 [7, 8] s1 = Inr (Inr 2, s2) \<and> create_file [SLASH, 0x61] False False False s2 = Inr (Inr 2, s3) \<and>
     read_file 2 0x500000 2 s3 = Inr (Inr 2, s4) \<and> read_bytes (os_mem s4) 0x500000 2 = [7, 8]"
proof -
  obtain s1 where s1: "create_file [SLASH, 0x61] True False True sample_os = Inr (Inr 1, s1)" "files s1 = sample_vfs"
      "kern s1 = kern sample_os" "packed [\<lparr>obj_kind = ObjectKind.File, obj_data = 0\<rparr>] (handles s1)"
    using sample_file_created(1) by blast
  have k: "mach (kern sample_os) = sample_machine" by (simp add: sample_os_def initial_kernel_def)
  obtain v1 m1 v2 where v: "vfs_write 0 [7, 8] sample_vfs sample_machine = Inr (Some 2, v1, m1)" "nodes v1 = nodes sample_vfs"
      "vfs_open 1 False v1 = Inr (Some 1, v2)" using sample_reopen by blast
  have "vfs_file_from_object (of_nat (Suc 0)) s1 = Inr 0" by (rule file_from_packed [OF s1(4)]) simp_all
  then have s2: "write_file 1 [7, 8] s1 = Inr (Inr 2, os_mach m1 (s1\<lparr>files := v1\<rparr>))"
    by (simp add: write_file_def s1 k v(1))
  let ?s2 = "os_mach m1 (s1\<lparr>files := v1\<rparr>)"
  have a: "utf8_valid [0x61]" "SLASH \<notin> set [0x61 :: u8]" by (simp_all add: SLASH_def)
  obtain t where t: "allocate ObjectKind.File 1 (handles s1) = (Some 2, t)"
    using packed_allocate(1) [OF s1(4), of ObjectKind.File 1] by (simp add: MAX_HANDLES_def)
  have s3: "create_file [SLASH, 0x61] False False False ?s2 = Inr (Inr 2, ?s2\<lparr>files := v2, handles := t\<rparr>)"
    using sample_file_created(2) vfs_lookup_nodes [OF v(2), of "[SLASH, 0x61]"] v(3) t
    by (simp add: create_file_def open_vfs_file_def open_node_def os_mach_def)
  show ?thesis
    using nt_file_roundtrip [OF _ _ _ _ a(1) _ a(2), of sample_os "[]" "[]" True 1 s1 "[7, 8]" 2 ?s2] s1(1) s2 s3 sample_vfs_unique
      os_invD(2) [OF sample_os_inv] packed_initial by (fastforce simp: sample_os_def MAX_HANDLES_def)
qed

text \<open>C37: a file opened after a handle was closed cannot be used. When the file of a program's last handle is closed and
  another file is opened, the handle returned for it is refused by read, write and close; the closed
  handle is the one that reaches the new file.\<close>

theorem reopened_file_unusable:
  assumes pk: "packed objs (handles s)" "i < length objs" "length objs < MAX_HANDLES"
    and cl: "nt_close (of_nat (Suc i)) s = Inr (Success, s1)"
    and op: "create_file p create dir w s1 = Inr (Inr h, s2)"
  shows "read_file h a len s2 = Inr (Inl InvalidParameter, s2) \<and> write_file h buf s2 = Inr (Inl InvalidParameter, s2) \<and>
    nt_close h s2 = Inr (InvalidParameter, s2) \<and> (\<exists>fh. vfs_file_from_object (of_nat (Suc i)) s2 = Inr fh)"
proof -
  have t1: "handles s1 = snd (close (of_nat (Suc i)) (handles s))"
    using cl by (auto simp: nt_close_def map_res_Inr_iff case_prod_beta split: option.splits if_splits)
  obtain r v where "open_vfs_file p create w (files s1) = Inr (r, v)" using op by (auto simp: create_file_def bind_res_Inr_iff)
  then obtain fh where al: "allocate ObjectKind.File (of_nat fh) (handles s1) = (Some h, handles s2)"
    using op by (cases r) (auto simp: create_file_def split: option.splits prod.splits)
  have "lookup (handles s2) h = None" "lookup (handles s2) (of_nat (Suc i)) = Some \<lparr>obj_kind = ObjectKind.File, obj_data = of_nat fh\<rparr>"
    using packed_close_allocate [OF pk(1,3,2) al [unfolded t1]] by auto
  then show ?thesis by (simp add: read_file_def write_file_def nt_close_def vfs_file_from_object_def del: of_nat_Suc)
qed

theorem reopened_file_unusable_witness:
  "\<exists>s1 s2 s3. create_file [SLASH, 0x61] True False True sample_os = Inr (Inr 1, s1) \<and> nt_close 1 s1 = Inr (Success, s2) \<and>
     create_file [SLASH, 0x61] False False False s2 = Inr (Inr 2, s3) \<and>
     read_file 2 0x500000 2 s3 = Inr (Inl InvalidParameter, s3)"
proof -
  let ?obj = "\<lparr>obj_kind = ObjectKind.File, obj_data = 0\<rparr>"
  obtain s1 where s1: "create_file [SLASH, 0x61] True False True sample_os = Inr (Inr 1, s1)" "files s1 = sample_vfs"
      "packed [?obj] (handles s1)" using sample_file_created(1) by blast
  have m: "1 < MAX_HANDLES" "0 < MAX_HANDLES" by (simp_all add: MAX_HANDLES_def)
  have l: "lookup (handles s1) 1 = Some ?obj" using packed_lookup [OF s1(3) m(2)] by simp
  let ?v = "sample_vfs\<lparr>open_files := (open_files sample_vfs)[0 := None]\<rparr>"
  have len: "0 < length (open_files sample_vfs)" using vfs_invD(5) [OF sample_vfs(1)] by (simp add: MAX_OPEN_FILES_def)
  have "vfs_close 0 sample_vfs = Inr (True, ?v)" using sample_vfs(2) len by (simp add: vfs_close_def index_chk_def)
  moreover have "fst (close 1 (handles s1))" using l by (simp add: close_def lookup_def)
  ultimately have s2: "nt_close 1 s1 = Inr (Success, s1\<lparr>files := ?v, handles := snd (close 1 (handles s1))\<rparr>)"
    by (simp add: nt_close_def l s1(2) case_prod_beta)
  have "position (\<lambda>s. s = None) (open_files ?v) = Some 0" by (rule position_SomeI) (use len in simp_all)
  moreover have "1 < length (nodes sample_vfs)" using vfs_invD(2) [OF sample_vfs(1)] by (simp add: MAX_NODES_def)
  ultimately obtain v2 where o: "vfs_open 1 False ?v = Inr (Some 0, v2)"
    using sample_vfs_node by (auto simp: vfs_open_def index_chk_def)
  obtain t where t: "allocate ObjectKind.File 0 (snd (close 1 (handles s1))) = (Some 2, t)"
    using packed_close_allocate [OF s1(3) _ _ prod.collapse [symmetric], of 0 ObjectKind.File 0] m(1) by (simp add: prod_eq_iff)
  have s3: "\<exists>s3. create_file [SLASH, 0x61] False False False (s1\<lparr>files := ?v, handles := snd (close 1 (handles s1))\<rparr>) = Inr (Inr 2, s3)"
    using sample_file_created(2) vfs_lookup_nodes [of ?v sample_vfs "[SLASH, 0x61]"] o t
    by (simp add: create_file_def open_vfs_file_def open_node_def)
  show ?thesis using reopened_file_unusable [OF s1(3), of 0] s1(1) s2 s3 m(1) by fastforce
qed

text \<open>C36: \<open>NtFreeVirtualMemory\<close> frees whatever frame the caller names. For every frame \<open>f\<close> the kernel manages, in use or
  not, the call with base \<open>f\<close> and size 1 succeeds and puts \<open>f\<close> among the free frames; when \<open>f\<close> holds part
  of a file the system is no longer consistent.\<close>

theorem free_any_frame:
  assumes inv: "os_inv s" "nt_initialized s" and tbl: "syscall_table s = handler_table" and f: "f \<in> managed_frames (falloc (mach (kern s)))"
  shows "\<exists>s'. dispatch NtFreeVirtualMemory (f # 1 # rest) c s = Inr (Success, c, s') \<and>
    free_frames (falloc (mach (kern s'))) = insert f (free_frames (falloc (mach (kern s)))) \<and>
    (\<forall>n<MAX_NODES. f \<in> own_frames (file_data (files s') ! n) \<longrightarrow> \<not> os_inv s')"
proof -
  let ?m = "mach (kern s)" let ?m' = "?m\<lparr>falloc := free_frame (falloc ?m) f\<rparr>"
  have fi: "fa_inv (falloc ?m)" using os_invD(2) [OF inv(1)] by (simp add: vfs_inv_def)
  have run: "dispatch NtFreeVirtualMemory (f # 1 # rest) c s = Inr (Success, c, os_mach ?m' s)"
    using inv(2) by (simp add: dispatch_table [OF tbl] call_handler_def Let_def handle_free_virtual_memory_def free_virtual_memory_def add_chk_def free_one_def mul_chk_def)
  have fr: "free_frames (falloc ?m') = insert f (free_frames (falloc ?m))" using fa.release_give [OF fi f] by simp
  have "\<not> os_inv (os_mach ?m' s)" if "n < MAX_NODES" "f \<in> own_frames (file_data (files s) ! n)" for n
  proof
    assume "os_inv (os_mach ?m' s)"
    then have "vfs_inv (files s) ?m'" by (simp add: os_inv_def os_mach_def)
    from vfs_invD(6) [OF this that(1)] have "own_frames (file_data (files s) ! n) \<inter> free_frames (falloc ?m') = {}"
      unfolding file_ok_def by blast
    then show False using that(2) fr by blast
  qed
  then show ?thesis using run fr by (auto simp: os_mach_def)
qed

theorem free_any_frame_witness:
  "\<forall>c. \<exists>s'. dispatch NtFreeVirtualMemory [0x10000, 1, 0, 0] c sample_os = Inr (Success, c, s') \<and>
     bitmap_addr (falloc (mach (kern sample_os))) \<in> free_frames (falloc (mach (kern s')))"
proof
  fix c
  have "frame_addr (falloc sample_machine) 0 \<in> managed_frames (falloc sample_machine)"
    by (simp add: managed_frames_def sample_machine_def)
  then have f: "0x10000 \<in> managed_frames (falloc (mach (kern sample_os)))"
    by (simp add: sample_os_def initial_kernel_def frame_addr_def sample_machine_def)
  show "\<exists>s'. dispatch NtFreeVirtualMemory [0x10000, 1, 0, 0] c sample_os = Inr (Success, c, s') \<and>
     bitmap_addr (falloc (mach (kern sample_os))) \<in> free_frames (falloc (mach (kern s')))"
    using free_any_frame [OF sample_os_inv sample_os_table(2,1) f, of "[0, 0]" c]
    by (auto simp: sample_os_def initial_kernel_def sample_machine_def)
qed

end
