(* ===== verification/X86_Decode.thy ===== *)
theory X86_Decode
  imports Prelude
begin

text \<open>
  The x86 instruction-length decoder (\<^verbatim>\<open>crates/x86-decode/src/lib.rs\<close>): the decoder as it is
  written, with every index into the code checked, and a reference grammar of the supported
  encodings that the decoder is shown to recognise exactly.
\<close>

record DecodedInsn =
  insn_len :: nat
  is_ret :: bool
  is_jmp :: bool
  is_nop :: bool
  is_syscall :: bool
  jmp_offset :: "i64 option"

definition invalid_insn :: DecodedInsn where
  "invalid_insn = \<lparr>insn_len = 0, is_ret = False, is_jmp = False, is_nop = False, is_syscall = False, jmp_offset = None\<rparr>"

definition legacy_prefix :: "u8 \<Rightarrow> bool" where
  "legacy_prefix b \<longleftrightarrow> b \<in> {0x66, 0x67, 0x2E, 0x3E, 0x26, 0x64, 0x65, 0x36, 0xF0, 0xF2, 0xF3}"

text \<open>The prefix loop: the position of the first byte that is not a prefix.\<close>

function skip_prefixes :: "bytes \<Rightarrow> nat \<Rightarrow> nat" where
  "skip_prefixes code pos =
     (if pos < length code \<and> legacy_prefix (code ! pos) then skip_prefixes code (pos + 1) else pos)"
  by pat_completeness auto
termination
  by (relation "measure (\<lambda>(code, pos). length code - pos)") auto

declare skip_prefixes.simps [simp del]

definition x86_decode :: "bytes \<Rightarrow> DecodedInsn res" where
  "x86_decode code =
     (if code = [] then Inr invalid_insn
      else let pos = skip_prefixes code 0 in
        if pos \<ge> length code then Inr invalid_insn
        else bind_res (index_chk code pos) (\<lambda>opcode.
          let pos = pos + 1 in
          if opcode = 0x90 then Inr (invalid_insn\<lparr>insn_len := pos, is_nop := True\<rparr>)
          else if opcode = 0xC3 then Inr (invalid_insn\<lparr>insn_len := pos, is_ret := True\<rparr>)
          else if opcode = 0xEB then
            if pos \<ge> length code then Inr invalid_insn
            else bind_res (index_chk code pos) (\<lambda>b.
              Inr (invalid_insn\<lparr>insn_len := pos + 1, is_jmp := True, jmp_offset := Some (sint b)\<rparr>))
          else if opcode = 0xE9 then
            if pos + 4 > length code then Inr invalid_insn
            else bind_res (index_chk code pos) (\<lambda>b0. bind_res (index_chk code (pos + 1)) (\<lambda>b1.
                 bind_res (index_chk code (pos + 2)) (\<lambda>b2. bind_res (index_chk code (pos + 3)) (\<lambda>b3.
              Inr (invalid_insn\<lparr>insn_len := pos + 4, is_jmp := True,
                     jmp_offset := Some (sint (from_le [b0, b1, b2, b3] :: u32))\<rparr>)))))
          else if opcode = 0x0F then
            if pos \<ge> length code then Inr invalid_insn
            else bind_res (index_chk code pos) (\<lambda>sub.
              let pos = pos + 1 in
              if sub = 0x05 then Inr (invalid_insn\<lparr>insn_len := pos, is_syscall := True\<rparr>)
              else Inr invalid_insn)
          else Inr invalid_insn))"

definition x86_step :: "u64 \<Rightarrow> bytes \<Rightarrow> u64 option res" where
  "x86_step pc code =
     bind_res (x86_decode code) (\<lambda>insn.
       Inr (if insn_len insn = 0 then None else Some (pc + of_nat (insn_len insn))))"

section \<open>Reference grammar\<close>

text \<open>The instructions the decoder knows, their encodings, and what the decoder should report for
  an instruction behind \<open>n\<close> prefix bytes.\<close>

datatype x86_insn = X_Nop | X_Ret | X_Jmp8 u8 | X_Jmp32 u32 | X_Syscall

fun x86_encode :: "x86_insn \<Rightarrow> bytes" where
  "x86_encode X_Nop = [0x90]"
| "x86_encode X_Ret = [0xC3]"
| "x86_encode (X_Jmp8 d) = [0xEB, d]"
| "x86_encode (X_Jmp32 d) = 0xE9 # to_le 4 d"
| "x86_encode X_Syscall = [0x0F, 0x05]"

fun x86_report :: "nat \<Rightarrow> x86_insn \<Rightarrow> DecodedInsn" where
  "x86_report n X_Nop = invalid_insn\<lparr>insn_len := n + 1, is_nop := True\<rparr>"
| "x86_report n X_Ret = invalid_insn\<lparr>insn_len := n + 1, is_ret := True\<rparr>"
| "x86_report n (X_Jmp8 d) = invalid_insn\<lparr>insn_len := n + 2, is_jmp := True, jmp_offset := Some (sint d)\<rparr>"
| "x86_report n (X_Jmp32 d) = invalid_insn\<lparr>insn_len := n + 5, is_jmp := True, jmp_offset := Some (sint d)\<rparr>"
| "x86_report n X_Syscall = invalid_insn\<lparr>insn_len := n + 2, is_syscall := True\<rparr>"

section \<open>Lemmas\<close>

lemma skip_prefixes_spec:
  "skip_prefixes code pos = (if pos < length code then pos + length (takeWhile legacy_prefix (drop pos code)) else pos)"
proof (induction code pos rule: skip_prefixes.induct)
  case (1 code pos)
  show ?case
  proof (cases "pos < length code \<and> legacy_prefix (code ! pos)")
    case True
    then have d: "drop pos code = code ! pos # drop (Suc pos) code" by (simp add: Cons_nth_drop_Suc)
    have "skip_prefixes code pos = skip_prefixes code (pos + 1)" using True by (simp add: skip_prefixes.simps [of code pos])
    with True d "1.IH" show ?thesis by (auto simp: not_less)
  next
    case False
    then show ?thesis by (subst skip_prefixes.simps) (auto simp: Cons_nth_drop_Suc [symmetric])
  qed
qed

lemma skip_prefixes_0: "skip_prefixes code 0 = length (takeWhile legacy_prefix code)"
  by (cases code) (auto simp: skip_prefixes_spec)

lemma invalid_insn_len [simp]: "insn_len invalid_insn = 0"
  by (simp add: invalid_insn_def)

lemma index_chk_append: "index_chk (ps @ xs) (length ps + k) = index_chk xs k"
  by (simp add: index_chk_def nth_append)

lemma takeWhile_prefixes:
  "\<forall>p\<in>set ps. legacy_prefix p \<Longrightarrow> takeWhile legacy_prefix (ps @ xs) = ps @ takeWhile legacy_prefix xs"
  by (simp add: takeWhile_append)

lemma x86_decode_body:
  assumes "\<forall>p\<in>set ps. legacy_prefix p" "\<not> legacy_prefix op"
  shows "x86_decode (ps @ op # xs) =
     (if op = 0x90 then Inr (x86_report (length ps) X_Nop)
      else if op = 0xC3 then Inr (x86_report (length ps) X_Ret)
      else if op = 0xEB then (case xs of d # _ \<Rightarrow> Inr (x86_report (length ps) (X_Jmp8 d)) | _ \<Rightarrow> Inr invalid_insn)
      else if op = 0xE9 then
        (case xs of b0 # b1 # b2 # b3 # _ \<Rightarrow> Inr (x86_report (length ps) (X_Jmp32 (from_le [b0, b1, b2, b3]))) | _ \<Rightarrow> Inr invalid_insn)
      else if op = 0x0F then
        (case xs of b # _ \<Rightarrow> Inr (if b = 0x05 then x86_report (length ps) X_Syscall else invalid_insn) | _ \<Rightarrow> Inr invalid_insn)
      else Inr invalid_insn)"
proof -
  have s: "skip_prefixes (ps @ op # xs) 0 = length ps"
    unfolding skip_prefixes_0 takeWhile_prefixes [OF assms(1)] using assms(2) by simp
  note ix = index_chk_append [of ps "op # xs" 0, simplified] index_chk_append [of ps "op # xs" 1, simplified]
    index_chk_append [of ps "op # xs" 2, simplified] index_chk_append [of ps "op # xs" 3, simplified]
    index_chk_append [of ps "op # xs" 4, simplified]
  show ?thesis
    by (auto simp: x86_decode_def s Let_def ix index_chk_def nth_append add.commute split: list.splits)
qed

lemma decompose_prefixes:
  obtains ps op xs where "code = ps @ op # xs" "\<forall>p\<in>set ps. legacy_prefix p" "\<not> legacy_prefix op"
  | "\<forall>p\<in>set code. legacy_prefix p"
proof (cases "dropWhile legacy_prefix code")
  case Nil
  then show thesis using that(2) by (simp add: dropWhile_eq_Nil_conv)
next
  case (Cons op xs)
  then have "code = takeWhile legacy_prefix code @ op # xs" "\<not> legacy_prefix op"
    by (metis takeWhile_dropWhile_id) (metis Cons hd_dropWhile list.discI list.sel(1))
  then show thesis using that(1) set_takeWhileD by metis
qed

lemma x86_decode_only_prefixes: "\<forall>p\<in>set code. legacy_prefix p \<Longrightarrow> x86_decode code = Inr invalid_insn"
  by (simp add: x86_decode_def skip_prefixes_0 takeWhile_eq_all_conv [THEN iffD2] Let_def)

lemma opcodes_not_prefixes [simp]:
  "\<not> legacy_prefix 0x90" "\<not> legacy_prefix 0xC3" "\<not> legacy_prefix 0xEB" "\<not> legacy_prefix 0xE9" "\<not> legacy_prefix 0x0F"
  by (simp_all add: legacy_prefix_def)

lemma to_le_4: "\<exists>b0 b1 b2 b3. to_le 4 (d :: u32) = [b0, b1, b2, b3] \<and> from_le [b0, b1, b2, b3] = d"
proof -
  have n: "4 = Suc (Suc (Suc (Suc 0)))" by simp
  obtain b0 b1 b2 b3 where "to_le 4 d = [b0, b1, b2, b3]"
    unfolding to_le_def n le_bytes.simps by blast
  then show ?thesis using from_le_to_le_sizes(2) [of d] by auto
qed

lemma x86_decode_encode:
  assumes "\<forall>p\<in>set ps. legacy_prefix p"
  shows "x86_decode (ps @ x86_encode insn @ rest) = Inr (x86_report (length ps) insn)"
proof (cases insn)
  case (X_Jmp32 d)
  obtain b0 b1 b2 b3 where "to_le 4 d = [b0, b1, b2, b3]" "from_le [b0, b1, b2, b3] = d"
    using to_le_4 [of d] by blast
  then show ?thesis using X_Jmp32 x86_decode_body [OF assms, of "0xE9" "b0 # b1 # b2 # b3 # rest"] by simp
qed (use x86_decode_body [OF assms] in \<open>simp_all\<close>)

lemma x86_decode_valid:
  "x86_decode code = Inr invalid_insn \<or> (\<exists>ps insn rest. (\<forall>p\<in>set ps. legacy_prefix p) \<and> code = ps @ x86_encode insn @ rest)"
proof (cases code rule: decompose_prefixes)
  case (1 ps op xs)
  consider "op = 0x90" | "op = 0xC3" | d ys where "op = 0xEB" "xs = d # ys"
    | b0 b1 b2 b3 ys where "op = 0xE9" "xs = b0 # b1 # b2 # b3 # ys" | ys where "op = 0x0F" "xs = 0x05 # ys"
    | "x86_decode code = Inr invalid_insn"
    using x86_decode_body [OF 1(2,3), of xs, folded 1(1)] by (fastforce split: list.splits if_splits)
  then show ?thesis
  proof cases
    case 4
    have "to_le 4 (from_le [b0, b1, b2, b3] :: u32) = [b0, b1, b2, b3]"
      using to_le_from_le [of "[b0, b1, b2, b3]", where 'a = 32] by (simp add: numeral_eq_Suc)
    then have "code = ps @ x86_encode (X_Jmp32 (from_le [b0, b1, b2, b3])) @ ys" using 1(1) 4 by simp
    then show ?thesis using 1(2) by blast
  qed (use 1(1,2) x86_encode.simps in \<open>metis append_Cons append_Nil\<close>)+
qed (use x86_decode_only_prefixes in blast)

text \<open>C28: the decoder recognises exactly its grammar and never panics. Behind any legacy prefixes each supported
  instruction is decoded whatever bytes follow it, with its kind, its length and its sign-extended
  displacement; any other input, truncated ones included, gives the invalid result of length 0. So a decoded
  length is at least 1 and at most the length of the input.\<close>

theorem x86_decode_grammar:
  "(\<forall>ps insn rest. (\<forall>p\<in>set ps. legacy_prefix p) \<longrightarrow>
      x86_decode (ps @ x86_encode insn @ rest) = Inr (x86_report (length ps) insn)) \<and>
   ((\<nexists>ps insn rest. (\<forall>p\<in>set ps. legacy_prefix p) \<and> code = ps @ x86_encode insn @ rest) \<longrightarrow>
      x86_decode code = Inr invalid_insn) \<and>
   (\<exists>i. x86_decode code = Inr i \<and> insn_len i \<le> length code \<and> (insn_len i = 0 \<longrightarrow> i = invalid_insn))"
proof -
  have rep: "insn_len (x86_report n i) = n + length (x86_encode i)" "0 < insn_len (x86_report n i)" for n i
    by (cases i; simp)+
  have "\<exists>i. x86_decode code = Inr i \<and> insn_len i \<le> length code \<and> (insn_len i = 0 \<longrightarrow> i = invalid_insn)"
    using x86_decode_valid [of code]
  proof
    assume "\<exists>ps insn rest. (\<forall>p\<in>set ps. legacy_prefix p) \<and> code = ps @ x86_encode insn @ rest"
    then obtain ps insn rest where c: "\<forall>p\<in>set ps. legacy_prefix p" "code = ps @ x86_encode insn @ rest" by blast
    have "x86_decode code = Inr (x86_report (length ps) insn)" using x86_decode_encode [OF c(1)] c(2) by simp
    then show ?thesis using rep [of "length ps" insn] c(2) by (intro exI conjI) auto
  qed simp
  then show ?thesis using x86_decode_encode x86_decode_valid by blast
qed

theorem x86_decode_grammar_witness:
  "x86_decode ([0x66, 0xF3] @ x86_encode (X_Jmp8 0xFE) @ [0x90]) =
     Inr \<lparr>insn_len = 4, is_ret = False, is_jmp = True, is_nop = False, is_syscall = False, jmp_offset = Some (- 2)\<rparr>"
proof -
  have "\<forall>p\<in>set [0x66, 0xF3]. legacy_prefix p" by (simp add: legacy_prefix_def)
  then have "x86_decode ([0x66, 0xF3] @ x86_encode (X_Jmp8 0xFE) @ [0x90]) = Inr (x86_report (length [0x66 :: u8, 0xF3]) (X_Jmp8 0xFE))"
    using x86_decode_grammar by blast
  then show ?thesis by (simp add: invalid_insn_def)
qed

end
