(* ===== verification/Aarch64_Decode.thy ===== *)
theory Aarch64_Decode
  imports Prelude
begin

text \<open>
  The AArch64 instruction decoder (\<^verbatim>\<open>crates/aarch64-decode/src/lib.rs\<close>). Opcodes are 32-bit
  words; the \<^verbatim>\<open>i64\<close> offsets are integers, read from words of the source's width by \<open>sint\<close>. The
  section on encodings gives the architecture's encodings of the supported instructions, which
  the decoder is shown to invert.
\<close>

datatype Instruction =
  Nop
| Ret
| Svc (svc_imm: u16)
| Bl (bl_offset: i64)
| Movz (movz_reg: u8) (movz_imm: u16) (movz_shift: u8)
| Adrp (adrp_reg: u8) (adrp_offset: i64)
| Unsupported

text \<open>\<^verbatim>\<open>(imm26 << 6) >> 6\<close> on \<^verbatim>\<open>i32\<close>, and the 21-bit sign extension on \<^verbatim>\<open>i64\<close>.\<close>

definition sign_extend_26 :: "u32 \<Rightarrow> i64" where
  "sign_extend_26 imm26 = sint (signed_drop_bit 6 (push_bit 6 imm26))"

definition sign_extend_21 :: "u64 \<Rightarrow> i64" where
  "sign_extend_21 imm21 =
     sint (if imm21 AND push_bit 20 1 \<noteq> 0 then imm21 OR NOT (push_bit 21 1 - 1) else imm21)"

definition aarch64_decode :: "u32 \<Rightarrow> Instruction" where
  "aarch64_decode opcode =
     (if opcode = 0xD503201F then Nop
      else if opcode AND 0xFFFFFC00 = 0xD65F0000 then Ret
      else if opcode AND 0xFFE00000 = 0xD4000000 then
        Svc (ucast (drop_bit 5 opcode AND 0xFFFF))
      else if opcode AND 0xFC000000 = 0x94000000 then
        Bl (sign_extend_26 (opcode AND 0x03FFFFFF) * 4)
      else if opcode AND 0x7F800000 = 0x52800000 then
        Movz (ucast (opcode AND 0x1F)) (ucast (drop_bit 5 opcode AND 0xFFFF))
          (ucast (drop_bit 21 opcode AND 0x3) * 16)
      else if opcode AND 0x9F000000 = 0x90000000 then
        Adrp (ucast (opcode AND 0x1F))
          (sign_extend_21 (push_bit 2 (ucast (drop_bit 5 opcode AND 0x7FFFF)) OR ucast (drop_bit 29 opcode AND 0x3)) * 4096)
      else Unsupported)"

definition aarch64_step :: "u64 \<Rightarrow> bytes \<Rightarrow> u64 option res" where
  "aarch64_step pc code =
     bind_res (add_chk pc 4) (\<lambda>e.
       if unat e > length code then Inr None
       else
         bind_res (index_chk code (unat pc)) (\<lambda>b0. bind_res (index_chk code (unat pc + 1)) (\<lambda>b1.
         bind_res (index_chk code (unat pc + 2)) (\<lambda>b2. bind_res (index_chk code (unat pc + 3)) (\<lambda>b3.
         case aarch64_decode (from_le [b0, b1, b2, b3]) of
           Nop \<Rightarrow> Inr (Some (pc + 4))
         | Ret \<Rightarrow> Inr (Some (pc + 4))
         | Bl offset \<Rightarrow> Inr (Some (pc + 4 + of_int offset))
         | Svc imm \<Rightarrow> Inr (Some (pc + 4))
         | Movz reg imm sh \<Rightarrow> Inr (Some (pc + 4))
         | Adrp reg offset \<Rightarrow> Inr (Some (pc + 4))
         | Unsupported \<Rightarrow> Inr None)))))"

section \<open>Encodings\<close>

text \<open>The fields an instruction may have, and its encoding: \<^verbatim>\<open>RET\<close> through the link register x30,
  64-bit \<^verbatim>\<open>MOVZ\<close>, \<^verbatim>\<open>ADRP\<close> with the immediate split into \<^verbatim>\<open>immhi\<close> and \<^verbatim>\<open>immlo\<close>.\<close>

fun encodable :: "Instruction \<Rightarrow> bool" where
  "encodable (Bl offset) = (4 dvd offset \<and> - (2 ^ 27) \<le> offset \<and> offset < 2 ^ 27)"
| "encodable (Movz reg imm sh) = (reg < 32 \<and> sh \<in> {0, 16, 32, 48})"
| "encodable (Adrp reg offset) = (reg < 32 \<and> 4096 dvd offset \<and> - (2 ^ 32) \<le> offset \<and> offset < 2 ^ 32)"
| "encodable Unsupported = False"
| "encodable _ = True"

fun aarch64_encode :: "Instruction \<Rightarrow> u32" where
  "aarch64_encode Nop = 0xD503201F"
| "aarch64_encode Ret = 0xD65F03C0"
| "aarch64_encode (Svc imm) = 0xD4000001 OR push_bit 5 (ucast imm)"
| "aarch64_encode (Bl offset) = 0x94000000 OR take_bit 26 (of_int (offset div 4))"
| "aarch64_encode (Movz reg imm sh) =
     0xD2800000 OR push_bit 21 (ucast (drop_bit 4 sh)) OR push_bit 5 (ucast imm) OR ucast reg"
| "aarch64_encode (Adrp reg offset) =
     0x90000000 OR push_bit 29 (take_bit 2 (of_int (offset div 4096))) OR
     push_bit 5 (take_bit 19 (of_int (drop_bit 2 (offset div 4096)))) OR ucast reg"
| "aarch64_encode Unsupported = 0"

section \<open>Words by their bits\<close>

lemma all_less_32: "(\<forall>n<32::nat. P n) = ((\<forall>n<16. P n) \<and> P 16 \<and> P 17 \<and> P 18 \<and> P 19 \<and> P 20 \<and> P 21 \<and> P 22 \<and> P 23 \<and>
    P 24 \<and> P 25 \<and> P 26 \<and> P 27 \<and> P 28 \<and> P 29 \<and> P 30 \<and> P 31)"
  and all_less_16: "(\<forall>n<16::nat. P n) = ((\<forall>n<8. P n) \<and> P 8 \<and> P 9 \<and> P 10 \<and> P 11 \<and> P 12 \<and> P 13 \<and> P 14 \<and> P 15)"
  and all_less_8: "(\<forall>n<8::nat. P n) = (P 0 \<and> P 1 \<and> P 2 \<and> P 3 \<and> P 4 \<and> P 5 \<and> P 6 \<and> P 7)"
  by (simp_all add: numeral_eq_Suc All_less_Suc conj_ac)

lemma u32_eq_bits: "(a :: u32) = b \<longleftrightarrow> (\<forall>n<32. bit a n = bit b n)"
  and u16_eq_bits: "(x :: u16) = y \<longleftrightarrow> (\<forall>n<16. bit x n = bit y n)"
  and u8_eq_bits: "(v :: u8) = w \<longleftrightarrow> (\<forall>n<8. bit v n = bit w n)"
  by (auto intro: bit_word_eqI)

lemma high_bits [simp]:
  "16 \<le> n \<Longrightarrow> \<not> bit (x :: u16) n"
  "8 \<le> n \<Longrightarrow> \<not> bit (v :: u8) n"
  by (auto dest: bit_imp_le_length)

lemmas bitwise = u32_eq_bits u16_eq_bits u8_eq_bits all_less_32 all_less_16 all_less_8 bit_simps

lemma decode_svc: "aarch64_decode (aarch64_encode (Svc imm)) = Svc imm"
  by (simp add: aarch64_decode_def bitwise)

lemma bit_neqI: "bit a n \<noteq> bit b n \<Longrightarrow> a \<noteq> b"
  by auto

lemma small_bits:
  assumes "unat (reg :: u8) < 2 ^ k" "k \<le> n"
  shows "\<not> bit reg n"
proof -
  have "(2 :: nat) ^ k \<le> 2 ^ n" using assms(2) by (rule power_increasing) simp
  then have "unat reg div 2 ^ n = 0" using assms(1) by (intro div_less) linarith
  then have "drop_bit n (unat reg) = 0" by (simp only: drop_bit_eq_div)
  then have "drop_bit n reg = 0" by (simp add: word_unat_eq_iff unat_drop_bit_eq)
  then show ?thesis by (simp add: bit_iff_odd_drop_bit)
qed

lemma decode_movz:
  assumes "encodable (Movz reg imm sh)"
  shows "aarch64_decode (aarch64_encode (Movz reg imm sh)) = Movz reg imm sh"
proof -
  have r: "\<not> bit reg n" if "5 \<le> n" for n using small_bits [of reg 5 n] that assms by (simp add: word_less_nat_alt)
  let ?op = "0xD2800000 OR push_bit 21 (ucast (drop_bit 4 sh)) OR push_bit 5 (ucast imm) OR ucast reg :: u32"
  have sh: "\<not> bit sh n" if "6 \<le> n" for n
    using small_bits [of sh 6 n] that assms by auto
  have ne: "?op \<noteq> 0xD503201F" "?op AND 0xFFFFFC00 \<noteq> 0xD65F0000" "?op AND 0xFFE00000 \<noteq> 0xD4000000" "?op AND 0xFC000000 \<noteq> 0x94000000"
    by (rule bit_neqI [of _ 26], simp add: bit_simps r)+
  have eq: "?op AND 0x7F800000 = 0x52800000" by (simp add: bitwise r sh)
  have "ucast (drop_bit 21 ?op AND 0x3) = drop_bit 4 sh" by (simp add: bitwise r sh)
  moreover have "drop_bit 4 sh * 16 = sh" using assms by auto
  moreover have "ucast (?op AND 0x1F) = reg" "ucast (drop_bit 5 ?op AND 0xFFFF) = imm" by (simp_all add: bitwise r sh)
  ultimately show ?thesis unfolding aarch64_encode.simps aarch64_decode_def using ne eq by simp
qed

lemma sign_extend_26_take_bit:
  assumes "- (2 ^ 25) \<le> k" "k < 2 ^ 25"
  shows "sign_extend_26 (take_bit 26 (of_int k)) = k"
proof -
  have "signed_take_bit 25 k = k" using assms by (simp add: signed_take_bit_int_eq_self)
  then have hi: "bit k n = bit k 25" if "25 \<le> n" for n
    using that by (metis bit_signed_take_bit_iff min.absorb1 possible_bit_int)
  have "signed_drop_bit 6 (push_bit 6 (take_bit 26 (of_int k :: u32))) = of_int k"
  proof (rule bit_word_eqI)
    fix n assume "n < LENGTH(32)"
    then show "bit (signed_drop_bit 6 (push_bit 6 (take_bit 26 (of_int k :: u32)))) n = bit (of_int k :: u32) n"
      using hi [of n] by (cases "n < 21") (auto simp: bit_simps)
  qed
  moreover have "sint (of_int k :: u32) = k" using assms by (simp add: signed_of_int signed_take_bit_int_eq_self)
  ultimately show ?thesis by (simp add: sign_extend_26_def)
qed

lemma decode_bl:
  assumes "encodable (Bl offset)"
  shows "aarch64_decode (aarch64_encode (Bl offset)) = Bl offset"
proof -
  define k where "k = offset div 4"
  have k: "offset = k * 4" "- (2 ^ 25) \<le> k" "k < 2 ^ 25" using assms by (auto simp: k_def)
  let ?op = "0x94000000 OR take_bit 26 (of_int k :: u32)"
  have ne: "?op \<noteq> 0xD503201F" "?op AND 0xFFFFFC00 \<noteq> 0xD65F0000" "?op AND 0xFFE00000 \<noteq> 0xD4000000"
    by (rule bit_neqI [of _ 30], simp add: bit_simps)+
  have eq: "?op AND 0xFC000000 = 0x94000000" by (simp add: bitwise)
  have "(0x94000000 OR take_bit 26 (of_int k :: u32)) AND 0x03FFFFFF = take_bit 26 (of_int k)"
    by (simp add: bitwise)
  moreover have "aarch64_decode ?op = Bl (sign_extend_26 (?op AND 0x03FFFFFF) * 4)"
    unfolding aarch64_decode_def by (simp only: ne eq simp_thms if_False if_True)
  ultimately have "aarch64_decode ?op = Bl (k * 4)" using sign_extend_26_take_bit [OF k(2,3)] by simp
  then show ?thesis unfolding aarch64_encode.simps k_def [symmetric] k(1) [symmetric] .
qed

lemma sign_extend_21_take_bit:
  assumes "- (2 ^ 20) \<le> k" "k < 2 ^ 20"
  shows "sign_extend_21 (take_bit 21 (of_int k)) = k"
proof -
  have "signed_take_bit 20 k = k" using assms by (simp add: signed_take_bit_int_eq_self)
  then have hi: "bit k n = bit k 20" if "20 \<le> n" for n
    using that by (metis bit_signed_take_bit_iff min.absorb1 possible_bit_int)
  have m: "push_bit 21 1 - 1 = (mask 21 :: u64)" by (simp add: mask_eq_exp_minus_1)
  have a: "(w AND push_bit 20 1 \<noteq> 0) = bit w 20" for w :: u64
    by (metis bit_iff_and_push_bit_not_eq_0)
  have "(if bit (take_bit 21 (of_int k :: u64)) 20 then take_bit 21 (of_int k) OR NOT (mask 21) else take_bit 21 (of_int k)) = (of_int k :: u64)"
  proof (rule bit_word_eqI)
    fix n assume "n < LENGTH(64)"
    then show "bit (if bit (take_bit 21 (of_int k :: u64)) 20 then take_bit 21 (of_int k :: u64) OR NOT (mask 21) else take_bit 21 (of_int k)) n = bit (of_int k :: u64) n"
      using hi [of n] by (cases "n < 21") (auto simp: bit_simps)
  qed
  moreover have "sint (of_int k :: u64) = k" using assms by (simp add: signed_of_int signed_take_bit_int_eq_self)
  ultimately show ?thesis unfolding sign_extend_21_def m a by simp
qed

lemma decode_adrp:
  assumes "encodable (Adrp reg offset)"
  shows "aarch64_decode (aarch64_encode (Adrp reg offset)) = Adrp reg offset"
proof -
  define k where "k = offset div 4096"
  have k: "offset = k * 4096" "- (2 ^ 20) \<le> k" "k < 2 ^ 20" using assms by (auto simp: k_def)
  have r: "\<not> bit reg n" if "5 \<le> n" for n using small_bits [of reg 5 n] that assms by (simp add: word_less_nat_alt)
  let ?op = "0x90000000 OR push_bit 29 (take_bit 2 (of_int k :: u32)) OR push_bit 5 (take_bit 19 (of_int (drop_bit 2 k))) OR ucast reg"
  have ne: "?op \<noteq> 0xD503201F" "?op AND 0xFFFFFC00 \<noteq> 0xD65F0000" "?op AND 0xFFE00000 \<noteq> 0xD4000000"
      "?op AND 0xFC000000 \<noteq> 0x94000000" "?op AND 0x7F800000 \<noteq> 0x52800000"
    by (rule bit_neqI [of _ 24], simp add: bit_simps r)
      (rule bit_neqI [of _ 26], simp add: bit_simps r, rule bit_neqI [of _ 26], simp add: bit_simps r,
       rule bit_neqI [of _ 26], simp add: bit_simps r, rule bit_neqI [of _ 25], simp add: bit_simps r)
  have eq: "?op AND 0x9F000000 = 0x90000000" by (simp add: bitwise r)
  have d: "aarch64_decode ?op = Adrp (ucast (?op AND 0x1F))
      (sign_extend_21 (push_bit 2 (ucast (drop_bit 5 ?op AND 0x7FFFF)) OR ucast (drop_bit 29 ?op AND 0x3)) * 4096)"
    using ne eq unfolding aarch64_decode_def by simp
  have reg: "ucast (?op AND 0x1F) = reg" by (simp add: bitwise r)
  have hi: "drop_bit 5 ?op AND 0x7FFFF = take_bit 19 (of_int (drop_bit 2 k))" by (simp add: bitwise r)
  have lo: "drop_bit 29 ?op AND 0x3 = take_bit 2 (of_int k)" by (simp add: bitwise r)
  have "push_bit 2 (ucast (take_bit 19 (of_int (drop_bit 2 k) :: u32))) OR ucast (take_bit 2 (of_int k :: u32)) = (take_bit 21 (of_int k) :: u64)"
  proof (rule bit_word_eqI)
    fix n assume "n < LENGTH(64)"
    then show "bit (push_bit 2 (ucast (take_bit 19 (of_int (drop_bit 2 k) :: u32))) OR ucast (take_bit 2 (of_int k :: u32)) :: u64) n =
        bit (take_bit 21 (of_int k) :: u64) n"
      by (cases "n < 2") (auto simp: bit_simps le_add_diff_inverse simp del: add_2_eq_Suc add_2_eq_Suc')
  qed
  then have "aarch64_decode ?op = Adrp reg (k * 4096)"
    unfolding d reg hi lo using sign_extend_21_take_bit [OF k(2,3)] by simp
  then show ?thesis unfolding aarch64_encode.simps k_def [symmetric] k(1) [symmetric] .
qed

section \<open>Results\<close>

lemma sign_extend_26_bounds: "- (2 ^ 25) \<le> sign_extend_26 w \<and> sign_extend_26 w < 2 ^ 25"
proof -
  define x where "x = sint (push_bit 6 w)"
  have "- 2147483648 \<le> x" "x < 2147483648"
    unfolding x_def using sint_ge [of "push_bit 6 w"] sint_lt [of "push_bit 6 w"] by simp_all
  then have "- 33554432 \<le> x div 64" "x div 64 < 33554432" by simp_all
  then show ?thesis by (simp add: sign_extend_26_def sint_signed_drop_bit_eq drop_bit_eq_div x_def)
qed

lemma sign_extend_21_bounds:
  assumes "take_bit 21 w = w"
  shows "- (2 ^ 20) \<le> sign_extend_21 w \<and> sign_extend_21 w < 2 ^ 20"
proof -
  define k where "k = signed_take_bit 20 (uint w)"
  have k: "- (2 ^ 20) \<le> k" "k < 2 ^ 20"
    unfolding k_def by (rule signed_take_bit_int_greater_eq_minus_exp signed_take_bit_int_less_exp)+
  have "take_bit 21 (of_int k) = w"
  proof (rule bit_word_eqI)
    fix n assume "n < LENGTH(64)"
    moreover have "bit w n = bit (take_bit 21 w) n" using assms by simp
    ultimately show "bit (take_bit 21 (of_int k) :: u64) n = bit w n"
      by (cases "n = 20") (auto simp: k_def bit_simps min_def)
  qed
  then show ?thesis using sign_extend_21_take_bit [OF k] k by simp
qed

lemma imm21_small:
  "take_bit 21 (push_bit 2 (ucast (x AND 0x7FFFF)) OR ucast (y AND 0x3)) = (push_bit 2 (ucast (x AND 0x7FFFF)) OR ucast (y AND 0x3) :: u64)"
  for x y :: u32
proof -
  have m: "(0x7FFFF :: u32) = mask 19" "(0x3 :: u32) = mask 2" by (simp_all add: mask_eq_exp_minus_1)
  show ?thesis unfolding m by (rule bit_word_eqI) (auto simp: bit_simps)
qed

lemma field_bounds:
  "ucast (op AND 0x1F :: u32) < (32 :: u8)"
  "ucast (op AND 0x3 :: u32) * 16 \<in> {0, 16, 32, 48 :: u8}"
proof -
  have m: "op AND 0x1F = take_bit 5 op" "op AND 0x3 = take_bit 2 op"
    by (simp_all add: take_bit_eq_mask mask_eq_exp_minus_1)
  have "unat (take_bit 5 op) < 2 ^ 5" "unat (take_bit 2 op) < 2 ^ 2"
    unfolding unsigned_take_bit_eq by (rule take_bit_nat_less_exp)+
  then have u: "unat (ucast (take_bit 5 op) :: u8) < 32" "unat (ucast (take_bit 2 op) :: u8) < 4"
    by (simp_all add: unsigned_ucast_eq take_bit_nat_eq_self)
  then show "ucast (op AND 0x1F :: u32) < (32 :: u8)" by (simp add: m word_less_nat_alt)
  define v where "v = (ucast (take_bit 2 op) :: u8)"
  have "unat v = 0 \<or> unat v = 1 \<or> unat v = 2 \<or> unat v = 3" using u(2) unfolding v_def by linarith
  then have "v \<in> {0, 1, 2, 3}" by (auto simp: word_unat_eq_iff)
  then show "ucast (op AND 0x3 :: u32) * 16 \<in> {0, 16, 32, 48 :: u8}" by (auto simp: m v_def)
qed

lemma decode_encodable: "aarch64_decode op = Unsupported \<or> encodable (aarch64_decode op)"
  using sign_extend_26_bounds [of "op AND 0x03FFFFFF"] field_bounds(1) [of op] field_bounds(2) [of "drop_bit 21 op"]
    sign_extend_21_bounds [OF imm21_small, of "drop_bit 5 op" "drop_bit 29 op"]
  by (simp add: aarch64_decode_def)

text \<open>C27: the decoder inverts the architecture's encodings: every supported instruction with fields in range
  is decoded from its encoding to itself, negative offsets included. Conversely whatever is decoded from any
  opcode is unsupported or has its fields in range: registers below 32, shifts 0 to 48, branch offsets multiples
  of 4 within 128 MiB, page offsets multiples of 4096 within 4 GiB.\<close>

theorem aarch64_decode_encode:
  "(encodable i \<longrightarrow> aarch64_decode (aarch64_encode i) = i) \<and>
   (aarch64_decode op = Unsupported \<or> encodable (aarch64_decode op))"
proof -
  have "aarch64_decode (aarch64_encode Nop) = Nop" "aarch64_decode (aarch64_encode Ret) = Ret"
    by (simp_all add: aarch64_decode_def)
  then show ?thesis
    using decode_svc decode_bl decode_movz decode_adrp decode_encodable by (cases i) auto
qed

theorem aarch64_decode_encode_witness: "aarch64_decode (aarch64_encode (Bl (- 8))) = Bl (- 8) \<and> aarch64_encode (Bl (- 8)) = 0x97FFFFFE"
  using aarch64_decode_encode [of "Bl (- 8)"] by simp

end
