(* ===== verification/Interpreter.thy ===== *)
theory Interpreter
  imports Nt_Properties X86_Decode Aarch64_Decode
begin

text \<open>
  The instruction interpreters (\<^verbatim>\<open>kernel/src/win32/abi/interpreter.rs\<close> and \<^verbatim>\<open>aarch64_interpreter.rs\<close>).
  \<open>execute_instruction\<close> works on the registers of a thread and on memory; a SYSCALL ends in the call of
  \<open>dispatch_syscall\<close>, which is returned as \<open>Trap\<close> and made by the loop, where the whole state is at hand.
  One round of the loop is \<open>interp_step\<close>; \<open>Stopped\<close> and \<open>No_Thread\<close> are the two halts, and \<open>Switched\<close> is
  the state of another thread after a call that yielded the processor. Guest memory is accessed through
  \<^verbatim>\<open>from_raw_parts\<close>, \<^verbatim>\<open>read_volatile\<close> and \<^verbatim>\<open>write_volatile\<close>, whose checks of the address are part of the model.
\<close>

text \<open>The accesses to guest memory.\<close>

definition read_guest_bytes :: "mem \<Rightarrow> u64 \<Rightarrow> nat \<Rightarrow> bytes res" where
  "read_guest_bytes m addr len = map_res (\<lambda>_. read_bytes m addr len) (raw_slice_chk addr len)"

definition guest_read_u64 :: "mem \<Rightarrow> u64 \<Rightarrow> u64 res" where
  "guest_read_u64 m addr = map_res (\<lambda>_. read_u64 m addr) (ptr_chk 8 addr)"

definition guest_write_u64 :: "mem \<Rightarrow> u64 \<Rightarrow> u64 \<Rightarrow> mem res" where
  "guest_write_u64 m addr value = map_res (\<lambda>_. write_u64 m addr value) (ptr_chk 8 addr)"

datatype Operand = Reg Register | Addr u64

definition registers :: "Register list" where
  "registers = [Rax, Rcx, Rdx, Rbx, Rsp, Rbp, Rsi, Rdi, R8, R9, R10, R11, R12, R13, R14, R15]"

definition gpr :: "u8 \<Rightarrow> bool \<Rightarrow> Register" where
  "gpr b rex_ext = (let idx = unat (b AND 0x07) in registers ! (if rex_ext then idx + 8 else idx))"

definition decode_modrm :: "u8 \<Rightarrow> u8 \<times> u8 \<times> u8" where
  "decode_modrm byte = (drop_bit 6 byte, drop_bit 3 byte AND 0x07, byte AND 0x07)"

text \<open>\<^verbatim>\<open>from_le_bytes([code[pos], ...])\<close>: every index is checked.\<close>

fun index_all :: "bytes \<Rightarrow> nat list \<Rightarrow> bytes res" where
  "index_all code [] = Inr []"
| "index_all code (i # is) = bind_res (index_chk code i) (\<lambda>b. map_res (Cons b) (index_all code is))"

definition code_le :: "bytes \<Rightarrow> nat \<Rightarrow> nat \<Rightarrow> 'a::len word res" where
  "code_le code pos n = map_res from_le (index_all code [pos..<pos + n])"

definition decode_modrm_operand :: "thread \<Rightarrow> u64 \<Rightarrow> nat \<Rightarrow> bytes \<Rightarrow> u8 \<Rightarrow> u8 \<Rightarrow> bool \<Rightarrow> (nat \<times> Operand) option res" where
  "decode_modrm_operand t pc pos code mod_bits rm rex_b =
     (if mod_bits = 3 then Inr (Some (pos, Reg (gpr rm rex_b)))
      else if mod_bits = 0 then
        if rm = 5 then
          if pos + 4 > length code then Inr None
          else map_res (\<lambda>disp :: u32. Some (pos + 4, Addr (pc + of_nat (pos + 4) + scast disp))) (code_le code pos 4)
        else if rm = 4 then Inr None
        else Inr (Some (pos, Addr (read_reg t (gpr rm rex_b))))
      else Inr None)"

section \<open>One instruction\<close>

datatype control = Next u64 | Stop | Trap u64

type_synonym guest = "thread \<times> mem"

definition exec_ret :: "guest \<Rightarrow> (control \<times> guest) res" where
  "exec_ret g =
     (case g of (t, m) \<Rightarrow>
        map_res (\<lambda>ra.
            let t' = write_reg t Rsp (read_reg t Rsp + 8)
            in (if ra = 0 then Stop else Next ra, t', m))
          (guest_read_u64 m (read_reg t Rsp)))"

definition exec_jmp8 :: "u64 \<Rightarrow> bytes \<Rightarrow> nat \<Rightarrow> guest \<Rightarrow> (control \<times> guest) res" where
  "exec_jmp8 pc code pos g =
     (if pos \<ge> length code then Inr (Stop, g)
      else map_res (\<lambda>b. (Next (pc + of_nat (pos + 1) + scast b), g)) (index_chk code pos))"

definition exec_jmp32 :: "u64 \<Rightarrow> bytes \<Rightarrow> nat \<Rightarrow> guest \<Rightarrow> (control \<times> guest) res" where
  "exec_jmp32 pc code pos g =
     (if pos + 4 > length code then Inr (Stop, g)
      else map_res (\<lambda>offset :: u32. (Next (pc + of_nat (pos + 4) + scast offset), g)) (code_le code pos 4))"

definition exec_call :: "u64 \<Rightarrow> bytes \<Rightarrow> nat \<Rightarrow> guest \<Rightarrow> (control \<times> guest) res" where
  "exec_call pc code pos g =
     (if pos + 4 > length code then Inr (Stop, g)
      else bind_res (code_le code pos 4) (\<lambda>offset :: u32.
          case g of (t, m) \<Rightarrow>
            let return_addr = pc + of_nat (pos + 4); rsp = read_reg t Rsp - 8
            in map_res (\<lambda>m'. (Next (pc + of_nat (pos + 4) + scast offset), write_reg t Rsp rsp, m'))
                 (guest_write_u64 m rsp return_addr)))"

definition exec_mov_imm :: "u8 \<Rightarrow> bool \<Rightarrow> bool \<Rightarrow> u64 \<Rightarrow> bytes \<Rightarrow> nat \<Rightarrow> guest \<Rightarrow> (control \<times> guest) res" where
  "exec_mov_imm opcode rex_w rex_b pc code pos g =
     (case g of (t, m) \<Rightarrow>
        let reg = gpr (opcode AND 0x07) rex_b in
        if rex_w then
          if pos + 8 > length code then Inr (Stop, g)
          else map_res (\<lambda>imm. (Next (pc + of_nat (pos + 8)), write_reg t reg imm, m)) (code_le code pos 8)
        else
          if pos + 4 > length code then Inr (Stop, g)
          else map_res (\<lambda>imm :: u32. (Next (pc + of_nat (pos + 4)), write_reg t reg (ucast imm), m)) (code_le code pos 4))"

text \<open>The length check before the immediate tests the position before the operand.\<close>

definition exec_mov_rm :: "bool \<Rightarrow> u64 \<Rightarrow> bytes \<Rightarrow> nat \<Rightarrow> guest \<Rightarrow> (control \<times> guest) res" where
  "exec_mov_rm rex_b pc code pos g =
     (case g of (t, m) \<Rightarrow>
        if pos \<ge> length code then Inr (Stop, g)
        else bind_res (index_chk code pos) (\<lambda>modrm.
          case decode_modrm modrm of (mod_bits, reg_op, rm) \<Rightarrow>
          let pos = pos + 1 in
          if reg_op \<noteq> 0 then Inr (Stop, g)
          else bind_res (decode_modrm_operand t pc pos code mod_bits rm rex_b) (\<lambda>r.
            case r of
              None \<Rightarrow> Inr (Stop, g)
            | Some (new_pos, dst) \<Rightarrow>
                if pos + 4 > length code then Inr (Stop, g)
                else bind_res (code_le code new_pos 4) (\<lambda>i :: u32.
                  let imm = scast i :: u64; npc = pc + of_nat (new_pos + 4) in
                  case dst of
                    Reg r \<Rightarrow> Inr (Next npc, write_reg t r imm, m)
                  | Addr a \<Rightarrow> map_res (\<lambda>m'. (Next npc, t, m')) (guest_write_u64 m a imm)))))"

definition exec_xor_rm :: "bool \<Rightarrow> bool \<Rightarrow> u64 \<Rightarrow> bytes \<Rightarrow> nat \<Rightarrow> guest \<Rightarrow> (control \<times> guest) res" where
  "exec_xor_rm rex_r rex_b pc code pos g =
     (case g of (t, m) \<Rightarrow>
        if pos \<ge> length code then Inr (Stop, g)
        else bind_res (index_chk code pos) (\<lambda>modrm.
          case decode_modrm modrm of (mod_bits, reg_field, rm) \<Rightarrow>
          let pos = pos + 1; src = gpr reg_field rex_r in
          bind_res (decode_modrm_operand t pc pos code mod_bits rm rex_b) (\<lambda>r.
            case r of
              None \<Rightarrow> Inr (Stop, g)
            | Some (new_pos, dst) \<Rightarrow>
                let npc = pc + of_nat new_pos in
                (case dst of
                   Reg r \<Rightarrow> Inr (Next npc, write_reg t r (read_reg t r XOR read_reg t src), m)
                 | Addr a \<Rightarrow>
                     bind_res (guest_read_u64 m a) (\<lambda>v.
                     map_res (\<lambda>m'. (Next npc, t, m')) (guest_write_u64 m a (v XOR read_reg t src)))))))"

definition exec_xor_reg :: "bool \<Rightarrow> bool \<Rightarrow> u64 \<Rightarrow> bytes \<Rightarrow> nat \<Rightarrow> guest \<Rightarrow> (control \<times> guest) res" where
  "exec_xor_reg rex_r rex_b pc code pos g =
     (case g of (t, m) \<Rightarrow>
        if pos \<ge> length code then Inr (Stop, g)
        else bind_res (index_chk code pos) (\<lambda>modrm.
          case decode_modrm modrm of (mod_bits, reg_field, rm) \<Rightarrow>
          let pos = pos + 1; dst = gpr reg_field rex_r in
          bind_res (decode_modrm_operand t pc pos code mod_bits rm rex_b) (\<lambda>r.
            case r of
              None \<Rightarrow> Inr (Stop, g)
            | Some (new_pos, src) \<Rightarrow>
                map_res (\<lambda>v. (Next (pc + of_nat new_pos), write_reg t dst (read_reg t dst XOR v), m))
                  (case src of Reg r \<Rightarrow> Inr (read_reg t r) | Addr a \<Rightarrow> guest_read_u64 m a))))"

definition exec_lea :: "bool \<Rightarrow> u64 \<Rightarrow> bytes \<Rightarrow> nat \<Rightarrow> guest \<Rightarrow> (control \<times> guest) res" where
  "exec_lea rex_r pc code pos g =
     (case g of (t, m) \<Rightarrow>
        if pos \<ge> length code then Inr (Stop, g)
        else bind_res (index_chk code pos) (\<lambda>modrm.
          case decode_modrm modrm of (mod_bits, reg_field, rm) \<Rightarrow>
          let pos = pos + 1; dest = gpr reg_field rex_r in
          if mod_bits \<noteq> 0 \<or> rm \<noteq> 5 then Inr (Stop, g)
          else if pos + 4 > length code then Inr (Stop, g)
          else map_res (\<lambda>disp :: u32.
              (Next (pc + of_nat (pos + 4)), write_reg t dest (pc + of_nat (pos + 4) + scast disp), m))
            (code_le code pos 4)))"

definition execute_opcode :: "bool \<Rightarrow> bool \<Rightarrow> bool \<Rightarrow> u64 \<Rightarrow> bytes \<Rightarrow> nat \<Rightarrow> guest \<Rightarrow> (control \<times> guest) res" where
  "execute_opcode rex_w rex_r rex_b pc code pos g =
     bind_res (index_chk code pos) (\<lambda>opcode.
       let pos = pos + 1 in
       if opcode = 0x90 then Inr (Next (pc + of_nat pos), g)
       else if opcode = 0xC3 then exec_ret g
       else if opcode = 0xEB then exec_jmp8 pc code pos g
       else if opcode = 0xE9 then exec_jmp32 pc code pos g
       else if opcode = 0xE8 then exec_call pc code pos g
       else if 0xB8 \<le> opcode \<and> opcode \<le> 0xBF then exec_mov_imm opcode rex_w rex_b pc code pos g
       else if opcode = 0xC7 then exec_mov_rm rex_b pc code pos g
       else if opcode = 0x31 then exec_xor_rm rex_r rex_b pc code pos g
       else if opcode = 0x33 then exec_xor_reg rex_r rex_b pc code pos g
       else if opcode = 0x8D then exec_lea rex_r pc code pos g
       else if opcode = 0x0F then
         if pos \<ge> length code then Inr (Stop, g)
         else map_res (\<lambda>sub. (if sub = 0x05 then Trap (pc + of_nat (pos + 1)) else Stop, g)) (index_chk code pos)
       else Inr (Stop, g))"

definition execute_instruction :: "u64 \<Rightarrow> bytes \<Rightarrow> guest \<Rightarrow> (control \<times> guest) res" where
  "execute_instruction pc code g =
     (if code = [] then Inr (Stop, g)
      else bind_res (index_chk code 0) (\<lambda>rex.
        if rex AND 0xF0 = 0x40 then
          if 1 \<ge> length code then Inr (Stop, g)
          else execute_opcode (rex AND 0x08 \<noteq> 0) (rex AND 0x04 \<noteq> 0) (rex AND 0x01 \<noteq> 0) pc code 1 g
        else execute_opcode False False False pc code 0 g))"

section \<open>The loops\<close>

datatype outcome = Continue os | Stopped os | No_Thread os | Switched cpu os

definition WINDOW :: nat where "WINDOW = 15"

definition put_thread :: "nat \<Rightarrow> thread \<Rightarrow> os \<Rightarrow> os" where
  "put_thread slot t s = s\<lparr>kern := set_thread slot t (kern s)\<rparr>"

text \<open>The call reaches the delay handler and there is a thread to switch to.\<close>

definition yields :: "SyscallNumber \<Rightarrow> os \<Rightarrow> bool" where
  "yields number s \<longleftrightarrow> nt_initialized s \<and> syscall_table s ! syscall_raw number = Some HDelayExecution \<and>
     (case dequeue_thread (kern s) of (Some n, k) \<Rightarrow> thread_mut k n \<noteq> None | _ \<Rightarrow> False)"

definition syscall_args :: "thread \<Rightarrow> u64 list" where
  "syscall_args t =
     [read_reg t Rdi, read_reg t Rsi, read_reg t Rdx, read_reg t R10, read_reg t R8, read_reg t R9] @ replicate 10 0"

definition dispatch_syscall :: "nat \<Rightarrow> thread \<Rightarrow> u64 \<Rightarrow> cpu \<Rightarrow> os \<Rightarrow> outcome res" where
  "dispatch_syscall slot t return_pc c s =
     (let number = syscall_from (unat (read_reg t Rax)) in
      map_res (\<lambda>(status, c', s').
          if yields number s then Switched c' s'
          else Continue (put_thread slot ((write_reg t Rax (ucast (status_code status)))\<lparr>user_rip := return_pc\<rparr>) s'))
        (dispatch number (syscall_args t) c s))"

definition interp_start :: "u64 \<Rightarrow> os \<Rightarrow> os" where
  "interp_start entry s =
     s\<lparr>kern := snd (with_current_thread (\<lambda>t. ((), write_reg (t\<lparr>user_rip := entry\<rparr>) Rsp (user_rsp t))) (kern s))\<rparr>"

definition interp_step :: "cpu \<Rightarrow> os \<Rightarrow> outcome res" where
  "interp_step c s =
     (case current_thread (kern s) of
        None \<Rightarrow> Inr (No_Thread s)
      | Some slot \<Rightarrow>
          (case thread_mut (kern s) slot of
             None \<Rightarrow> Inr (No_Thread s)
           | Some t \<Rightarrow>
               let pc = user_rip t in
               bind_res (read_guest_bytes (os_mem s) pc WINDOW) (\<lambda>code.
               bind_res (execute_instruction pc code (t, os_mem s)) (\<lambda>(ctl, t', m).
               let s1 = put_thread slot t' (os_mach ((mach (kern s))\<lparr>phys := m\<rparr>) s) in
               case ctl of
                 Next npc \<Rightarrow> Inr (Continue (put_thread slot (t'\<lparr>user_rip := npc\<rparr>) s1))
               | Stop \<Rightarrow> Inr (Stopped s1)
               | Trap npc \<Rightarrow> dispatch_syscall slot t' npc c s1))))"

fun interp_run :: "nat \<Rightarrow> cpu \<Rightarrow> os \<Rightarrow> outcome res" where
  "interp_run 0 c s = Inr (Continue s)"
| "interp_run (Suc n) c s =
     bind_res (interp_step c s) (\<lambda>r. case r of Continue s' \<Rightarrow> interp_run n c s' | _ \<Rightarrow> Inr r)"

definition run_x86_64_loop :: "nat \<Rightarrow> u64 \<Rightarrow> cpu \<Rightarrow> os \<Rightarrow> outcome res" where
  "run_x86_64_loop n entry c s = interp_run n c (interp_start entry s)"

definition aarch64_interp_step :: "os \<Rightarrow> outcome res" where
  "aarch64_interp_step s =
     (let pc = (case fst (with_current_thread (\<lambda>t. (user_rip t, t)) (kern s)) of Some p \<Rightarrow> p | None \<Rightarrow> 0);
          advance = s\<lparr>kern := snd (with_current_thread (\<lambda>t. ((), t\<lparr>user_rip := pc + 4\<rparr>)) (kern s))\<rparr>
      in map_res (\<lambda>_.
           case aarch64_decode (from_le (read_bytes (os_mem s) pc 4)) of
             Nop \<Rightarrow> Continue advance
           | Svc imm \<Rightarrow> Continue advance
           | _ \<Rightarrow> Stopped s)
         (raw_slice_chk pc 4))"

section \<open>Reference semantics\<close>

text \<open>The supported instructions, their encodings and their effect as the architecture defines it, given the
  address of the following instruction.\<close>

datatype rm_operand = RM_Reg Register | RM_Mem Register | RM_Rip u32

datatype insn =
  I_Nop | I_Ret | I_Jmp8 u8 | I_Jmp32 u32 | I_Call u32 | I_Syscall
| I_Mov32 Register u32 | I_Mov64 Register u64 | I_Mov_Rm rm_operand u32
| I_Xor_Rm rm_operand Register | I_Xor_Reg Register rm_operand | I_Lea Register u32

definition low3 :: "Register \<Rightarrow> nat" where "low3 r = reg_index r mod 8"
definition high :: "Register \<Rightarrow> bool" where "high r \<longleftrightarrow> 8 \<le> reg_index r"

definition rex :: "bool \<Rightarrow> bool \<Rightarrow> bool \<Rightarrow> u8" where
  "rex w r b = of_nat (0x40 + (if w then 8 else 0) + (if r then 4 else 0) + (if b then 1 else 0))"

fun rm_high :: "rm_operand \<Rightarrow> bool" where
  "rm_high (RM_Reg r) = high r"
| "rm_high (RM_Mem r) = high r"
| "rm_high (RM_Rip d) = False"

fun modrm_bytes :: "nat \<Rightarrow> rm_operand \<Rightarrow> bytes" where
  "modrm_bytes n (RM_Reg r) = [of_nat (64 * 3 + 8 * n + low3 r)]"
| "modrm_bytes n (RM_Mem r) = [of_nat (64 * 0 + 8 * n + low3 r)]"
| "modrm_bytes n (RM_Rip d) = of_nat (64 * 0 + 8 * n + 5) # to_le 4 d"

fun encode :: "insn \<Rightarrow> bytes" where
  "encode I_Nop = [0x90]"
| "encode I_Ret = [0xC3]"
| "encode (I_Jmp8 d) = [0xEB, d]"
| "encode (I_Jmp32 d) = 0xE9 # to_le 4 d"
| "encode (I_Call d) = 0xE8 # to_le 4 d"
| "encode I_Syscall = [0x0F, 0x05]"
| "encode (I_Mov32 r i) = rex False False (high r) # of_nat (0xB8 + low3 r) # to_le 4 i"
| "encode (I_Mov64 r i) = rex True False (high r) # of_nat (0xB8 + low3 r) # to_le 8 i"
| "encode (I_Mov_Rm rm i) = rex True False (rm_high rm) # 0xC7 # modrm_bytes 0 rm @ to_le 4 i"
| "encode (I_Xor_Rm rm r) = rex True (high r) (rm_high rm) # 0x31 # modrm_bytes (low3 r) rm"
| "encode (I_Xor_Reg r rm) = rex True (high r) (rm_high rm) # 0x33 # modrm_bytes (low3 r) rm"
| "encode (I_Lea r d) = rex True (high r) False # 0x8D # modrm_bytes (low3 r) (RM_Rip d)"

text \<open>An operand in memory needs a base register without a special meaning in the ModR/M byte.\<close>

fun rm_plain :: "rm_operand \<Rightarrow> bool" where
  "rm_plain (RM_Mem r) \<longleftrightarrow> low3 r \<noteq> 4 \<and> low3 r \<noteq> 5"
| "rm_plain _ \<longleftrightarrow> True"

fun supported :: "insn \<Rightarrow> bool" where
  "supported (I_Mov_Rm rm i) \<longleftrightarrow> rm_plain rm"
| "supported (I_Xor_Rm rm r) \<longleftrightarrow> rm_plain rm"
| "supported (I_Xor_Reg r rm) \<longleftrightarrow> rm_plain rm"
| "supported _ \<longleftrightarrow> True"

fun rm_addr :: "u64 \<Rightarrow> thread \<Rightarrow> rm_operand \<Rightarrow> Operand" where
  "rm_addr nxt t (RM_Reg r) = Reg r"
| "rm_addr nxt t (RM_Mem r) = Addr (read_reg t r)"
| "rm_addr nxt t (RM_Rip d) = Addr (nxt + scast d)"

fun operand_value :: "guest \<Rightarrow> Operand \<Rightarrow> u64" where
  "operand_value (t, m) (Reg r) = read_reg t r"
| "operand_value (t, m) (Addr a) = read_u64 m a"

fun operand_store :: "guest \<Rightarrow> Operand \<Rightarrow> u64 \<Rightarrow> guest" where
  "operand_store (t, m) (Reg r) v = (write_reg t r v, m)"
| "operand_store (t, m) (Addr a) v = (t, write_u64 m a v)"

fun sem :: "insn \<Rightarrow> u64 \<Rightarrow> guest \<Rightarrow> control \<times> guest" where
  "sem I_Nop nxt g = (Next nxt, g)"
| "sem I_Ret nxt (t, m) =
     (Next (read_u64 m (read_reg t Rsp)), write_reg t Rsp (read_reg t Rsp + 8), m)"
| "sem (I_Jmp8 d) nxt g = (Next (nxt + scast d), g)"
| "sem (I_Jmp32 d) nxt g = (Next (nxt + scast d), g)"
| "sem (I_Call d) nxt (t, m) =
     (Next (nxt + scast d), write_reg t Rsp (read_reg t Rsp - 8), write_u64 m (read_reg t Rsp - 8) nxt)"
| "sem I_Syscall nxt g = (Trap nxt, g)"
| "sem (I_Mov32 r i) nxt (t, m) = (Next nxt, write_reg t r (ucast i), m)"
| "sem (I_Mov64 r i) nxt (t, m) = (Next nxt, write_reg t r i, m)"
| "sem (I_Mov_Rm rm i) nxt g = (Next nxt, operand_store g (rm_addr nxt (fst g) rm) (scast i))"
| "sem (I_Xor_Rm rm r) nxt g =
     (let a = rm_addr nxt (fst g) rm in (Next nxt, operand_store g a (operand_value g a XOR read_reg (fst g) r)))"
| "sem (I_Xor_Reg r rm) nxt (t, m) =
     (Next nxt, write_reg t r (read_reg t r XOR operand_value (t, m) (rm_addr nxt t rm)), m)"
| "sem (I_Lea r d) nxt (t, m) = (Next nxt, write_reg t r (nxt + scast d), m)"

text \<open>The memory addresses an instruction accesses.\<close>

fun operand_accesses :: "Operand \<Rightarrow> u64 list" where
  "operand_accesses (Reg r) = []"
| "operand_accesses (Addr a) = [a]"

fun accesses :: "insn \<Rightarrow> u64 \<Rightarrow> thread \<Rightarrow> u64 list" where
  "accesses I_Ret nxt t = [read_reg t Rsp]"
| "accesses (I_Call d) nxt t = [read_reg t Rsp - 8]"
| "accesses (I_Mov_Rm rm i) nxt t = operand_accesses (rm_addr nxt t rm)"
| "accesses (I_Xor_Rm rm r) nxt t = operand_accesses (rm_addr nxt t rm)"
| "accesses (I_Xor_Reg r rm) nxt t = operand_accesses (rm_addr nxt t rm)"
| "accesses _ nxt t = []"

text \<open>The three points in which the interpreter departs from the architecture: an access to a null or misaligned address panics, a
  return to address 0 ends the program, and the displacement of a RIP-relative MOV is taken from the start of the immediate
  operand instead of the end of the instruction.\<close>

definition checked :: "u64 list \<Rightarrow> 'a \<Rightarrow> 'a res" where
  "checked as r = (if list_all (ptr_ok 8) as then Inr r else Inl Bad_Pointer)"

fun return_stops :: "insn \<Rightarrow> control \<times> guest \<Rightarrow> control \<times> guest" where
  "return_stops I_Ret (Next ra, g) = (if ra = 0 then Stop else Next ra, g)"
| "return_stops _ r = r"

section \<open>Decoding lemmas\<close>

lemma checked_simps [simp]:
  "checked [] r = Inr r"
  "map_res f (checked as r) = checked as (f r)"
  "bind_res (checked as r) (\<lambda>v. checked as (h v)) = checked as (h r)"
  by (simp_all add: checked_def)

lemma guest_checked:
  "guest_read_u64 m a = checked [a] (read_u64 m a)"
  "guest_write_u64 m a v = checked [a] (write_u64 m a v)"
  by (simp_all add: guest_read_u64_def guest_write_u64_def checked_def ptr_chk_def)

lemma index_all_upt: "pos + n \<le> length code \<Longrightarrow> index_all code [pos..<pos + n] = Inr (take n (drop pos code))"
proof (induction n arbitrary: pos)
  case (Suc n)
  have u: "[pos..<pos + Suc n] = pos # [Suc pos..<Suc pos + n]" by (simp add: upt_conv_Cons)
  have d: "drop pos code = code ! pos # drop (Suc pos) code" using Suc.prems by (simp add: Cons_nth_drop_Suc)
  show ?case unfolding u using Suc.IH [of "Suc pos"] Suc.prems by (simp add: index_chk_def d del: upt_Suc)
qed simp

lemma code_le_eq: "pos + n \<le> length code \<Longrightarrow> code_le code pos n = Inr (from_le (take n (drop pos code)))"
  by (simp add: code_le_def index_all_upt)

lemma low3_less [simp]: "low3 r < 8"
  by (simp add: low3_def)

lemma decode_modrm_fields:
  assumes "md < 4" "rg < 8" "rm < 8"
  shows "decode_modrm (of_nat (64 * md + 8 * rg + rm)) = (of_nat md, of_nat rg, of_nat rm)"
proof -
  have "\<forall>md\<in>set [0..<4]. \<forall>rg\<in>set [0..<8]. \<forall>rm\<in>set [0..<8].
      decode_modrm (of_nat (64 * md + 8 * rg + rm)) = (of_nat md, of_nat rg, of_nat rm)"
    by code_simp
  then show ?thesis using assms by simp
qed

lemma gpr_low3: "gpr (of_nat (low3 r)) (high r) = r"
  by (cases r) (simp_all add: gpr_def low3_def high_def registers_def)

lemma gpr_opcode: "gpr (of_nat (0xB8 + low3 r) AND 7) (high r) = r"
  by (cases r) (simp_all add: gpr_def low3_def high_def registers_def)

lemma rex_bits:
  "rex w r b AND 0xF0 = 0x40" "rex w r b AND 8 \<noteq> 0 \<longleftrightarrow> w" "rex w r b AND 4 \<noteq> 0 \<longleftrightarrow> r" "rex w r b AND 1 \<noteq> 0 \<longleftrightarrow> b"
  by (cases w; cases r; cases b; simp add: rex_def)+

lemma execute_rex:
  "execute_instruction pc (rex w r b # op # xs) g = execute_opcode w r b pc (rex w r b # op # xs) 1 g"
  by (simp add: execute_instruction_def index_chk_def rex_bits)

lemma operand_plain:
  assumes "rm_plain rm" "n < 8" "code = a # b # modrm_bytes n rm @ rest"
  obtains mb r where "decode_modrm (code ! 2) = (mb, of_nat n, r)"
    "decode_modrm_operand t pc 3 code mb r (rm_high rm) =
       Inr (Some (2 + length (modrm_bytes n rm), rm_addr (pc + of_nat (2 + length (modrm_bytes n rm))) t rm))"
proof (cases rm)
  case (RM_Reg x)
  then show thesis
    using that [of 3 "of_nat (low3 x)"] assms(2,3) decode_modrm_fields [of 3 n "low3 x"] gpr_low3 [of x]
    by (simp add: decode_modrm_operand_def)
next
  case (RM_Mem x)
  have "(of_nat (low3 x) :: u8) \<noteq> 4" "(of_nat (low3 x) :: u8) \<noteq> 5"
    using assms(1) RM_Mem by (cases x; simp add: low3_def)+
  then show thesis
    using that [of 0 "of_nat (low3 x)"] RM_Mem assms(2,3) decode_modrm_fields [of 0 n "low3 x"] gpr_low3 [of x]
    by (simp add: decode_modrm_operand_def)
next
  case (RM_Rip d)
  have "drop 3 code = to_le 4 d @ rest" using assms(3) RM_Rip by (simp add: numeral_eq_Suc)
  moreover have "3 + 4 \<le> length code" using assms(3) RM_Rip by simp
  ultimately have "code_le code 3 4 = Inr d"
    using code_le_eq [of 3 4 code, where 'a = 32] by simp
  then show thesis
    using that [of 0 5] RM_Rip assms(2,3) decode_modrm_fields [of 0 n 5]
    by (simp add: decode_modrm_operand_def)
qed

lemma code_le_imm:
  assumes "code = xs @ to_le 4 (d :: u32) @ rest"
  shows "code_le code (length xs) 4 = Inr d"
  using assms code_le_eq [of "length xs" 4 code, where 'a = 32] by simp

lemma code_le_imm8:
  assumes "code = xs @ to_le 8 (d :: u64) @ rest"
  shows "code_le code (length xs) 8 = Inr d"
  using assms code_le_eq [of "length xs" 8 code, where 'a = 64] by simp

lemma mov_opcode_range: "0xB8 \<le> (of_nat (0xB8 + low3 r) :: u8)" "(of_nat (0xB8 + low3 r) :: u8) \<le> 0xBF"
  by (cases r; simp add: low3_def)+

lemma mov_opcode:
  assumes "0xB8 \<le> op" "op \<le> 0xBF"
  shows "execute_opcode w r b pc (x # op # xs) (Suc 0) g = exec_mov_imm op w b pc (x # op # xs) 2 g"
proof -
  have "op \<noteq> 0x90" "op \<noteq> 0xC3" "op \<noteq> 0xEB" "op \<noteq> 0xE9" "op \<noteq> 0xE8" using assms by auto
  then show ?thesis using assms by (simp add: execute_opcode_def index_chk_def numeral_2_eq_2)
qed

lemma execute_mov_imm:
  "execute_instruction pc (encode (I_Mov32 r i) @ rest) (t, m) = Inr (Next (pc + 6), write_reg t r (ucast i), m)"
  "execute_instruction pc (encode (I_Mov64 r j) @ rest) (t, m) = Inr (Next (pc + 10), write_reg t r j, m)"
proof -
  let ?o = "of_nat (0xB8 + low3 r)" let ?c = "rex False False (high r) # ?o # to_le 4 i @ rest"
    and ?d = "rex True False (high r) # ?o # to_le 8 j @ rest"
  have c: "code_le ?c 2 4 = Inr i" "code_le ?d 2 8 = Inr j"
    using code_le_imm [of ?c "[rex False False (high r), ?o]" i rest] code_le_imm8 [of ?d "[rex True False (high r), ?o]" j rest]
    by (simp_all add: numeral_2_eq_2)
  show "execute_instruction pc (encode (I_Mov32 r i) @ rest) (t, m) = Inr (Next (pc + 6), write_reg t r (ucast i), m)"
    using c(1) by (simp add: execute_rex mov_opcode [OF mov_opcode_range] exec_mov_imm_def gpr_opcode del: of_nat_add)
  show "execute_instruction pc (encode (I_Mov64 r j) @ rest) (t, m) = Inr (Next (pc + 10), write_reg t r j, m)"
    using c(2) by (simp add: execute_rex mov_opcode [OF mov_opcode_range] exec_mov_imm_def gpr_opcode del: of_nat_add)
qed

lemma execute_plain:
  "execute_instruction pc (encode I_Nop @ rest) g = Inr (sem I_Nop (pc + 1) g)"
  "execute_instruction pc (encode I_Ret @ rest) g = checked (accesses I_Ret (pc + 1) (fst g)) (return_stops I_Ret (sem I_Ret (pc + 1) g))"
  "execute_instruction pc (encode (I_Jmp8 b) @ rest) g = Inr (sem (I_Jmp8 b) (pc + 2) g)"
  "execute_instruction pc (encode (I_Jmp32 d) @ rest) g = Inr (sem (I_Jmp32 d) (pc + 5) g)"
  "execute_instruction pc (encode (I_Call d) @ rest) g = checked (accesses (I_Call d) (pc + 5) (fst g)) (sem (I_Call d) (pc + 5) g)"
  "execute_instruction pc (encode I_Syscall @ rest) g = Inr (sem I_Syscall (pc + 2) g)"
proof -
  have c: "code_le (op # to_le 4 d @ rest) (Suc 0) 4 = Inr d" for op using code_le_imm [of _ "[op]" d rest] by simp
  show "execute_instruction pc (encode I_Nop @ rest) g = Inr (sem I_Nop (pc + 1) g)"
    "execute_instruction pc (encode I_Ret @ rest) g = checked (accesses I_Ret (pc + 1) (fst g)) (return_stops I_Ret (sem I_Ret (pc + 1) g))"
    "execute_instruction pc (encode (I_Jmp8 b) @ rest) g = Inr (sem (I_Jmp8 b) (pc + 2) g)"
    "execute_instruction pc (encode (I_Jmp32 d) @ rest) g = Inr (sem (I_Jmp32 d) (pc + 5) g)"
    "execute_instruction pc (encode (I_Call d) @ rest) g = checked (accesses (I_Call d) (pc + 5) (fst g)) (sem (I_Call d) (pc + 5) g)"
    "execute_instruction pc (encode I_Syscall @ rest) g = Inr (sem I_Syscall (pc + 2) g)"
    by (cases g; simp add: execute_instruction_def execute_opcode_def index_chk_def exec_ret_def exec_jmp8_def exec_jmp32_def
        exec_call_def guest_checked c Let_def)+
qed

lemma rm_opcodes:
  "execute_opcode w r b pc (x # 0x31 # xs) (Suc 0) g = exec_xor_rm r b pc (x # 0x31 # xs) 2 g"
  "execute_opcode w r b pc (x # 0x33 # xs) (Suc 0) g = exec_xor_reg r b pc (x # 0x33 # xs) 2 g"
  "execute_opcode w r b pc (x # 0xC7 # xs) (Suc 0) g = exec_mov_rm b pc (x # 0xC7 # xs) 2 g"
  "execute_opcode w r b pc (x # 0x8D # xs) (Suc 0) g = exec_lea r pc (x # 0x8D # xs) 2 g"
  by (simp_all add: execute_opcode_def index_chk_def flip: numeral_2_eq_2)

lemma execute_xor:
  assumes "rm_plain rm"
  shows "execute_instruction pc (encode (I_Xor_Rm rm r) @ rest) g =
      (let nxt = pc + of_nat (length (encode (I_Xor_Rm rm r))) in checked (accesses (I_Xor_Rm rm r) nxt (fst g)) (sem (I_Xor_Rm rm r) nxt g))"
    "execute_instruction pc (encode (I_Xor_Reg r rm) @ rest) g =
      (let nxt = pc + of_nat (length (encode (I_Xor_Reg r rm))) in checked (accesses (I_Xor_Reg r rm) nxt (fst g)) (sem (I_Xor_Reg r rm) nxt g))"
proof -
  obtain t m where g: "g = (t, m)" by fastforce
  let ?n = "length (modrm_bytes (low3 r) rm)"
  let ?c = "\<lambda>op. rex True (high r) (rm_high rm) # op # modrm_bytes (low3 r) rm @ rest"
  have len: "2 < length (?c op)" for op by (cases rm) simp_all
  have dec: "\<exists>mb x. index_chk (?c op) 2 = Inr (?c op ! 2) \<and> decode_modrm (?c op ! 2) = (mb, of_nat (low3 r), x) \<and>
      decode_modrm_operand t pc 3 (?c op) mb x (rm_high rm) =
        Inr (Some (2 + ?n, rm_addr (pc + of_nat (2 + ?n)) t rm))" for op
    using operand_plain [OF assms low3_less [of r] refl [of "?c op"], of t pc] len [of op] by (metis index_chk_def)
  show "execute_instruction pc (encode (I_Xor_Rm rm r) @ rest) g =
      (let nxt = pc + of_nat (length (encode (I_Xor_Rm rm r))) in checked (accesses (I_Xor_Rm rm r) nxt (fst g)) (sem (I_Xor_Rm rm r) nxt g))"
    using dec [of "0x31"] len [of "0x31"]
    by (cases "rm_addr (pc + of_nat (2 + ?n)) t rm")
      (auto simp: execute_rex rm_opcodes exec_xor_rm_def g gpr_low3 guest_checked Let_def)
  show "execute_instruction pc (encode (I_Xor_Reg r rm) @ rest) g =
      (let nxt = pc + of_nat (length (encode (I_Xor_Reg r rm))) in checked (accesses (I_Xor_Reg r rm) nxt (fst g)) (sem (I_Xor_Reg r rm) nxt g))"
    using dec [of "0x33"] len [of "0x33"]
    by (cases "rm_addr (pc + of_nat (2 + ?n)) t rm")
      (auto simp: execute_rex rm_opcodes exec_xor_reg_def g gpr_low3 guest_checked Let_def)
qed

lemma execute_lea: "execute_instruction pc (encode (I_Lea r d) @ rest) (t, m) = Inr (sem (I_Lea r d) (pc + 7) (t, m))"
proof -
  let ?md = "of_nat (64 * 0 + 8 * low3 r + 5)" let ?c = "rex True (high r) False # 0x8D # ?md # to_le 4 d @ rest"
  have "code_le ?c 3 4 = Inr d" using code_le_imm [of ?c "[rex True (high r) False, 0x8D, ?md]" d rest] by (simp add: numeral_3_eq_3)
  moreover have "decode_modrm ?md = (0, of_nat (low3 r), 5)" using decode_modrm_fields [of 0 "low3 r" 5] by simp
  moreover have "index_chk ?c 2 = Inr ?md" by (simp add: index_chk_def)
  ultimately show ?thesis by (simp add: execute_rex rm_opcodes exec_lea_def gpr_low3)
qed

lemma execute_mov_rm:
  assumes "rm_plain rm"
  shows "execute_instruction pc (encode (I_Mov_Rm rm i) @ rest) g =
    (let dst = rm_addr (pc + of_nat (2 + length (modrm_bytes 0 rm))) (fst g) rm
     in checked (operand_accesses dst) (Next (pc + of_nat (length (encode (I_Mov_Rm rm i)))), operand_store g dst (scast i)))"
proof -
  obtain t m where g: "g = (t, m)" by fastforce
  let ?n = "length (modrm_bytes 0 rm)"
  let ?p = "rex True False (rm_high rm) # 0xC7 # modrm_bytes 0 rm" let ?c = "?p @ to_le 4 i @ rest"
  have c: "code_le ?c (2 + ?n) 4 = Inr i" using code_le_imm [of ?c ?p i rest] by simp
  have len: "2 < length ?c" "7 \<le> length ?c" "modrm_bytes 0 rm \<noteq> []" by (cases rm; simp)+
  obtain mb x where "index_chk ?c 2 = Inr (?c ! 2)" "decode_modrm (?c ! 2) = (mb, 0, x)"
      "decode_modrm_operand t pc 3 ?c mb x (rm_high rm) = Inr (Some (2 + ?n, rm_addr (pc + of_nat (2 + ?n)) t rm))"
    using operand_plain [OF assms, of 0 ?c _ _ "to_le 4 i @ rest" t pc] len(1) by (auto simp: index_chk_def)
  then show ?thesis using c len
    by (cases "rm_addr (pc + of_nat (2 + ?n)) t rm")
      (simp_all add: execute_rex rm_opcodes exec_mov_rm_def g guest_checked Let_def)
qed

section \<open>Totality\<close>

lemma decode_modrm_operand_total:
  "\<exists>r. decode_modrm_operand t pc pos code mb rm b = Inr r \<and> (\<forall>p a. r = Some (p, a) \<longrightarrow> p \<le> pos + 4)"
proof (cases "pos + 4 \<le> length code")
  case True
  then show ?thesis using code_le_eq [OF True, where 'a = 32] by (simp add: decode_modrm_operand_def)
qed (simp add: decode_modrm_operand_def)

lemma code_le_total: "pos + n \<le> length code \<Longrightarrow> \<exists>w. code_le code pos n = Inr w"
  by (simp add: code_le_eq)

text \<open>The only panic of an instruction is that of a pointer check: no index is out of bounds.\<close>

definition only_bad_pointer :: "'a res \<Rightarrow> bool" where
  "only_bad_pointer r \<longleftrightarrow> (\<forall>e. r = Inl e \<longrightarrow> e = Bad_Pointer)"

lemma only_bad_pointer_simps [simp]:
  "only_bad_pointer (Inr x)" "only_bad_pointer (checked as x)" "only_bad_pointer (map_res f r) = only_bad_pointer r"
  by (simp_all add: only_bad_pointer_def checked_def map_res_def split: sum.splits)

lemma only_bad_pointer_bind:
  "only_bad_pointer r \<Longrightarrow> (\<And>x. r = Inr x \<Longrightarrow> only_bad_pointer (f x)) \<Longrightarrow> only_bad_pointer (bind_res r f)"
  by (cases r) (simp_all add: only_bad_pointer_def)

lemma exec_total:
  assumes "11 \<le> length code" "pos \<le> 2"
  shows "only_bad_pointer (exec_jmp8 pc code pos g)" "only_bad_pointer (exec_jmp32 pc code pos g)"
    "only_bad_pointer (exec_call pc code pos g)" "only_bad_pointer (exec_mov_imm op w b pc code pos g)"
    "only_bad_pointer (exec_xor_rm r1 b pc code pos g)" "only_bad_pointer (exec_xor_reg r1 b pc code pos g)"
    "only_bad_pointer (exec_lea r1 pc code pos g)" "only_bad_pointer (exec_mov_rm b pc code pos g)"
proof -
  obtain modrm where m: "index_chk code pos = Inr modrm" using assms by (auto simp: index_chk_def)
  have le4: "\<exists>w :: u32. code_le code p 4 = Inr w" if "p \<le> 7" for p using that assms by (intro code_le_total) simp
  have le8: "pos + 8 \<le> length code \<Longrightarrow> \<exists>w :: u64. code_le code pos 8 = Inr w" by (rule code_le_total)
  have pos: "pos \<le> 7" "Suc pos \<le> 7" using assms by simp_all
  obtain t mm where g: "g = (t, mm)" by fastforce
  show "only_bad_pointer (exec_jmp8 pc code pos g)" using m by (simp add: exec_jmp8_def)
  show "only_bad_pointer (exec_jmp32 pc code pos g)" "only_bad_pointer (exec_call pc code pos g)"
    using le4 [OF pos(1)] by (auto simp: exec_jmp32_def exec_call_def g guest_checked Let_def)
  show "only_bad_pointer (exec_mov_imm op w b pc code pos g)"
    using le4 [OF pos(1)] le8 by (cases "pos + 8 \<le> length code") (auto simp: exec_mov_imm_def Let_def g)
  obtain mb rg rm where d: "decode_modrm modrm = (mb, rg, rm)" by (metis prod_cases3)
  obtain q where q: "decode_modrm_operand t pc (Suc pos) code mb rm b = Inr q" "\<And>p a. q = Some (p, a) \<Longrightarrow> p \<le> Suc pos + 4"
    using decode_modrm_operand_total by metis
  show "only_bad_pointer (exec_xor_rm r1 b pc code pos g)" "only_bad_pointer (exec_xor_reg r1 b pc code pos g)"
    using m d q(1) by (simp_all add: exec_xor_rm_def exec_xor_reg_def Let_def g guest_checked split: option.splits Operand.splits)
  show "only_bad_pointer (exec_lea r1 pc code pos g)"
    using m d le4 [OF pos(2)] by (auto simp: exec_lea_def Let_def g)
  show "only_bad_pointer (exec_mov_rm b pc code pos g)"
  proof (cases q)
    case (Some pa)
    obtain p a where pa: "pa = (p, a)" by fastforce
    have "p \<le> 7" using q(2) [of p a] Some pa assms(2) by simp
    from le4 [OF this] show ?thesis using m d q(1) Some pa
      by (auto simp: exec_mov_rm_def Let_def g guest_checked split: Operand.splits)
  qed (use m d q(1) in \<open>auto simp: exec_mov_rm_def Let_def g\<close>)
qed

lemma execute_total:
  assumes "11 \<le> length code"
  shows "only_bad_pointer (execute_instruction pc code g)"
proof -
  have op: "only_bad_pointer (execute_opcode w r1 b pc code pos g)" if "pos \<le> 1" for w r1 b pos
  proof -
    have p: "pos < length code" "Suc pos \<le> 2" "Suc pos < length code" using that assms by simp_all
    then obtain x y where x: "index_chk code pos = Inr x" "index_chk code (Suc pos) = Inr y" by (auto simp: index_chk_def)
    show ?thesis using exec_total [OF assms p(2)]
      by (simp add: execute_opcode_def x Let_def exec_ret_def guest_checked split: prod.splits)
  qed
  have "code \<noteq> []" using assms by auto
  then obtain x where "index_chk code 0 = Inr x" by (auto simp: index_chk_def)
  then show ?thesis using op [of 0] op [of 1] assms by (auto simp: execute_instruction_def)
qed

text \<open>Of the thread an instruction changes registers only, never their number, and a trap changes nothing.\<close>

definition regs_only :: "guest \<Rightarrow> control \<times> guest \<Rightarrow> bool" where
  "regs_only g r \<longleftrightarrow> (\<exists>rs. length rs = length (regs (fst g)) \<and> fst (snd r) = (fst g)\<lparr>regs := rs\<rparr>) \<and> (\<forall>p. fst r = Trap p \<longrightarrow> snd r = g)"

lemma regs_same: "\<exists>rs. length rs = length (regs t) \<and> t = t\<lparr>regs := rs\<rparr>"
  by (intro exI [of _ "regs t"]) simp

lemma regs_write: "\<exists>rs. length rs = length (regs t) \<and> write_reg t r v = t\<lparr>regs := rs\<rparr>"
  by (intro exI [of _ "(regs t)[reg_index r := v]"]) (simp add: write_reg_def)

lemma regs_only_simps [simp]:
  "regs_only g (c, g)" "regs_only (t, m) (Next p, write_reg t r v, m')" "regs_only (t, m) (Stop, write_reg t r v, m')"
  "regs_only (t, m) (Next p, t, m')"
  by (auto simp: regs_only_def regs_same regs_write)

abbreviation all_regs_only :: "guest \<Rightarrow> (control \<times> guest) res \<Rightarrow> bool" where
  "all_regs_only g \<equiv> all_results (regs_only g)"

lemma all_regs_only_rules:
  "all_regs_only g (Inr r) = regs_only g r"
  "(\<And>x. all_regs_only g (f x)) \<Longrightarrow> all_regs_only g (bind_res m f)"
  "(\<And>x. regs_only g (h x)) \<Longrightarrow> all_regs_only g (map_res h m)"
  "all_regs_only g m1 \<Longrightarrow> all_regs_only g m2 \<Longrightarrow> all_regs_only g (if c then m1 else m2)"
  by (auto simp: all_results_def bind_res_Inr_iff map_res_Inr_iff)

lemma all_regs_only_checked: "regs_only g r \<Longrightarrow> all_regs_only g (checked as r)"
  by (auto simp: all_results_def checked_def)

lemma exec_regs_only:
  "all_regs_only (t, m) (exec_ret (t, m))" "all_regs_only (t, m) (exec_jmp8 pc code pos (t, m))"
  "all_regs_only (t, m) (exec_jmp32 pc code pos (t, m))" "all_regs_only (t, m) (exec_call pc code pos (t, m))"
  "all_regs_only (t, m) (exec_mov_imm op w b pc code pos (t, m))" "all_regs_only (t, m) (exec_lea r1 pc code pos (t, m))"
  "all_regs_only (t, m) (exec_mov_rm b pc code pos (t, m))" "all_regs_only (t, m) (exec_xor_rm r1 b pc code pos (t, m))"
  "all_regs_only (t, m) (exec_xor_reg r1 b pc code pos (t, m))"
  unfolding exec_ret_def exec_jmp8_def exec_jmp32_def exec_call_def exec_mov_imm_def exec_lea_def exec_mov_rm_def
    exec_xor_rm_def exec_xor_reg_def Let_def
  by (simp_all add: all_regs_only_rules all_regs_only_checked guest_checked split: prod.splits option.splits Operand.splits)

lemma execute_regs_only: "execute_instruction pc code g = Inr r \<Longrightarrow> regs_only g r"
proof -
  obtain t m where g: "g = (t, m)" by fastforce
  have op: "all_regs_only g (execute_opcode w r1 b pc code pos g)" for w r1 b pos
    unfolding execute_opcode_def Let_def g by (intro all_regs_only_rules exec_regs_only) (simp_all add: all_regs_only_rules)
  have "all_regs_only g (execute_instruction pc code g)"
    unfolding execute_instruction_def by (intro all_regs_only_rules op) (simp_all add: all_regs_only_rules)
  then show "execute_instruction pc code g = Inr r \<Longrightarrow> regs_only g r" by (simp add: all_results_def)
qed

section \<open>Properties\<close>

text \<open>C18: the interpreter implements the architecture up to three named differences. For every instruction it supports (the
  64-bit forms with a REX prefix for MOV, XOR and LEA), whatever bytes follow it, one execution decodes exactly that
  instruction and has the effect of the reference semantics on registers, memory and program counter: 16
  registers, register, register-indirect and RIP-relative operands, sign extension of displacements and
  immediates, and wrap-around of addresses. The differences: an instruction that accesses memory at a null address or one
  not divisible by 8 panics the kernel, RET to address 0 stops, and MOV of an immediate to a RIP-relative operand
  stores four bytes below the operand's address.\<close>

theorem execute_refines:
  assumes "supported i" and nxt: "nxt = pc + of_nat (length (encode i))"
  shows "((\<nexists>d v. i = I_Mov_Rm (RM_Rip d) v) \<longrightarrow>
      execute_instruction pc (encode i @ rest) g = checked (accesses i nxt (fst g)) (return_stops i (sem i nxt g))) \<and>
    (\<forall>d v. i = I_Mov_Rm (RM_Rip d) v \<longrightarrow> sem i nxt g = (Next nxt, fst g, write_u64 (snd g) (nxt + scast d) (scast v)) \<and>
      execute_instruction pc (encode i @ rest) g =
        checked [nxt + scast d - 4] (Next nxt, fst g, write_u64 (snd g) (nxt + scast d - 4) (scast v)))"
proof -
  obtain t m where g: "g = (t, m)" by fastforce
  show ?thesis
  proof (cases i)
    case (I_Mov_Rm rm imm)
    then show ?thesis using assms(1) I_Mov_Rm execute_mov_rm [of rm pc imm rest g] unfolding nxt
      by (cases rm) (simp_all add: g Let_def algebra_simps)
  next
    case (I_Xor_Rm rm r)
    then show ?thesis using assms(1) execute_xor(1) [of rm pc r rest g] by (simp add: nxt Let_def del: encode.simps sem.simps)
  next
    case (I_Xor_Reg r rm)
    then show ?thesis using assms(1) execute_xor(2) [of rm pc r rest g] by (simp add: nxt Let_def del: encode.simps sem.simps)
  qed (use execute_plain execute_mov_imm execute_lea g nxt in simp_all)
qed

text \<open>The instruction is \<^verbatim>\<open>xor [rax], r9\<close>, with \<^verbatim>\<open>rax\<close> at \<open>0x8000\<close> and at \<open>0x8004\<close>.\<close>

theorem execute_refines_witness:
  "\<exists>t m. t = write_reg (write_reg (new_thread 1 1 0) R9 5) Rax 0x8000 \<and> m = (\<lambda>_. 0) \<and>
     execute_instruction 0x1000 [0x4C, 0x31, 0x08] (t, m) = Inr (Next 0x1003, t, write_u64 m 0x8000 (read_u64 m 0x8000 XOR 5)) \<and>
     execute_instruction 0x1000 [0x4C, 0x31, 0x08] (write_reg t Rax 0x8004, m) = Inl Bad_Pointer"
proof -
  let ?t = "write_reg (write_reg (new_thread 1 1 0) R9 5) Rax 0x8000" let ?m = "\<lambda>_ :: u64. 0 :: u8" let ?i = "I_Xor_Rm (RM_Mem Rax) R9"
  have e: "encode ?i = [0x4C, 0x31, 0x08]" by (simp add: rex_def high_def low3_def)
  have s: "supported ?i" by (simp add: low3_def)
  note r = execute_refines [OF s refl, of "0x1000" "[]", unfolded e]
  show ?thesis using r [of "(?t, ?m)"] r [of "(write_reg ?t Rax 0x8004, ?m)"]
    by (simp add: read_reg_def write_reg_def new_thread_def Let_def checked_def ptr_ok_def)
qed

lemma legacy_prefix_stops:
  assumes "legacy_prefix b"
  shows "execute_instruction pc (b # code) g = Inr (Stop, g)"
  using assms unfolding legacy_prefix_def
  by (elim insertE emptyE; simp add: execute_instruction_def execute_opcode_def index_chk_def Let_def)

text \<open>C20: the interpreter and the decoder crate. Where the decoder recognises an instruction behind legacy prefixes the
  interpreter stops without effect. Where it recognises one without them, the interpreter executes it: a NOP
  continues after its length, a jump at the decoded target, a SYSCALL traps with the address behind it, none of them touching
  registers or memory; a RET pops the address on top of the stack and continues there, stops when it is 0, and
  panics when the stack pointer is null or not divisible by 8.\<close>

theorem interpreter_follows_decoder:
  assumes dec: "x86_decode code = Inr i" "insn_len i \<noteq> 0"
  shows "if legacy_prefix (hd code) then execute_instruction pc code g = Inr (Stop, g)
    else
      (is_nop i \<longrightarrow> execute_instruction pc code g = Inr (Next (pc + of_nat (insn_len i)), g)) \<and>
      (is_jmp i \<longrightarrow> (\<exists>off. jmp_offset i = Some off \<and>
         execute_instruction pc code g = Inr (Next (pc + of_nat (insn_len i) + of_int off), g))) \<and>
      (is_syscall i \<longrightarrow> execute_instruction pc code g = Inr (Trap (pc + of_nat (insn_len i)), g)) \<and>
      (is_ret i \<longrightarrow> (let rsp = read_reg (fst g) Rsp; ra = read_u64 (snd g) rsp in
         execute_instruction pc code g =
           (if ptr_ok 8 rsp then Inr (if ra = 0 then Stop else Next ra, write_reg (fst g) Rsp (rsp + 8), snd g) else Inl Bad_Pointer)))"
proof -
  obtain ps insn rest where c: "\<forall>p\<in>set ps. legacy_prefix p" "code = ps @ x86_encode insn @ rest"
    using x86_decode_valid [of code] dec by auto
  obtain t m where g: "g = (t, m)" by fastforce
  show ?thesis
  proof (cases "legacy_prefix (hd code)")
    case True
    have "code \<noteq> []" using c(2) by (cases insn) simp_all
    then show ?thesis using True legacy_prefix_stops [of "hd code" pc "tl code" g] by simp
  next
    case False
    then have ps: "ps = []" using c by (cases ps) auto
    have i: "i = x86_report 0 insn" using x86_decode_encode [OF c(1), of insn rest] c(2) dec(1) ps by simp
    show ?thesis
    proof (cases insn)
      case X_Nop
      then show ?thesis using execute_plain(1) [of pc rest g] i c(2) ps False by (simp add: invalid_insn_def)
    next
      case X_Ret
      then show ?thesis using execute_plain(2) [of pc rest g] i c(2) ps False by (simp add: invalid_insn_def g Let_def checked_def)
    next
      case (X_Jmp8 d)
      then show ?thesis using execute_plain(3) [of pc d rest g] i c(2) ps False by (simp add: invalid_insn_def)
    next
      case (X_Jmp32 d)
      then show ?thesis using execute_plain(4) [of pc d rest g] i c(2) ps False by (simp add: invalid_insn_def)
    next
      case X_Syscall
      then show ?thesis using execute_plain(6) [of pc rest g] i c(2) ps False by (simp add: invalid_insn_def)
    qed
  qed
qed

theorem interpreter_follows_decoder_witness:
  "execute_instruction 0x1000 [0xEB, 0xFE] (new_thread 1 1 0, \<lambda>_. 0) = Inr (Next 0x1000, new_thread 1 1 0, \<lambda>_. 0) \<and>
   execute_instruction 0x1000 [0x66, 0x90] (new_thread 1 1 0, \<lambda>_. 0) = Inr (Stop, new_thread 1 1 0, \<lambda>_. 0)"
proof -
  let ?g = "(new_thread 1 1 0, \<lambda>_. 0)"
  have j: "x86_decode [0xEB, 0xFE] = Inr (x86_report 0 (X_Jmp8 0xFE))" using x86_decode_encode [of "[]" "X_Jmp8 0xFE" "[]"] by simp
  have n: "x86_decode [0x66, 0x90] = Inr (x86_report 1 X_Nop)"
    using x86_decode_encode [of "[0x66]" X_Nop "[]"] by (simp add: legacy_prefix_def)
  from interpreter_follows_decoder [OF j, of "0x1000" ?g] interpreter_follows_decoder [OF n, of "0x1000" ?g]
  show ?thesis by (simp add: legacy_prefix_def invalid_insn_def)
qed

lemma os_inv_put_thread:
  assumes "os_inv s" "unat (stack_base t) + unat stack_size < 2 ^ 64"
  shows "os_inv (put_thread slot t s)"
  using assms sched_inv_set_thread [of "kern s" t slot] by (simp add: os_inv_def put_thread_def)

lemma os_inv_phys:
  assumes "os_inv s"
  shows "os_inv (os_mach ((mach (kern s))\<lparr>phys := m\<rparr>) s)"
  using assms by (intro os_inv_mach) (simp_all add: os_inv_def vfs_inv_def)

lemma put_thread_same:
  assumes "thread_mut (kern s) slot = Some t"
  shows "put_thread slot t s = s"
proof -
  have "storage (kern s) ! slot = Some t" using assms by (auto simp: thread_mut_def split: if_splits)
  then have "(storage (kern s))[slot := Some t] = storage (kern s)" by (metis list_update_id)
  then show ?thesis by (simp add: put_thread_def set_thread_def)
qed

lemma os_mach_same: "os_mach ((mach (kern s))\<lparr>phys := os_mem s\<rparr>) s = s"
  by (simp add: os_mach_def os_mem_def)

fun outcome_state :: "outcome \<Rightarrow> os" where
  "outcome_state (Continue s) = s"
| "outcome_state (Stopped s) = s"
| "outcome_state (No_Thread s) = s"
| "outcome_state (Switched c s) = s"

lemma dispatch_syscall_outcome:
  assumes inv: "os_inv s" and tbl: "syscall_table s = handler_table" and sb: "unat (stack_base t) + unat stack_size < 2 ^ 64"
    and n: "n = syscall_from (unat (read_reg t Rax))" and ok: "call_pointers_ok K n (syscall_args t) s"
  shows "(panics (dispatch_syscall slot t npc c s) \<longleftrightarrow> nt_initialized s \<and> memory_overflow n (syscall_args t)) \<and>
    (\<forall>r. dispatch_syscall slot t npc c s = Inr r \<longrightarrow> n \<noteq> NtFreeVirtualMemory \<longrightarrow> os_inv (outcome_state r))"
proof -
  note d = dispatch_outcome [OF inv tbl ok, of c]
  have "os_inv (outcome_state r)" if run: "dispatch_syscall slot t npc c s = Inr r" and nf: "n \<noteq> NtFreeVirtualMemory" for r
  proof -
    obtain st c' s' where o: "dispatch n (syscall_args t) c s = Inr (st, c', s')"
        "r = (if yields n s then Switched c' s'
              else Continue (put_thread slot ((write_reg t Rax (ucast (status_code st)))\<lparr>user_rip := npc\<rparr>) s'))"
      using run by (auto simp: dispatch_syscall_def Let_def map_res_Inr_iff n)
    then have "os_inv s'" using d nf by blast
    then show ?thesis unfolding o(2) using os_inv_put_thread [of s' "(write_reg t Rax (ucast (status_code st)))\<lparr>user_rip := npc\<rparr>" slot] sb
      by (simp add: write_reg_def)
  qed
  moreover have "panics (dispatch_syscall slot t npc c s) \<longleftrightarrow> nt_initialized s \<and> memory_overflow n (syscall_args t)"
    using d by (simp add: dispatch_syscall_def Let_def panics_map_res n)
  ultimately show ?thesis by blast
qed


text \<open>A thread about to execute SYSCALL with the number of \<open>NtClose\<close> and handle 0.\<close>

definition sample_thread :: thread where
  "sample_thread = write_reg (new_thread 1 1 0x9000) Rax 0x0F"

definition sample_guest :: os where
  "sample_guest =
     (let s = os_write 0x9000 [0x0F, 0x05] (put_thread 0 sample_thread sample_os)
      in s\<lparr>kern := (kern s)\<lparr>current_thread := Some 0\<rparr>\<rparr>)"

lemma sample_guest:
  "os_inv sample_guest" "syscall_table sample_guest = handler_table"
  "current_thread (kern sample_guest) = Some 0" "thread_mut (kern sample_guest) 0 = Some sample_thread"
proof -
  let ?s = "os_write 0x9000 [0x0F, 0x05] (put_thread 0 sample_thread sample_os)"
  have st: "storage (kern ?s) = (replicate MAX_THREADS None)[0 := Some sample_thread]"
    by (simp add: os_write_def put_thread_def sample_os_def initial_kernel_def)
  have sb: "unat (stack_base sample_thread) + unat stack_size < 2 ^ 64"
    by (simp add: sample_thread_def write_reg_def new_thread_def stack_size_def STACK_SIZE_def)
  have inv: "os_inv ?s" using os_inv_put_thread [OF sample_os_inv sb, of 0] by simp
  have "live (kern ?s) 0" using st sb by (simp add: live_def MAX_THREADS_def)
  then have "sched_inv ((kern ?s)\<lparr>current_thread := Some 0\<rparr>)" by (rule sched_inv_current [OF os_invD(1) [OF inv]])
  then show "os_inv sample_guest" using inv by (simp add: os_inv_def sample_guest_def Let_def)
  show "syscall_table sample_guest = handler_table" "current_thread (kern sample_guest) = Some 0"
    by (simp_all add: sample_guest_def Let_def os_write_def put_thread_def sample_os_def)
  show "thread_mut (kern sample_guest) 0 = Some sample_thread"
    using st by (simp add: thread_mut_def sample_guest_def Let_def MAX_THREADS_def)
qed

lemma sample_guest_executes:
  "execute_instruction 0x9000 (read_bytes (os_mem sample_guest) 0x9000 WINDOW) g = Inr (Trap 0x9002, g)"
proof -
  let ?code = "read_bytes (os_mem sample_guest) 0x9000 WINDOW"
  have "?code ! 0 = 0x0F" "?code ! 1 = 5" "length ?code = 15"
    by (simp_all add: WINDOW_def sample_guest_def Let_def os_mem_def os_write_def write_bytes_def)
  then have "?code = encode I_Syscall @ drop 2 ?code"
    by (cases ?code; cases "tl ?code") (auto simp: numeral_2_eq_2)
  then show ?thesis using execute_plain(6) [of "0x9000" "drop 2 ?code" g] by simp
qed


end
