(* ===== verification/Fixture.thy ===== *)
theory Fixture
  imports Interpreter
begin

text \<open>
  The test program of the boot self-test, \<^verbatim>\<open>kernel/src/win32/minimal_pe64.bin\<close> (\<^verbatim>\<open>MINIMAL_PE64\<close> of \<^verbatim>\<open>win32/loader.rs\<close>), as data: how
  the parser reads its headers, and what its code does in the instruction interpreter up to each system call.
\<close>

definition mz_bytes :: bytes where
  "mz_bytes = [0x4D, 0x5A]"

definition pe_signature :: bytes where
  "pe_signature = [0x40, 0, 0, 0, 0x50, 0x45, 0, 0, 0x64, 0x86, 1]"

definition optional_header :: bytes where
  "optional_header = [0xF0, 0, 0x22, 0, 0x0B, 2, 0, 0, 0, 2, 0, 0, 0, 0, 0, 0, 0, 0, 0, 0, 0, 0x10, 0, 0, 0, 0x10, 0, 0, 0, 0, 0,
      0x40, 1, 0, 0, 0, 0, 0x10, 0, 0, 0, 2, 0, 0, 6, 0, 0, 0, 0, 0, 0, 0, 6, 0, 0, 0, 0, 0, 0, 0, 0, 0x20, 0, 0, 0,
      2, 0, 0, 0, 0, 0, 0, 1, 0, 0, 0, 0, 0, 0x10, 0, 0, 0, 0, 0, 0, 0x10, 0, 0, 0, 0, 0, 0, 0, 0, 0x10, 0, 0, 0, 0,
      0, 0, 0x10, 0, 0, 0, 0, 0, 0, 0, 0, 0, 0, 0x10]"

definition text_header :: bytes where
  "text_header = [0x2E, 0x74, 0x65, 0x78, 0x74, 0, 0, 0, 0, 0x10, 0, 0, 0, 0x10, 0, 0, 0, 2, 0, 0, 0, 2]"

definition text_flags :: bytes where
  "text_flags = [0x20, 0, 0, 0x60]"

definition text_code :: bytes where
  "text_code = [0xB8, 0x18, 0, 0, 0, 0x48, 0x31, 0xFF, 0x48, 0x8D, 0x35, 0xAE, 0, 0, 0, 0x48, 0x31, 0xD2, 0x49, 0xC7, 0xC2, 0,
      0x10, 0, 0, 0x4D, 0x31, 0xC0, 0x4D, 0x31, 0xC9, 0x0F, 5, 0xB8, 0x55, 0, 0, 0, 0x48, 0x8D, 0x3D, 0x98, 0, 0, 0,
      0x48, 0x8D, 0x35, 0x11, 1, 0, 0, 0xBA, 1, 0, 0, 0, 0x49, 0xB8, 0, 0, 0, 0x40, 0, 0, 0, 0, 0x0F, 5, 0xB8, 8, 0,
      0, 0, 0x48, 0x31, 0xFF, 0x48, 0x33, 0x3D, 0x71, 0, 0, 0, 0x48, 0x8D, 0x35, 0xF9, 0, 0, 0, 0xBA, 0x22, 0, 0, 0,
      0x0F, 5, 0xB8, 0x0F, 0, 0, 0, 0x48, 0x31, 0xFF, 0x48, 0x33, 0x3D, 0x54, 0, 0, 0, 0x0F, 5, 0xB8, 0x36, 0, 0, 0,
      0x48, 0x31, 0xFF, 0x48, 0x8D, 0x35, 0x4B, 0, 0, 0, 0xBA, 0x40, 0, 0, 0, 0x4D, 0x31, 0xD2, 0x0F, 5, 0xB8, 0x19,
      0, 0, 0, 0x48, 0xC7, 0xC7, 0xFF, 0xFF, 0xFF, 0xFF, 0x48, 0x31, 0xF6, 0x48, 0x8D, 0x15, 0x6B, 0, 0, 0, 0x49,
      0xC7, 0xC2, 0x30, 0, 0, 0, 0x4D, 0x31, 0xC0, 0x0F, 5, 0xB8, 0x34, 0, 0, 0, 0x48, 0x31, 0xFF, 0x48, 0x8D, 0x35,
      0x80, 0, 0, 0, 0x0F, 5, 0xC3]"

definition text_data :: bytes where
  "text_data = [0xF0, 0xD8, 0xFF, 0xFF, 0xFF, 0xFF, 0xFF, 0xFF, 0x2F, 0x62, 0x69, 0x6E, 0x2F, 0x68, 0x65, 0x6C, 0x6C, 0x6F,
      0x2E, 0x74, 0x78, 0x74, 0, 0x48, 0x65, 0x6C, 0x6C, 0x6F, 0x20, 0x66, 0x72, 0x6F, 0x6D, 0x20, 0x41, 0x70, 0x65,
      0x72, 0x74, 0x75, 0x72, 0x65, 0x20, 0x4F, 0x53, 0x20, 0x50, 0x45, 0x20, 0x66, 0x69, 0x78, 0x74, 0x75, 0x72,
      0x65, 0x0A]"

definition MINIMAL_PE64 :: bytes where
  "MINIMAL_PE64 =
     mz_bytes @ replicate 58 0 @ pe_signature @ replicate 13 0 @ optional_header
     @ replicate 131 0 @ text_header @ replicate 14 0 @ text_flags @ replicate 144 0 @ text_code @ replicate 128 0 @ text_data @ replicate 135 0"

section \<open>Headers\<close>

lemmas fixture_bytes = mz_bytes_def pe_signature_def optional_header_def text_header_def text_flags_def

text \<open>The offsets of the pieces.\<close>

lemma replicate_num: "replicate (numeral k) x = x # replicate (pred_numeral k) x"
  by (simp add: numeral_eq_Suc)

lemma fixture_lengths:
  "length mz_bytes = 2" "length pe_signature = 11" "length optional_header = 113" "length text_header = 22" "length text_flags = 4"
  "length text_code = 192" "length text_data = 57" "length MINIMAL_PE64 = 1024"
  by (simp_all add: fixture_bytes text_code_def text_data_def MINIMAL_PE64_def)

lemma fixture_reads:
  "length MINIMAL_PE64 = 1024" "take 2 MINIMAL_PE64 = [0x4D, 0x5A]" "take 4 (drop 60 MINIMAL_PE64) = [0x40, 0, 0, 0]"
  "take 4 (drop 64 MINIMAL_PE64) = [0x50, 0x45, 0, 0]" "take 2 (drop 68 MINIMAL_PE64) = [0x64, 0x86]" "take 2 (drop 70 MINIMAL_PE64) = [1, 0]"
  "take 2 (drop 84 MINIMAL_PE64) = [0xF0, 0]" "take 2 (drop 86 MINIMAL_PE64) = [0x22, 0]" "take 2 (drop 88 MINIMAL_PE64) = [0x0B, 2]"
  "take 8 (drop 112 MINIMAL_PE64) = [0, 0, 0, 0x40, 1, 0, 0, 0]" "take 4 (drop 104 MINIMAL_PE64) = [0, 0x10, 0, 0]"
  "take 4 (drop 144 MINIMAL_PE64) = [0, 0x20, 0, 0]" "take 4 (drop 192 MINIMAL_PE64) = [0, 0, 0, 0]" "take 4 (drop 196 MINIMAL_PE64) = [0x10, 0, 0, 0]"
  by (simp_all add: MINIMAL_PE64_def fixture_lengths fixture_bytes numeral_3_eq_3)

text \<open>The parser finds one section and the entry point the self-test expects, and no data directory, although the header has sixteen.\<close>

theorem fixture_parses:
  "parse_pe MINIMAL_PE64 = Inr (Some \<lparr>pe_machine = Amd64, pe_entry_point = 0x140001000, pe_image_base = 0x140000000, pe_image_size = 0x2000,
     pe_is_dll = False, pe_num_sections = 1, pe_section_table_offset = 328, pe_data_directory_offset = 196, pe_num_data_directories = 0\<rparr>)"
  by (simp add: parse_pe_def parse_coff_header_def parse_optional_header_def read_image_base_def num_directories_def machine_type_def
      le_at_def slice_chk_def add_chk_def fixture_reads Let_def from_le_def)

section \<open>Code\<close>

lemmas execute_simps = execute_instruction_def execute_opcode_def exec_mov_imm_def exec_mov_rm_def exec_xor_rm_def exec_xor_reg_def exec_lea_def
  exec_ret_def decode_modrm_def decode_modrm_operand_def gpr_def registers_def code_le_eq index_chk_def from_le_def Let_def

definition window_at :: "nat \<Rightarrow> bytes" where
  "window_at off = take WINDOW (drop (512 + off) MINIMAL_PE64)"

lemma fixture_windows:
  "window_at 0 = [0xB8, 0x18, 0, 0, 0, 0x48, 0x31, 0xFF, 0x48, 0x8D, 0x35, 0xAE, 0, 0, 0]"
  "window_at 5 = [0x48, 0x31, 0xFF, 0x48, 0x8D, 0x35, 0xAE, 0, 0, 0, 0x48, 0x31, 0xD2, 0x49, 0xC7]"
  "window_at 8 = [0x48, 0x8D, 0x35, 0xAE, 0, 0, 0, 0x48, 0x31, 0xD2, 0x49, 0xC7, 0xC2, 0, 0x10]"
  "window_at 15 = [0x48, 0x31, 0xD2, 0x49, 0xC7, 0xC2, 0, 0x10, 0, 0, 0x4D, 0x31, 0xC0, 0x4D, 0x31]"
  "window_at 18 = [0x49, 0xC7, 0xC2, 0, 0x10, 0, 0, 0x4D, 0x31, 0xC0, 0x4D, 0x31, 0xC9, 0x0F, 5]"
  "window_at 25 = [0x4D, 0x31, 0xC0, 0x4D, 0x31, 0xC9, 0x0F, 5, 0xB8, 0x55, 0, 0, 0, 0x48, 0x8D]"
  "window_at 28 = [0x4D, 0x31, 0xC9, 0x0F, 5, 0xB8, 0x55, 0, 0, 0, 0x48, 0x8D, 0x3D, 0x98, 0]"
  "window_at 31 = [0x0F, 5, 0xB8, 0x55, 0, 0, 0, 0x48, 0x8D, 0x3D, 0x98, 0, 0, 0, 0x48]"
  "window_at 33 = [0xB8, 0x55, 0, 0, 0, 0x48, 0x8D, 0x3D, 0x98, 0, 0, 0, 0x48, 0x8D, 0x35]"
  "window_at 38 = [0x48, 0x8D, 0x3D, 0x98, 0, 0, 0, 0x48, 0x8D, 0x35, 0x11, 1, 0, 0, 0xBA]"
  "window_at 45 = [0x48, 0x8D, 0x35, 0x11, 1, 0, 0, 0xBA, 1, 0, 0, 0, 0x49, 0xB8, 0]"
  "window_at 52 = [0xBA, 1, 0, 0, 0, 0x49, 0xB8, 0, 0, 0, 0x40, 0, 0, 0, 0]"
  "window_at 57 = [0x49, 0xB8, 0, 0, 0, 0x40, 0, 0, 0, 0, 0x0F, 5, 0xB8, 8, 0]"
  "window_at 67 = [0x0F, 5, 0xB8, 8, 0, 0, 0, 0x48, 0x31, 0xFF, 0x48, 0x33, 0x3D, 0x71, 0]"
  "window_at 69 = [0xB8, 8, 0, 0, 0, 0x48, 0x31, 0xFF, 0x48, 0x33, 0x3D, 0x71, 0, 0, 0]"
  "window_at 74 = [0x48, 0x31, 0xFF, 0x48, 0x33, 0x3D, 0x71, 0, 0, 0, 0x48, 0x8D, 0x35, 0xF9, 0]"
  "window_at 77 = [0x48, 0x33, 0x3D, 0x71, 0, 0, 0, 0x48, 0x8D, 0x35, 0xF9, 0, 0, 0, 0xBA]"
  "window_at 84 = [0x48, 0x8D, 0x35, 0xF9, 0, 0, 0, 0xBA, 0x22, 0, 0, 0, 0x0F, 5, 0xB8]"
  "window_at 91 = [0xBA, 0x22, 0, 0, 0, 0x0F, 5, 0xB8, 0x0F, 0, 0, 0, 0x48, 0x31, 0xFF]"
  "window_at 96 = [0x0F, 5, 0xB8, 0x0F, 0, 0, 0, 0x48, 0x31, 0xFF, 0x48, 0x33, 0x3D, 0x54, 0]"
  "window_at 98 = [0xB8, 0x0F, 0, 0, 0, 0x48, 0x31, 0xFF, 0x48, 0x33, 0x3D, 0x54, 0, 0, 0]"
  "window_at 103 = [0x48, 0x31, 0xFF, 0x48, 0x33, 0x3D, 0x54, 0, 0, 0, 0x0F, 5, 0xB8, 0x36, 0]"
  "window_at 106 = [0x48, 0x33, 0x3D, 0x54, 0, 0, 0, 0x0F, 5, 0xB8, 0x36, 0, 0, 0, 0x48]"
  "window_at 113 = [0x0F, 5, 0xB8, 0x36, 0, 0, 0, 0x48, 0x31, 0xFF, 0x48, 0x8D, 0x35, 0x4B, 0]"
  "window_at 115 = [0xB8, 0x36, 0, 0, 0, 0x48, 0x31, 0xFF, 0x48, 0x8D, 0x35, 0x4B, 0, 0, 0]"
  "window_at 120 = [0x48, 0x31, 0xFF, 0x48, 0x8D, 0x35, 0x4B, 0, 0, 0, 0xBA, 0x40, 0, 0, 0]"
  "window_at 123 = [0x48, 0x8D, 0x35, 0x4B, 0, 0, 0, 0xBA, 0x40, 0, 0, 0, 0x4D, 0x31, 0xD2]"
  "window_at 130 = [0xBA, 0x40, 0, 0, 0, 0x4D, 0x31, 0xD2, 0x0F, 5, 0xB8, 0x19, 0, 0, 0]"
  "window_at 135 = [0x4D, 0x31, 0xD2, 0x0F, 5, 0xB8, 0x19, 0, 0, 0, 0x48, 0xC7, 0xC7, 0xFF, 0xFF]"
  "window_at 138 = [0x0F, 5, 0xB8, 0x19, 0, 0, 0, 0x48, 0xC7, 0xC7, 0xFF, 0xFF, 0xFF, 0xFF, 0x48]"
  "window_at 140 = [0xB8, 0x19, 0, 0, 0, 0x48, 0xC7, 0xC7, 0xFF, 0xFF, 0xFF, 0xFF, 0x48, 0x31, 0xF6]"
  "window_at 145 = [0x48, 0xC7, 0xC7, 0xFF, 0xFF, 0xFF, 0xFF, 0x48, 0x31, 0xF6, 0x48, 0x8D, 0x15, 0x6B, 0]"
  "window_at 152 = [0x48, 0x31, 0xF6, 0x48, 0x8D, 0x15, 0x6B, 0, 0, 0, 0x49, 0xC7, 0xC2, 0x30, 0]"
  "window_at 155 = [0x48, 0x8D, 0x15, 0x6B, 0, 0, 0, 0x49, 0xC7, 0xC2, 0x30, 0, 0, 0, 0x4D]"
  "window_at 162 = [0x49, 0xC7, 0xC2, 0x30, 0, 0, 0, 0x4D, 0x31, 0xC0, 0x0F, 5, 0xB8, 0x34, 0]"
  "window_at 169 = [0x4D, 0x31, 0xC0, 0x0F, 5, 0xB8, 0x34, 0, 0, 0, 0x48, 0x31, 0xFF, 0x48, 0x8D]"
  "window_at 172 = [0x0F, 5, 0xB8, 0x34, 0, 0, 0, 0x48, 0x31, 0xFF, 0x48, 0x8D, 0x35, 0x80, 0]"
  "window_at 174 = [0xB8, 0x34, 0, 0, 0, 0x48, 0x31, 0xFF, 0x48, 0x8D, 0x35, 0x80, 0, 0, 0]"
  "window_at 179 = [0x48, 0x31, 0xFF, 0x48, 0x8D, 0x35, 0x80, 0, 0, 0, 0x0F, 5, 0xC3, 0, 0]"
  "window_at 182 = [0x48, 0x8D, 0x35, 0x80, 0, 0, 0, 0x0F, 5, 0xC3, 0, 0, 0, 0, 0]"
  "window_at 189 = [0x0F, 5, 0xC3, 0, 0, 0, 0, 0, 0, 0, 0, 0, 0, 0, 0]"
  by (simp_all add: window_at_def MINIMAL_PE64_def fixture_lengths text_code_def WINDOW_def replicate_num)

lemma fixture_steps:
  "execute_instruction pc (window_at 0) (t, m) = Inr (Next (pc + 5), write_reg t Rax 0x18, m)"
  "execute_instruction pc (window_at 5) (t, m) = Inr (Next (pc + 3), write_reg t Rdi 0, m)"
  "execute_instruction pc (window_at 8) (t, m) = Inr (Next (pc + 7), write_reg t Rsi (pc + 181), m)"
  "execute_instruction pc (window_at 15) (t, m) = Inr (Next (pc + 3), write_reg t Rdx 0, m)"
  "execute_instruction pc (window_at 18) (t, m) = Inr (Next (pc + 7), write_reg t R10 0x1000, m)"
  "execute_instruction pc (window_at 25) (t, m) = Inr (Next (pc + 3), write_reg t R8 0, m)"
  "execute_instruction pc (window_at 28) (t, m) = Inr (Next (pc + 3), write_reg t R9 0, m)"
  "execute_instruction pc (window_at 31) (t, m) = Inr (Trap (pc + 2), t, m)"
  "execute_instruction pc (window_at 33) (t, m) = Inr (Next (pc + 5), write_reg t Rax 0x55, m)"
  "execute_instruction pc (window_at 38) (t, m) = Inr (Next (pc + 7), write_reg t Rdi (pc + 159), m)"
  "execute_instruction pc (window_at 45) (t, m) = Inr (Next (pc + 7), write_reg t Rsi (pc + 280), m)"
  "execute_instruction pc (window_at 52) (t, m) = Inr (Next (pc + 5), write_reg t Rdx 1, m)"
  "execute_instruction pc (window_at 57) (t, m) = Inr (Next (pc + 10), write_reg t R8 0x40000000, m)"
  "execute_instruction pc (window_at 67) (t, m) = Inr (Trap (pc + 2), t, m)"
  "execute_instruction pc (window_at 69) (t, m) = Inr (Next (pc + 5), write_reg t Rax 8, m)"
  "execute_instruction pc (window_at 74) (t, m) = Inr (Next (pc + 3), write_reg t Rdi 0, m)"
  "execute_instruction pc (window_at 77) (t, m) =
     map_res (\<lambda>v. (Next (pc + 7), write_reg t Rdi (read_reg t Rdi XOR v), m)) (guest_read_u64 m (pc + 120))"
  "execute_instruction pc (window_at 84) (t, m) = Inr (Next (pc + 7), write_reg t Rsi (pc + 256), m)"
  "execute_instruction pc (window_at 91) (t, m) = Inr (Next (pc + 5), write_reg t Rdx 0x22, m)"
  "execute_instruction pc (window_at 96) (t, m) = Inr (Trap (pc + 2), t, m)"
  "execute_instruction pc (window_at 98) (t, m) = Inr (Next (pc + 5), write_reg t Rax 0xf, m)"
  "execute_instruction pc (window_at 103) (t, m) = Inr (Next (pc + 3), write_reg t Rdi 0, m)"
  "execute_instruction pc (window_at 106) (t, m) =
     map_res (\<lambda>v. (Next (pc + 7), write_reg t Rdi (read_reg t Rdi XOR v), m)) (guest_read_u64 m (pc + 91))"
  "execute_instruction pc (window_at 113) (t, m) = Inr (Trap (pc + 2), t, m)"
  "execute_instruction pc (window_at 115) (t, m) = Inr (Next (pc + 5), write_reg t Rax 0x36, m)"
  "execute_instruction pc (window_at 120) (t, m) = Inr (Next (pc + 3), write_reg t Rdi 0, m)"
  "execute_instruction pc (window_at 123) (t, m) = Inr (Next (pc + 7), write_reg t Rsi (pc + 82), m)"
  "execute_instruction pc (window_at 130) (t, m) = Inr (Next (pc + 5), write_reg t Rdx 0x40, m)"
  "execute_instruction pc (window_at 135) (t, m) = Inr (Next (pc + 3), write_reg t R10 0, m)"
  "execute_instruction pc (window_at 138) (t, m) = Inr (Trap (pc + 2), t, m)"
  "execute_instruction pc (window_at 140) (t, m) = Inr (Next (pc + 5), write_reg t Rax 0x19, m)"
  "execute_instruction pc (window_at 145) (t, m) = Inr (Next (pc + 7), write_reg t Rdi (- 1), m)"
  "execute_instruction pc (window_at 152) (t, m) = Inr (Next (pc + 3), write_reg t Rsi 0, m)"
  "execute_instruction pc (window_at 155) (t, m) = Inr (Next (pc + 7), write_reg t Rdx (pc + 114), m)"
  "execute_instruction pc (window_at 162) (t, m) = Inr (Next (pc + 7), write_reg t R10 0x30, m)"
  "execute_instruction pc (window_at 169) (t, m) = Inr (Next (pc + 3), write_reg t R8 0, m)"
  "execute_instruction pc (window_at 172) (t, m) = Inr (Trap (pc + 2), t, m)"
  "execute_instruction pc (window_at 174) (t, m) = Inr (Next (pc + 5), write_reg t Rax 0x34, m)"
  "execute_instruction pc (window_at 179) (t, m) = Inr (Next (pc + 3), write_reg t Rdi 0, m)"
  "execute_instruction pc (window_at 182) (t, m) = Inr (Next (pc + 7), write_reg t Rsi (pc + 135), m)"
  "execute_instruction pc (window_at 189) (t, m) = Inr (Trap (pc + 2), t, m)"
  by (simp_all add: fixture_windows execute_simps add.commute [of pc])

text \<open>The program's text section in memory at \<open>base\<close>, and what the interpreter fetches there.\<close>

definition text_at :: "u64 \<Rightarrow> mem \<Rightarrow> bool" where
  "text_at base m \<longleftrightarrow> read_bytes m base 512 = drop 512 MINIMAL_PE64"

lemma text_at_byte:
  assumes "text_at base m" "k < 512"
  shows "m (base + of_nat k) = MINIMAL_PE64 ! (512 + k)"
proof -
  have "m (base + of_nat k) = read_bytes m base 512 ! k" using assms(2) by simp
  also have "\<dots> = drop 512 MINIMAL_PE64 ! k" using assms(1) by (simp only: text_at_def)
  finally show ?thesis by (simp add: fixture_lengths)
qed

lemma text_at_bytes:
  assumes "text_at base m" "k + n \<le> 512"
  shows "read_bytes m (base + of_nat k) n = take n (drop (512 + k) MINIMAL_PE64)"
  using assms text_at_byte [OF assms(1)] by (intro nth_equalityI) (simp_all add: fixture_lengths add.assoc flip: of_nat_add)

text \<open>Addresses behind a page-aligned base that is not null.\<close>

lemma base_offset:
  assumes "page_aligned base" "base \<noteq> 0" "k < 4096"
  shows "base + of_nat k \<noteq> 0" "unat (base + of_nat k) mod 8 = k mod 8"
proof -
  show "base + of_nat k \<noteq> 0"
  proof
    assume "base + of_nat k = 0"
    then show False using frame_of_offset [OF assms(1,3)] assms(2) by (simp add: frame_of_def)
  qed
  obtain q where q: "unat base = 4096 * q" using assms(1) by (auto simp: page_aligned_iff mod_eq_0_iff_dvd elim: dvdE)
  then have "4096 * q < 18446744073709551616" using unat_u64_less [of base] by simp
  then have "4096 * q + k < 2 ^ 64" using assms(3) by simp
  then have "unat (base + of_nat k) = 8 * (512 * q) + k" using q assms(3) by (simp add: unat_word_ariths unat_of_nat)
  then show "unat (base + of_nat k) mod 8 = k mod 8" by (metis mod_mult_self4)
qed

lemma text_at_fetch:
  assumes "text_at base m" "page_aligned base" "base \<noteq> 0"
  shows "read_guest_bytes m base WINDOW = Inr (window_at 0)"
    "numeral k \<le> (497 :: nat) \<Longrightarrow> read_guest_bytes m (base + numeral k) WINDOW = Inr (window_at (numeral k))"
proof -
  have w: "read_guest_bytes m (base + of_nat n) WINDOW = Inr (window_at n)" if "n \<le> 497" for n
    using text_at_bytes [OF assms(1), of n WINDOW] base_offset(1) [OF assms(2,3), of n] that
    by (simp add: window_at_def WINDOW_def read_guest_bytes_def raw_slice_chk_def)
  show "read_guest_bytes m base WINDOW = Inr (window_at 0)" using w [of 0] by simp
  show "read_guest_bytes m (base + numeral k) WINDOW = Inr (window_at (numeral k))" if "numeral k \<le> (497 :: nat)"
    using w [OF that] by simp
qed

text \<open>Rounds of the interpreter that only execute instructions, as far as the first SYSCALL.\<close>

fun run_guest :: "nat \<Rightarrow> guest \<Rightarrow> (control \<times> guest) res" where
  "run_guest 0 (t, m) = Inr (Next (user_rip t), t, m)"
| "run_guest (Suc n) (t, m) =
     bind_res (read_guest_bytes m (user_rip t) WINDOW) (\<lambda>code.
     bind_res (execute_instruction (user_rip t) code (t, m)) (\<lambda>(c, t', m').
     case c of Next pc \<Rightarrow> run_guest n (t'\<lparr>user_rip := pc\<rparr>, m') | _ \<Rightarrow> Inr (c, t', m')))"

lemma put_thread_os_mach [simp]:
  "put_thread slot t (os_mach m (put_thread slot t' s)) = put_thread slot t (os_mach m s)"
  "put_thread slot t (put_thread slot t' s) = put_thread slot t s" "os_mach m (os_mach m' s) = os_mach m s"
  "mach (kern (put_thread slot t s)) = mach (kern s)" "mach (kern (os_mach m s)) = m"
  by (simp_all add: put_thread_def os_mach_def set_thread_def)

text \<open>What the loop makes of such a run: the dispatch of the call, or the panic.\<close>

fun guest_end :: "nat \<Rightarrow> cpu \<Rightarrow> os \<Rightarrow> (control \<times> guest) res \<Rightarrow> outcome res" where
  "guest_end slot c s (Inr (Trap p, t', m')) =
     dispatch_syscall slot t' p c (put_thread slot t' (os_mach ((mach (kern s))\<lparr>phys := m'\<rparr>) s))"
| "guest_end slot c s (Inl e) = Inl e"
| "guest_end slot c s _ = Inr (No_Thread s)"

lemma guest_end_later:
  assumes "mach (kern s') = (mach (kern s))\<lparr>phys := m\<rparr>" "\<And>t M. put_thread slot t (os_mach M s') = put_thread slot t (os_mach M s)"
    and "(\<exists>p g. r = Inr (Trap p, g)) \<or> (\<exists>e. r = Inl e)"
  shows "guest_end slot c s' r = guest_end slot c s r"
  using assms by (cases r) auto

lemma interp_run_guest:
  assumes "current_thread (kern s) = Some slot" "thread_mut (kern s) slot = Some t" "length (storage (kern s)) = MAX_THREADS"
    "run_guest n (t, os_mem s) = r" "(\<exists>p g. r = Inr (Trap p, g)) \<or> (\<exists>e. r = Inl e)"
  shows "\<exists>k\<le>n. interp_run k c s = guest_end slot c s r"
  using assms
proof (induction n arbitrary: s t)
  case 0
  then show ?case by auto
next
  case (Suc n)
  have run: "interp_run (Suc 0) c s = interp_step c s"
    by (cases "interp_step c s") (auto split: outcome.splits)
  let ?x = "bind_res (read_guest_bytes (os_mem s) (user_rip t) WINDOW) (\<lambda>code. execute_instruction (user_rip t) code (t, os_mem s))"
  have assoc: "bind_res (read_guest_bytes (os_mem s) (user_rip t) WINDOW) (\<lambda>code. bind_res (execute_instruction (user_rip t) code (t, os_mem s)) f) = bind_res ?x f"
    for f :: "control \<times> guest \<Rightarrow> 'b res"
    by (cases "read_guest_bytes (os_mem s) (user_rip t) WINDOW") simp_all
  show ?case
  proof (cases ?x)
    case (Inl e)
    have "interp_step c s = Inl e" using Suc.prems(1,2) Inl by (simp add: interp_step_def Let_def assoc)
    moreover have "r = Inl e" using Suc.prems(4) Inl by (simp add: assoc)
    ultimately show ?thesis using run by (intro exI [of _ "Suc 0"]) (simp del: interp_run.simps)
  next
    case (Inr y)
    obtain ctl t1 m1 where x: "?x = Inr (ctl, t1, m1)" using Inr by (cases y) auto
    define s1 where "s1 = put_thread slot t1 (os_mach ((mach (kern s))\<lparr>phys := m1\<rparr>) s)"
    have step: "interp_step c s = (case ctl of Next pc \<Rightarrow> Inr (Continue (put_thread slot (t1\<lparr>user_rip := pc\<rparr>) s1))
        | Stop \<Rightarrow> Inr (Stopped s1) | Trap pc \<Rightarrow> dispatch_syscall slot t1 pc c s1)"
      unfolding s1_def using Suc.prems(1,2) x by (simp add: interp_step_def Let_def assoc)
    have rest: "r = (case ctl of Next pc \<Rightarrow> run_guest n (t1\<lparr>user_rip := pc\<rparr>, m1) | _ \<Rightarrow> Inr (ctl, t1, m1))"
      using Suc.prems(4) x by (simp add: assoc)
    show ?thesis
    proof (cases ctl)
      case (Next pc)
      let ?s = "put_thread slot (t1\<lparr>user_rip := pc\<rparr>) s1"
      have m: "os_mem ?s = m1" "mach (kern ?s) = (mach (kern s))\<lparr>phys := m1\<rparr>" by (simp_all add: s1_def os_mem_def)
      have "current_thread (kern ?s) = Some slot" "thread_mut (kern ?s) slot = Some (t1\<lparr>user_rip := pc\<rparr>)"
          "length (storage (kern ?s)) = MAX_THREADS"
        using Suc.prems(1-3) by (auto simp: s1_def put_thread_def os_mach_def set_thread_def thread_mut_def split: if_splits)
      from Suc.IH [OF this, unfolded m] obtain k where "k \<le> n" "interp_run k c ?s = guest_end slot c ?s r"
        using rest Next Suc.prems(5) by auto
      moreover have "guest_end slot c ?s r = guest_end slot c s r"
        by (rule guest_end_later [OF m(2) _ Suc.prems(5)]) (simp add: s1_def)
      ultimately show ?thesis using step Next by (intro exI [of _ "Suc k"]) simp
    next
      case Stop
      then show ?thesis using Suc.prems(5) rest by simp
    next
      case (Trap pc)
      then show ?thesis using rest step run by (intro exI [of _ "Suc 0"]) (simp add: s1_def del: interp_run.simps)
    qed
  qed
qed

text \<open>Where the stretches of code before a SYSCALL start, where the SYSCALL returns to, and the registers it sets for the call; and where
  the two stretches start that load a handle from \<open>base + 197\<close> first.\<close>

definition fixture_calls :: "u64 \<Rightarrow> (u64 \<times> u64 \<times> (Register \<times> u64) list) list" where
  "fixture_calls base =
     [(0, 33, [(Rax, 0x18), (Rdi, 0), (Rsi, base + 189), (Rdx, 0), (R10, 0x1000), (R8, 0), (R9, 0)]),
      (33, 69, [(Rax, 0x55), (Rdi, base + 197), (Rsi, base + 325), (Rdx, 1), (R8, 0x40000000)]),
      (115, 140, [(Rax, 0x36), (Rdi, 0), (Rsi, base + 205), (Rdx, 0x40), (R10, 0)]),
      (140, 174, [(Rax, 0x19), (Rdi, - 1), (Rsi, 0), (Rdx, base + 269), (R10, 0x30), (R8, 0)]),
      (174, 191, [(Rax, 0x34), (Rdi, 0), (Rsi, base + 317)])]"

definition fixture_loads :: "u64 list" where
  "fixture_loads = [69, 98]"

lemma read_write_reg: "length (regs t) = 16 \<Longrightarrow> read_reg (write_reg t r v) r' = (if r' = r then v else read_reg t r')"
  by (cases r; cases r') (simp_all add: read_reg_def write_reg_def)

lemma write_reg_length [simp]: "length (regs (write_reg t r v)) = length (regs t)"
  by (simp add: write_reg_def)

lemma write_reg_rip [simp]: "user_rip (write_reg t r v) = user_rip t" "read_reg (t\<lparr>user_rip := a\<rparr>) r = read_reg t r"
  "regs (t\<lparr>user_rip := a\<rparr>) = regs t"
  by (simp_all add: write_reg_def read_reg_def)

lemma run_guest_8: "run_guest 8 = run_guest (Suc (Suc (Suc (Suc (Suc (Suc (Suc (Suc 0))))))))"
  by (simp add: numeral_eq_Suc)

lemma fixture_run:
  assumes "length (regs t) = 16" "text_at base m" "page_aligned base" "base \<noteq> 0"
    and "(i, j, rs) \<in> set (fixture_calls base)" "user_rip t = base + i"
  shows "\<exists>t'. run_guest 8 (t, m) = Inr (Trap (base + j), t', m) \<and> (\<forall>(r, v)\<in>set rs. read_reg t' r = v) \<and>
    (\<forall>r. r \<notin> fst ` set rs \<longrightarrow> read_reg t' r = read_reg t r)"
  using assms(1,5,6) unfolding fixture_calls_def run_guest_8
  by (auto simp: fixture_steps text_at_fetch [OF assms(2-4)] read_write_reg add.assoc)

lemma fixture_load_panics:
  assumes "text_at base m" "page_aligned base" "base \<noteq> 0" "i \<in> set fixture_loads" "user_rip t = base + i"
  shows "run_guest 8 (t, m) = Inl Bad_Pointer"
proof -
  have "guest_read_u64 m (base + 197) = Inl Bad_Pointer"
    using base_offset [OF assms(2,3), of 197] by (simp add: guest_read_u64_def ptr_chk_def ptr_ok_def)
  then show ?thesis using assms(4,5) unfolding fixture_loads_def run_guest_8
    by (auto simp: fixture_steps text_at_fetch [OF assms(1-3)] add.assoc)
qed

lemma fixture_call_reached:
  assumes inv: "os_inv s" and cur: "current_thread (kern s) = Some slot" "thread_mut (kern s) slot = Some t"
    and t: "length (regs t) = 16" "user_rip t = base + i" and code: "text_at base (os_mem s)" "page_aligned base" "base \<noteq> 0"
    and call: "(i, j, rs) \<in> set (fixture_calls base)"
  shows "\<exists>k\<le>8. \<exists>t'. interp_run k c s = dispatch_syscall slot t' (base + j) c (put_thread slot t' s) \<and>
    (\<forall>(r, v)\<in>set rs. read_reg t' r = v) \<and> (\<forall>r. r \<notin> fst ` set rs \<longrightarrow> read_reg t' r = read_reg t r)"
proof -
  obtain t' where run: "run_guest 8 (t, os_mem s) = Inr (Trap (base + j), t', os_mem s)"
      "\<forall>(r, v)\<in>set rs. read_reg t' r = v" "\<forall>r. r \<notin> fst ` set rs \<longrightarrow> read_reg t' r = read_reg t r"
    using fixture_run [OF t(1) code call t(2)] by blast
  obtain k where "k \<le> 8" "interp_run k c s = guest_end slot c s (Inr (Trap (base + j), t', os_mem s))"
    using interp_run_guest [OF cur sched_invD(1) [OF os_invD(1) [OF inv]] run(1), of c] by auto
  then show ?thesis using run(2,3) by (auto simp: os_mach_same)
qed

text \<open>C21: what the code of the self-test's program does in the interpreter. In a consistent system whose memory holds the text section at a
  page-aligned base, at most eight rounds of the interpreter loop take five of its seven stretches of code from their start to the
  SYSCALL that ends them: the call is dispatched with the number and arguments listed in \<open>fixture_calls\<close>, to return to the start of
  the next stretch, and no other register, no memory and no other part of the system has changed. The two others, which
  write to the file and close it, end in a kernel panic: they load the handle from \<open>base + 197\<close>, an address that is not divisible by 8.\<close>

theorem fixture_system_calls:
  assumes inv: "os_inv s" and cur: "current_thread (kern s) = Some slot" "thread_mut (kern s) slot = Some t"
    and t: "length (regs t) = 16" and code: "text_at base (os_mem s)" "page_aligned base" "base \<noteq> 0"
  shows "(\<forall>(i, j, rs)\<in>set (fixture_calls base). user_rip t = base + i \<longrightarrow>
      (\<exists>k\<le>8. \<exists>t'. interp_run k c s = dispatch_syscall slot t' (base + j) c (put_thread slot t' s) \<and>
        (\<forall>(r, v)\<in>set rs. read_reg t' r = v) \<and> (\<forall>r. r \<notin> fst ` set rs \<longrightarrow> read_reg t' r = read_reg t r))) \<and>
    (\<forall>i\<in>set fixture_loads. user_rip t = base + i \<longrightarrow> (\<exists>k\<le>8. interp_run k c s = Inl Bad_Pointer))"
proof -
  have "\<exists>k\<le>8. interp_run k c s = Inl Bad_Pointer" if "i \<in> set fixture_loads" "user_rip t = base + i" for i
    using interp_run_guest [OF cur sched_invD(1) [OF os_invD(1) [OF inv]] fixture_load_panics [OF code that], of c] by simp
  then show ?thesis using fixture_call_reached [OF inv cur t _ code, where c = c] by fastforce
qed

text \<open>The fixture loaded at \<open>0x9000\<close>, its thread at the first instruction.\<close>

definition fixture_os :: os where
  "fixture_os =
     (let s = os_write 0x9000 (drop 512 MINIMAL_PE64) (put_thread 0 (new_thread 1 1 0x9000) sample_os)
      in s\<lparr>kern := (kern s)\<lparr>current_thread := Some 0\<rparr>\<rparr>)"

lemma fixture_os:
  "os_inv fixture_os" "current_thread (kern fixture_os) = Some 0" "thread_mut (kern fixture_os) 0 = Some (new_thread 1 1 0x9000)"
  "text_at 0x9000 (os_mem fixture_os)"
proof -
  let ?t = "new_thread 1 1 0x9000"
  let ?s = "os_write 0x9000 (drop 512 MINIMAL_PE64) (put_thread 0 ?t sample_os)"
  have st: "storage (kern ?s) = (replicate MAX_THREADS None)[0 := Some ?t]"
    by (simp add: os_write_def put_thread_def sample_os_def initial_kernel_def)
  have sb: "unat (stack_base ?t) + unat stack_size < 2 ^ 64" by (simp add: new_thread_def stack_size_def STACK_SIZE_def)
  have inv: "os_inv ?s" using os_inv_put_thread [OF sample_os_inv sb, of 0] by simp
  have "live (kern ?s) 0" using st sb by (simp add: live_def MAX_THREADS_def)
  then have "sched_inv ((kern ?s)\<lparr>current_thread := Some 0\<rparr>)" by (rule sched_inv_current [OF os_invD(1) [OF inv]])
  then show "os_inv fixture_os" using inv by (simp add: os_inv_def fixture_os_def Let_def)
  show "current_thread (kern fixture_os) = Some 0" by (simp add: fixture_os_def Let_def)
  show "thread_mut (kern fixture_os) 0 = Some ?t" using st by (simp add: thread_mut_def fixture_os_def Let_def MAX_THREADS_def)
  show "text_at 0x9000 (os_mem fixture_os)"
    using read_write_bytes_same [of "drop 512 MINIMAL_PE64" "os_mem (put_thread 0 ?t sample_os)" "0x9000"]
    by (simp add: text_at_def fixture_os_def Let_def os_write_def os_mem_def fixture_lengths)
qed

theorem fixture_system_calls_witness:
  "\<forall>c. \<exists>k\<le>8. \<exists>t'. interp_run k c fixture_os = dispatch_syscall 0 t' 0x9021 c (put_thread 0 t' fixture_os) \<and> read_reg t' R10 = 0x1000"
proof
  fix c
  have b: "page_aligned 0x9000" "(0x9000 :: u64) \<noteq> 0" "length (regs (new_thread 1 1 0x9000)) = 16" "user_rip (new_thread 1 1 0x9000) = 0x9000 + 0"
    by (simp_all add: page_aligned_def new_thread_def)
  let ?rs = "[(Rax, 0x18), (Rdi, 0), (Rsi, 0x9000 + 189), (Rdx, 0), (R10, 0x1000), (R8, 0), (R9, 0)]"
  have call: "(0, 33, ?rs) \<in> set (fixture_calls 0x9000)" by (simp add: fixture_calls_def)
  from fixture_system_calls [OF fixture_os(1-3) b(3) fixture_os(4) b(1,2), of c] b(4) call
  have "\<exists>k\<le>8. \<exists>t'. interp_run k c fixture_os = dispatch_syscall 0 t' (0x9000 + 33) c (put_thread 0 t' fixture_os) \<and>
    (\<forall>(r, v)\<in>set ?rs. read_reg t' r = v)"
    by blast
  then show "\<exists>k\<le>8. \<exists>t'. interp_run k c fixture_os = dispatch_syscall 0 t' 0x9021 c (put_thread 0 t' fixture_os) \<and> read_reg t' R10 = 0x1000"
    by simp blast
qed

section \<open>Misplaced operands\<close>

text \<open>The path passed to \<open>NtCreateFile\<close> is not \<^verbatim>\<open>/bin/hello.txt\<close> but has three bytes of the delay interval before it.\<close>

lemma fixture_path_misplaced:
  assumes "text_at base m" "page_aligned base" "base \<noteq> 0"
  shows "guest_cstr m (base + 325) 128 =
    Inr [0xFF, 0xFF, 0xFF, 0x2F, 0x62, 0x69, 0x6E, 0x2F, 0x68, 0x65, 0x6C, 0x6C, 0x6F, 0x2E, 0x74, 0x78, 0x74]"
proof -
  have "read_bytes m (base + 325) 128 = take 128 (drop 837 MINIMAL_PE64)" using text_at_bytes [OF assms(1), of 325 128] by simp
  moreover have "base + 325 \<noteq> 0" using base_offset(1) [OF assms(2,3), of 325] by simp
  ultimately show ?thesis
    by (simp add: guest_cstr_def raw_slice_chk_def string_len_eq MINIMAL_PE64_def fixture_lengths text_data_def)
qed

lemma alloc_one_frame:
  assumes "fa_inv (falloc m)" "free_frames (falloc m) \<noteq> {}"
  obtains f m' where "alloc_frames 1 0 m = (Inr f, m')"
proof -
  obtain r m' where al: "alloc_frame m = (r, m')" by fastforce
  obtain fa' where "allocate_frame (falloc m) = (r, fa')" using al by (auto simp: alloc_frame_def split: prod.splits)
  then have "r \<noteq> None" using fa.alloc_empty [OF assms(1), of fa'] assms(2) by auto
  then show thesis using al that by auto
qed

text \<open>C22: the program of the self-test panics the kernel in the interpreter. In a consistent system that has a free frame and whose memory holds the text
  section at a page-aligned base, with its thread at the first instruction, at most eight rounds of the interpreter loop end
  in a panic: the first call, \<open>NtAllocateVirtualMemory\<close>, is given \<open>base + 189\<close> to store its result, three bytes before the slot meant for
  it and not divisible by 8.\<close>

theorem fixture_panics_kernel:
  assumes inv: "os_inv s" and nt: "nt_initialized s" "syscall_table s = handler_table"
    and cur: "current_thread (kern s) = Some slot" "thread_mut (kern s) slot = Some t"
    and t: "length (regs t) = 16" "user_rip t = base" and code: "text_at base (os_mem s)" "page_aligned base" "base \<noteq> 0"
    and free: "free_frames (falloc (mach (kern s))) \<noteq> {}"
  shows "\<exists>k\<le>8. interp_run k c s = Inl Bad_Pointer"
proof -
  let ?rs = "[(Rax, 0x18), (Rdi, 0), (Rsi, base + 189), (Rdx, 0), (R10, 0x1000), (R8, 0), (R9, 0)]"
  have "(0, 33, ?rs) \<in> set (fixture_calls base)" "user_rip t = base + 0" using t(2) by (simp_all add: fixture_calls_def)
  from fixture_call_reached [OF inv cur t(1) this(2) code this(1), of c] obtain k t' where k: "k \<le> 8"
      "interp_run k c s = dispatch_syscall slot t' (base + 33) c (put_thread slot t' s)" "\<forall>(r, v)\<in>set ?rs. read_reg t' r = v"
    by blast
  let ?s = "put_thread slot t' s"
  have r: "read_reg t' Rax = 0x18" "syscall_args t' ! 1 = base + 189" "syscall_args t' ! 3 = 0x1000"
    using k(3) by (simp_all add: syscall_args_def)
  have n: "syscall_from (unat (read_reg t' Rax)) = NtAllocateVirtualMemory" by (simp add: r(1) syscall_from_def from_raw_def)
  have fi: "fa_inv (falloc (mach (kern ?s)))" "free_frames (falloc (mach (kern ?s))) \<noteq> {}"
    using os_invD(2) [OF inv] free by (simp_all add: vfs_inv_def)
  obtain f m' where al: "alloc_frames 1 0 (mach (kern ?s)) = (Inr f, m')" by (rule alloc_one_frame [OF fi])
  have bad: "base + 189 \<noteq> 0" "unat (base + 189) mod 8 \<noteq> 0" using base_offset [OF code(2,3), of 189] by simp_all
  have "add_chk (syscall_args t' ! 3) 4095 = Inr 0x1FFF" using r(3) by (simp add: add_chk_def)
  then have h: "handle_allocate_virtual_memory (syscall_args t') ?s = Inl Bad_Pointer"
    by (rule handle_allocate_bad_pointer) (use al bad r(2) in simp_all)
  have st: "syscall_table ?s = handler_table" "nt_initialized ?s" using nt by (simp_all add: put_thread_def)
  have "dispatch NtAllocateVirtualMemory (syscall_args t') c ?s = Inl Bad_Pointer"
    using h st by (simp add: dispatch_table [OF st(1)] call_handler_def Let_def)
  then show ?thesis using k(1,2) n by (auto simp: dispatch_syscall_def Let_def)
qed

theorem fixture_panics_kernel_witness: "\<forall>c. \<exists>k\<le>8. interp_run k c fixture_os = Inl Bad_Pointer"
proof
  fix c
  have fa: "falloc (mach (kern fixture_os)) = falloc sample_machine"
    by (simp add: fixture_os_def Let_def os_write_def put_thread_def set_thread_def sample_os_def initial_kernel_def)
  have free: "free_frames (falloc (mach (kern fixture_os))) \<noteq> {}" using sample_frees(2) unfolding fa by auto
  have "nt_initialized fixture_os" "syscall_table fixture_os = handler_table"
    by (simp_all add: fixture_os_def Let_def os_write_def put_thread_def sample_os_def)
  from fixture_panics_kernel [OF fixture_os(1) this fixture_os(2,3) _ _ fixture_os(4) _ _ free, of c]
  show "\<exists>k\<le>8. interp_run k c fixture_os = Inl Bad_Pointer" by (simp add: new_thread_def page_aligned_def)
qed

end
