(* ===== verification/Compositor.thy ===== *)
theory Compositor
  imports Bump_Heap
begin

text \<open>
  The software renderer (\<^verbatim>\<open>kernel/src/gui/color.rs\<close>, \<^verbatim>\<open>compositor.rs\<close>, \<^verbatim>\<open>font.rs\<close>, \<^verbatim>\<open>cursor.rs\<close>). The frame
  buffer is a byte list; the back buffer a window points to is the list of its pixels, kept in the
  window beside its heap address. Coordinates are \<^verbatim>\<open>i32\<close>: integers with the overflow checks of a debug
  build. Text is a list of character codes.
\<close>

record Color =
  red :: u8
  green :: u8
  blue :: u8
  alpha :: u8

definition color_new :: "u8 \<Rightarrow> u8 \<Rightarrow> u8 \<Rightarrow> Color" where
  "color_new r g b = \<lparr>red = r, green = g, blue = b, alpha = 0xFF\<rparr>"

definition with_alpha :: "u8 \<Rightarrow> u8 \<Rightarrow> u8 \<Rightarrow> u8 \<Rightarrow> Color" where
  "with_alpha r g b a = \<lparr>red = r, green = g, blue = b, alpha = a\<rparr>"

definition BLACK :: Color where "BLACK = color_new 0 0 0"
definition WHITE :: Color where "WHITE = color_new 255 255 255"
definition DARK_GRAY :: Color where "DARK_GRAY = color_new 48 48 48"

text \<open>One channel, computed in 16 bits.\<close>

definition blend_channel :: "u8 \<Rightarrow> u16 \<Rightarrow> u8 \<Rightarrow> u16 \<Rightarrow> u8 res" where
  "blend_channel s sa d inv_sa =
     bind_res (mul_chk (ucast s) sa) (\<lambda>p. bind_res (mul_chk (ucast d) inv_sa) (\<lambda>q.
     map_res (\<lambda>n. ucast (n div 255)) (add_chk p q)))"

definition blend :: "Color \<Rightarrow> Color \<Rightarrow> Color res" where
  "blend src dst =
     (if alpha src = 255 then Inr src
      else if alpha src = 0 then Inr dst
      else
        let sa = ucast (alpha src) in
        bind_res (sub_chk 255 sa) (\<lambda>inv_sa.
        bind_res (blend_channel (red src) sa (red dst) inv_sa) (\<lambda>r.
        bind_res (blend_channel (green src) sa (green dst) inv_sa) (\<lambda>g.
        map_res (\<lambda>b. with_alpha r g b 255) (blend_channel (blue src) sa (blue dst) inv_sa)))))"

section \<open>Windows\<close>

record Window =
  win_id :: nat
  win_title :: bytes
  win_x :: int
  win_y :: int
  win_width :: int
  win_height :: int
  win_visible :: bool
  win_backbuffer :: u64
  win_pixels :: "Color list"

record compositor =
  fb_buffer :: bytes
  fb_info :: FrameBufferInfo
  windows :: "Window option list"
  next_id :: nat

definition new_compositor :: "bytes \<Rightarrow> FrameBufferInfo \<Rightarrow> compositor" where
  "new_compositor buffer info = \<lparr>fb_buffer = buffer, fb_info = info, windows = replicate 32 None, next_id = 1\<rparr>"

definition as_usize :: "int \<Rightarrow> nat" where
  "as_usize n = nat (n mod 2 ^ 64)"

definition as_i32 :: "nat \<Rightarrow> int" where
  "as_i32 n = sint (of_nat n :: 32 word)"

definition title_buf :: "bytes \<Rightarrow> bytes" where
  "title_buf title = (let len = min (length title) 63 in take len title @ replicate (64 - len) 0)"

definition create_window :: "bytes \<Rightarrow> int \<Rightarrow> int \<Rightarrow> int \<Rightarrow> int \<Rightarrow> bump_allocator \<Rightarrow> compositor \<Rightarrow> (nat \<times> bump_allocator \<times> compositor) res" where
  "create_window title x y width height h c =
     bind_res (usize_chk (next_id c + 1)) (\<lambda>nid.
     bind_res (i32_chk (width * height)) (\<lambda>area.
     let pixel_count = as_usize area in
     bind_res (usize_chk (pixel_count * 4)) (\<lambda>nbytes.
     bind_res (alloc_early (of_nat nbytes) 1 h) (\<lambda>(r, h').
     case r of
       None \<Rightarrow> Inl Expect_Failed
     | Some backbuffer \<Rightarrow>
         (case position (\<lambda>w. w = None) (windows c) of
            None \<Rightarrow> Inl Expect_Failed
          | Some slot \<Rightarrow>
              Inr (next_id c, h',
                c\<lparr>next_id := nid,
                  windows := (windows c)[slot := Some
                    \<lparr>win_id = next_id c, win_title = title_buf title, win_x = x, win_y = y, win_width = width,
                     win_height = height, win_visible = True, win_backbuffer = backbuffer,
                     win_pixels = replicate pixel_count WHITE\<rparr>]\<rparr>))))))"

text \<open>The index of the first window with the given id, and an update of that window.\<close>

definition window_index :: "compositor \<Rightarrow> nat \<Rightarrow> nat option" where
  "window_index c i = position (\<lambda>w. case w of Some w \<Rightarrow> win_id w = i | None \<Rightarrow> False) (windows c)"

definition window_mut :: "compositor \<Rightarrow> nat \<Rightarrow> Window option" where
  "window_mut c i = (case window_index c i of Some k \<Rightarrow> windows c ! k | None \<Rightarrow> None)"

definition set_window :: "nat \<Rightarrow> Window \<Rightarrow> compositor \<Rightarrow> compositor" where
  "set_window i w c = (case window_index c i of Some k \<Rightarrow> c\<lparr>windows := (windows c)[k := Some w]\<rparr> | None \<Rightarrow> c)"

definition clear_window :: "nat \<Rightarrow> Color \<Rightarrow> compositor \<Rightarrow> compositor" where
  "clear_window i color c =
     (case window_mut c i of
        None \<Rightarrow> c
      | Some w \<Rightarrow> set_window i (w\<lparr>win_pixels := replicate (length (win_pixels w)) color\<rparr>) c)"

section \<open>The frame buffer\<close>

definition pixel_bytes :: "PixelFormat \<Rightarrow> Color \<Rightarrow> bytes" where
  "pixel_bytes f c =
     (case f of
        Rgb \<Rightarrow> [red c, green c, blue c, 0]
      | Bgr \<Rightarrow> [blue c, green c, red c, 0]
      | U8 \<Rightarrow> [red c, 0, 0, 0]
      | UnknownFormat r g b \<Rightarrow>
          ((([0, 0, 0, 0])[min (unat r div 8) 3 := red c])[min (unat g div 8) 3 := green c])[min (unat b div 8) 3 := blue c])"

definition pixel_offset :: "FrameBufferInfo \<Rightarrow> int \<Rightarrow> int \<Rightarrow> nat res" where
  "pixel_offset info x y =
     bind_res (usize_chk (as_usize y * fb_stride info)) (\<lambda>row.
     bind_res (usize_chk (row + as_usize x)) (\<lambda>p.
     usize_chk (p * fb_bytes_per_pixel info)))"

definition write_pixel_unchecked :: "int \<Rightarrow> int \<Rightarrow> Color \<Rightarrow> compositor \<Rightarrow> compositor res" where
  "write_pixel_unchecked x y color c =
     (let bpp = fb_bytes_per_pixel (fb_info c) in
      bind_res (pixel_offset (fb_info c) x y) (\<lambda>offset.
      bind_res (usize_chk (offset + bpp)) (\<lambda>last_byte.
      bind_res (slice_chk (fb_buffer c) offset last_byte) (\<lambda>_.
      bind_res (slice_chk (pixel_bytes (fb_pixel_format (fb_info c)) color) 0 bpp) (\<lambda>src.
      Inr (c\<lparr>fb_buffer := overwrite (fb_buffer c) offset src\<rparr>))))))"

definition on_screen :: "FrameBufferInfo \<Rightarrow> int \<Rightarrow> int \<Rightarrow> bool" where
  "on_screen info x y \<longleftrightarrow> \<not> (x < 0 \<or> y < 0 \<or> x \<ge> as_i32 (fb_width info) \<or> y \<ge> as_i32 (fb_height info))"

definition write_pixel :: "int \<Rightarrow> int \<Rightarrow> Color \<Rightarrow> compositor \<Rightarrow> compositor res" where
  "write_pixel x y color c = (if on_screen (fb_info c) x y then write_pixel_unchecked x y color c else Inr c)"

definition read_pixel :: "compositor \<Rightarrow> int \<Rightarrow> int \<Rightarrow> Color res" where
  "read_pixel c x y =
     (if \<not> on_screen (fb_info c) x y then Inr BLACK
      else
        bind_res (pixel_offset (fb_info c) x y) (\<lambda>offset.
        case fb_pixel_format (fb_info c) of
          Rgb \<Rightarrow> bind_res (index_chk (fb_buffer c) offset) (\<lambda>r. bind_res (index_chk (fb_buffer c) (offset + 1)) (\<lambda>g.
                 map_res (\<lambda>b. color_new r g b) (index_chk (fb_buffer c) (offset + 2))))
        | Bgr \<Rightarrow> bind_res (index_chk (fb_buffer c) (offset + 2)) (\<lambda>r. bind_res (index_chk (fb_buffer c) (offset + 1)) (\<lambda>g.
                 map_res (\<lambda>b. color_new r g b) (index_chk (fb_buffer c) offset)))
        | _ \<Rightarrow> Inr BLACK))"

definition clear :: "Color \<Rightarrow> compositor \<Rightarrow> compositor res" where
  "clear color c =
     for_each (\<lambda>y. for_each (\<lambda>x. write_pixel (as_i32 x) (as_i32 y) color) [0..<fb_width (fb_info c)])
       [0..<fb_height (fb_info c)] c"

definition draw_window_pixel :: "Window \<Rightarrow> int \<Rightarrow> int \<Rightarrow> compositor \<Rightarrow> compositor res" where
  "draw_window_pixel w local_y local_x c =
     bind_res (i32_chk (local_y * win_width w)) (\<lambda>row.
     bind_res (i32_chk (row + local_x)) (\<lambda>idx.
     bind_res (index_chk (win_pixels w) (as_usize idx)) (\<lambda>src.
     bind_res (i32_chk (win_x w + local_x)) (\<lambda>gx.
     bind_res (i32_chk (win_y w + local_y)) (\<lambda>gy.
     if alpha src = 255 then write_pixel_unchecked gx gy src c
     else if alpha src \<noteq> 0 then
       bind_res (read_pixel c gx gy) (\<lambda>dst.
       bind_res (blend src dst) (\<lambda>col. write_pixel_unchecked gx gy col c))
     else Inr c)))))"

definition draw_window :: "Window \<Rightarrow> compositor \<Rightarrow> compositor res" where
  "draw_window w = for_each (\<lambda>ly. for_each (draw_window_pixel w ly) [0..win_width w - 1]) [0..win_height w - 1]"

definition render_windows :: "compositor \<Rightarrow> compositor res" where
  "render_windows c0 =
     bind_res (clear DARK_GRAY c0) (\<lambda>c1.
     for_each (\<lambda>i c. case windows c ! i of
          Some w \<Rightarrow> if win_visible w then draw_window w c else Inr c
        | None \<Rightarrow> Inr c) [0..<length (windows c1)] c1)"

section \<open>Text\<close>

text \<open>The glyphs, by character code, as seven rows of five bits.\<close>

definition FONT :: "(nat \<times> bytes) list" where
  "FONT = [
      (48, [0x0E, 0x11, 0x13, 0x15, 0x19, 0x11, 0x0E]),
      (49, [0x04, 0x0C, 0x04, 0x04, 0x04, 0x04, 0x0E]),
      (50, [0x0E, 0x11, 0x01, 0x02, 0x04, 0x08, 0x1F]),
      (51, [0x0E, 0x11, 0x01, 0x06, 0x01, 0x11, 0x0E]),
      (52, [0x02, 0x06, 0x0A, 0x12, 0x1F, 0x02, 0x02]),
      (53, [0x1F, 0x10, 0x1E, 0x01, 0x01, 0x11, 0x0E]),
      (54, [0x06, 0x08, 0x10, 0x1E, 0x11, 0x11, 0x0E]),
      (55, [0x1F, 0x01, 0x02, 0x04, 0x08, 0x08, 0x08]),
      (56, [0x0E, 0x11, 0x11, 0x0E, 0x11, 0x11, 0x0E]),
      (57, [0x0E, 0x11, 0x11, 0x0F, 0x01, 0x02, 0x0C]),
      (65, [0x04, 0x0A, 0x11, 0x11, 0x1F, 0x11, 0x11]),
      (66, [0x1E, 0x11, 0x11, 0x1E, 0x11, 0x11, 0x1E]),
      (67, [0x0E, 0x11, 0x10, 0x10, 0x10, 0x11, 0x0E]),
      (68, [0x1E, 0x11, 0x11, 0x11, 0x11, 0x11, 0x1E]),
      (69, [0x1F, 0x10, 0x10, 0x1E, 0x10, 0x10, 0x1F]),
      (70, [0x1F, 0x10, 0x10, 0x1E, 0x10, 0x10, 0x10]),
      (71, [0x0E, 0x11, 0x10, 0x13, 0x11, 0x11, 0x0E]),
      (72, [0x11, 0x11, 0x11, 0x1F, 0x11, 0x11, 0x11]),
      (73, [0x0E, 0x04, 0x04, 0x04, 0x04, 0x04, 0x0E]),
      (74, [0x01, 0x01, 0x01, 0x01, 0x11, 0x11, 0x0E]),
      (75, [0x11, 0x12, 0x14, 0x18, 0x14, 0x12, 0x11]),
      (76, [0x10, 0x10, 0x10, 0x10, 0x10, 0x10, 0x1F]),
      (77, [0x11, 0x1B, 0x15, 0x11, 0x11, 0x11, 0x11]),
      (78, [0x11, 0x19, 0x15, 0x13, 0x11, 0x11, 0x11]),
      (79, [0x0E, 0x11, 0x11, 0x11, 0x11, 0x11, 0x0E]),
      (80, [0x1E, 0x11, 0x11, 0x1E, 0x10, 0x10, 0x10]),
      (81, [0x0E, 0x11, 0x11, 0x11, 0x15, 0x12, 0x0D]),
      (82, [0x1E, 0x11, 0x11, 0x1E, 0x12, 0x11, 0x11]),
      (83, [0x0F, 0x10, 0x10, 0x0E, 0x01, 0x01, 0x1E]),
      (84, [0x1F, 0x04, 0x04, 0x04, 0x04, 0x04, 0x04]),
      (85, [0x11, 0x11, 0x11, 0x11, 0x11, 0x11, 0x0E]),
      (86, [0x11, 0x11, 0x11, 0x11, 0x11, 0x0A, 0x04]),
      (87, [0x11, 0x11, 0x11, 0x15, 0x15, 0x15, 0x0A]),
      (88, [0x11, 0x11, 0x0A, 0x04, 0x0A, 0x11, 0x11]),
      (89, [0x11, 0x11, 0x0A, 0x04, 0x04, 0x04, 0x04]),
      (90, [0x1F, 0x01, 0x02, 0x04, 0x08, 0x10, 0x1F]),
      (32, [0x00, 0x00, 0x00, 0x00, 0x00, 0x00, 0x00]),
      (46, [0x00, 0x00, 0x00, 0x00, 0x00, 0x06, 0x06]),
      (44, [0x00, 0x00, 0x00, 0x00, 0x00, 0x06, 0x04]),
      (58, [0x00, 0x06, 0x06, 0x00, 0x06, 0x06, 0x00]),
      (45, [0x00, 0x00, 0x00, 0x1F, 0x00, 0x00, 0x00]),
      (33, [0x04, 0x04, 0x04, 0x04, 0x04, 0x00, 0x04]),
      (63, [0x0E, 0x11, 0x01, 0x02, 0x04, 0x00, 0x04])]"

definition glyph_for :: "nat \<Rightarrow> bytes" where
  "glyph_for ch = (case map_of FONT ch of Some rows \<Rightarrow> rows | None \<Rightarrow> snd (FONT ! (length FONT - 6)))"

definition draw_glyph_pixel :: "bytes \<Rightarrow> int \<Rightarrow> int \<Rightarrow> Color \<Rightarrow> nat \<Rightarrow> nat \<Rightarrow> Window \<Rightarrow> Window res" where
  "draw_glyph_pixel rows cursor_x y color row col w =
     (if bit (rows ! row) (4 - col) then
        bind_res (i32_chk (cursor_x + int col)) (\<lambda>px.
        bind_res (i32_chk (y + int row)) (\<lambda>py.
        if px \<ge> 0 \<and> px < win_width w \<and> py \<ge> 0 \<and> py < win_height w then
          bind_res (i32_chk (py * win_width w)) (\<lambda>r.
          bind_res (i32_chk (r + px)) (\<lambda>index.
          map_res (\<lambda>ps. w\<lparr>win_pixels := ps\<rparr>) (update_chk (win_pixels w) (as_usize index) color)))
        else Inr w))
      else Inr w)"

definition draw_glyph :: "bytes \<Rightarrow> int \<Rightarrow> int \<Rightarrow> Color \<Rightarrow> Window \<Rightarrow> Window res" where
  "draw_glyph rows cursor_x y color =
     for_each (\<lambda>row. for_each (\<lambda>col. draw_glyph_pixel rows cursor_x y color row col) [0..<5]) [0..<7]"

fun draw_chars :: "nat list \<Rightarrow> int \<Rightarrow> int \<Rightarrow> Color \<Rightarrow> Window \<Rightarrow> Window res" where
  "draw_chars [] cursor_x y color w = Inr w"
| "draw_chars (ch # text) cursor_x y color w =
     bind_res (i32_chk (cursor_x + 5)) (\<lambda>right.
     if right > win_width w then Inr w
     else
       bind_res (draw_glyph (glyph_for ch) cursor_x y color w) (\<lambda>w'.
       bind_res (i32_chk (cursor_x + 6)) (\<lambda>nxt. draw_chars text nxt y color w')))"

definition font_draw_text :: "nat list \<Rightarrow> int \<Rightarrow> int \<Rightarrow> Color \<Rightarrow> Window \<Rightarrow> Window res" where
  "font_draw_text text x y color w = draw_chars text x y color w"

section \<open>The cursor\<close>

definition CURSOR :: "u16 list" where
  "CURSOR = [0xC000, 0xE000, 0xF000, 0xF800, 0xFC00, 0xFE00, 0xFF00, 0xFF80,
     0xFFC0, 0xFFE0, 0xFFF0, 0xFC00, 0xE780, 0xC780, 0x0380, 0x0300]"

definition draw_cursor_pixel :: "int \<Rightarrow> int \<Rightarrow> nat \<Rightarrow> nat \<Rightarrow> compositor \<Rightarrow> compositor res" where
  "draw_cursor_pixel x y row col c =
     (let mask = CURSOR ! row;
          put = (\<lambda>color. bind_res (i32_chk (x + int col)) (\<lambda>px. bind_res (i32_chk (y + int row)) (\<lambda>py. write_pixel px py color c)))
      in if mask AND drop_bit col 0x8000 \<noteq> 0 then put WHITE
         else if col > 0 \<and> mask AND drop_bit (col - 1) 0x8000 \<noteq> 0 then put BLACK
         else Inr c)"

definition draw_cursor :: "int \<Rightarrow> int \<Rightarrow> compositor \<Rightarrow> compositor res" where
  "draw_cursor x y = for_each (\<lambda>row. for_each (draw_cursor_pixel x y row) [0..<16]) [0..<16]"

end
