(* ===== verification/Rendering.thy ===== *)
theory Rendering
  imports Compositor
begin

text \<open>
  Correctness of the software renderer: blending, pixels of the frame buffer, and the refinement of \<open>render\<close> by
  the painter's algorithm on an abstract picture, a function from coordinates to colours.
\<close>

section \<open>Blending\<close>

definition mix :: "u8 \<Rightarrow> u8 \<Rightarrow> u8 \<Rightarrow> u8" where
  "mix a s d = of_nat ((unat s * unat a + unat d * (255 - unat a)) div 255)"

definition compose :: "Color \<Rightarrow> Color \<Rightarrow> Color" where
  "compose src dst =
     (if alpha src = 255 then src
      else if alpha src = 0 then dst
      else with_alpha (mix (alpha src) (red src) (red dst)) (mix (alpha src) (green src) (green dst))
             (mix (alpha src) (blue src) (blue dst)) 255)"

lemma unat_byte_le: "unat (b :: u8) \<le> 255"
  using unat_byte_less [of b] by simp

lemma weighted_bounds:
  assumes "a \<le> 255" "lo \<le> s" "lo \<le> d" "s \<le> hi" "d \<le> (hi :: nat)"
  shows "255 * lo \<le> s * a + d * (255 - a)" "s * a + d * (255 - a) \<le> 255 * hi"
proof -
  have e: "x * a + x * (255 - a) = 255 * x" for x using assms(1) by (simp flip: distrib_left)
  show "255 * lo \<le> s * a + d * (255 - a)"
    using add_mono [OF mult_le_mono1 [OF assms(2)] mult_le_mono1 [OF assms(3)], of a "255 - a"] e [of lo] by simp
  show "s * a + d * (255 - a) \<le> 255 * hi"
    using add_mono [OF mult_le_mono1 [OF assms(4)] mult_le_mono1 [OF assms(5)], of a "255 - a"] e [of hi] by simp
qed

lemma unat_mix: "unat (mix a s d) = (unat s * unat a + unat d * (255 - unat a)) div 255"
proof -
  have "unat s * unat a + unat d * (255 - unat a) \<le> 255 * 255"
    by (rule weighted_bounds(2) [of "unat a" 0]) (simp_all add: unat_byte_le)
  then have "(unat s * unat a + unat d * (255 - unat a)) div 255 < 256" by (simp add: div_less_iff_less_mult)
  then show ?thesis by (simp add: mix_def unat_of_nat)
qed

lemma blend_channel_mix:
  assumes "inv_sa = 255 - ucast a"
  shows "blend_channel s (ucast a) d inv_sa = Inr (mix a s d)"
proof -
  have u: "unat (ucast b :: u16) = unat b" for b :: u8
    using unat_byte_less [of b] by (simp add: unsigned_ucast_eq take_bit_nat_eq_self)
  have iu: "unat inv_sa = 255 - unat a"
    unfolding assms using unat_byte_le [of a] by (subst unat_sub_le) (simp_all add: word_le_nat_alt u)
  note b = unat_byte_le [of s] unat_byte_le [of d] unat_byte_le [of a]
  have m: "unat s * unat a \<le> 255 * 255" "unat d * (255 - unat a) \<le> 255 * 255"
    using mult_le_mono [OF b(1,3)] mult_le_mono [OF b(2), of "255 - unat a" 255] by simp_all
  have t: "unat s * unat a + unat d * (255 - unat a) \<le> 255 * 255"
    by (rule weighted_bounds(2) [of "unat a" 0]) (use b in simp_all)
  define n where "n = (ucast s * ucast a + ucast d * inv_sa :: u16)"
  have p: "unat (ucast s * ucast a :: u16) = unat s * unat a" "unat (ucast d * inv_sa :: u16) = unat d * (255 - unat a)"
    using m by (simp_all add: unat_word_ariths u iu)
  have n: "unat n = unat s * unat a + unat d * (255 - unat a)" using t p by (simp add: n_def unat_word_ariths)
  have "unat (n div 255) = unat (mix a s d)" by (simp add: unat_div n unat_mix)
  then have "(ucast (n div 255) :: u8) = mix a s d" by (metis of_nat_unat ucast_id)
  then show ?thesis using m t p by (simp add: blend_channel_def mul_chk_def add_chk_def u iu n_def)
qed

lemma blend_compose: "blend src dst = Inr (compose src dst)"
proof -
  have le: "(ucast (alpha src) :: u16) \<le> 255"
    using unat_byte_le [of "alpha src"] unat_byte_less [of "alpha src"]
    by (simp add: word_le_nat_alt unsigned_ucast_eq take_bit_nat_eq_self)
  then show ?thesis by (simp add: blend_def compose_def sub_chk_def blend_channel_mix Let_def)
qed

section \<open>Pixels\<close>

text \<open>What the renderer needs of the frame buffer: dimensions in the range of \<^verbatim>\<open>i32\<close>, lines no shorter than the visible
  width, three or four bytes per pixel in a known order, and room for every line.\<close>

definition fb_ok :: "compositor \<Rightarrow> bool" where
  "fb_ok c \<longleftrightarrow> (let i = fb_info c in
     fb_width i < 2 ^ 31 \<and> fb_height i < 2 ^ 31 \<and> fb_width i \<le> fb_stride i \<and>
     (fb_bytes_per_pixel i = 3 \<or> fb_bytes_per_pixel i = 4) \<and> (fb_pixel_format i = Rgb \<or> fb_pixel_format i = Bgr) \<and>
     fb_height i * fb_stride i * fb_bytes_per_pixel i \<le> length (fb_buffer c) \<and> length (fb_buffer c) < 2 ^ 64)"

definition opaque :: "Color \<Rightarrow> Color" where
  "opaque c = c\<lparr>alpha := 255\<rparr>"

text \<open>The picture a frame buffer shows.\<close>

definition view :: "compositor \<Rightarrow> int \<times> int \<Rightarrow> Color" where
  "view c p = (case read_pixel c (fst p) (snd p) of Inr col \<Rightarrow> col | Inl _ \<Rightarrow> BLACK)"

lemma as_i32_small: "n < 2 ^ 31 \<Longrightarrow> as_i32 n = int n"
  by (simp add: as_i32_def signed_of_nat signed_take_bit_int_eq_self)

lemma as_usize_small: "0 \<le> n \<Longrightarrow> n < 2 ^ 63 \<Longrightarrow> as_usize n = nat n"
  by (simp add: as_usize_def)

lemma on_screen_iff:
  assumes "fb_ok c"
  shows "on_screen (fb_info c) x y \<longleftrightarrow> 0 \<le> x \<and> 0 \<le> y \<and> x < int (fb_width (fb_info c)) \<and> y < int (fb_height (fb_info c))"
  using assms by (auto simp: on_screen_def fb_ok_def Let_def as_i32_small)

text \<open>The offset of a pixel on the screen, and that different pixels occupy disjoint bytes.\<close>

definition offset_of :: "compositor \<Rightarrow> int \<Rightarrow> int \<Rightarrow> nat" where
  "offset_of c x y = (nat y * fb_stride (fb_info c) + nat x) * fb_bytes_per_pixel (fb_info c)"

lemma offset_bound:
  assumes ok: "fb_ok c" and on: "on_screen (fb_info c) x y"
  shows "offset_of c x y + fb_bytes_per_pixel (fb_info c) \<le> length (fb_buffer c)"
proof -
  let ?i = "fb_info c" let ?b = "fb_bytes_per_pixel ?i"
  have xy: "nat x < fb_stride ?i" "Suc (nat y) \<le> fb_height ?i"
    using on ok by (auto simp: on_screen_iff [OF ok] fb_ok_def Let_def)
  have "nat y * fb_stride ?i + nat x + 1 \<le> Suc (nat y) * fb_stride ?i" using xy(1) by simp
  also have "\<dots> \<le> fb_height ?i * fb_stride ?i" using xy(2) by (rule mult_le_mono1)
  finally have "(nat y * fb_stride ?i + nat x + 1) * ?b \<le> fb_height ?i * fb_stride ?i * ?b" by (rule mult_le_mono1)
  also have "\<dots> \<le> length (fb_buffer c)" using ok by (simp add: fb_ok_def Let_def)
  finally show ?thesis by (simp add: offset_of_def algebra_simps)
qed

lemma pixel_offset_eq:
  assumes ok: "fb_ok c" and on: "on_screen (fb_info c) x y"
  shows "pixel_offset (fb_info c) x y = Inr (offset_of c x y)"
proof -
  let ?i = "fb_info c" let ?b = "fb_bytes_per_pixel ?i"
  have len: "length (fb_buffer c) < 2 ^ 64" and b: "0 < ?b" using ok by (auto simp: fb_ok_def Let_def)
  have o: "offset_of c x y < 2 ^ 64" using offset_bound [OF ok on] len by linarith
  have p: "nat y * fb_stride ?i + nat x \<le> offset_of c x y" using b by (simp add: offset_of_def)
  have "as_usize x = nat x" "as_usize y = nat y"
    using on ok by (auto simp: on_screen_iff [OF ok] fb_ok_def Let_def intro!: as_usize_small)
  moreover have "nat y * fb_stride ?i < 2 ^ 64" "nat y * fb_stride ?i + nat x < 2 ^ 64" using o p by linarith+
  ultimately show ?thesis using o by (simp add: pixel_offset_def usize_chk_def offset_of_def)
qed

lemma offset_inj:
  assumes ok: "fb_ok c" and on: "on_screen (fb_info c) x y" "on_screen (fb_info c) x' y'" and ne: "(x, y) \<noteq> (x', y')"
  shows "offset_of c x y + fb_bytes_per_pixel (fb_info c) \<le> offset_of c x' y' \<or>
    offset_of c x' y' + fb_bytes_per_pixel (fb_info c) \<le> offset_of c x y"
proof -
  let ?s = "fb_stride (fb_info c)" let ?b = "fb_bytes_per_pixel (fb_info c)"
  define p q where "p = nat y * ?s + nat x" and "q = nat y' * ?s + nat x'"
  have xs: "nat x < ?s" "nat x' < ?s" and pos: "0 \<le> x" "0 \<le> x'" "0 \<le> y" "0 \<le> y'"
    using on ok by (auto simp: on_screen_iff [OF ok] fb_ok_def Let_def)
  have "p \<noteq> q"
  proof
    assume "p = q"
    moreover have "p div ?s = nat y" "p mod ?s = nat x" "q div ?s = nat y'" "q mod ?s = nat x'"
      using xs by (simp_all add: p_def q_def)
    ultimately show False using ne pos by auto
  qed
  then have "Suc p \<le> q \<or> Suc q \<le> p" by linarith
  then have "Suc p * ?b \<le> q * ?b \<or> Suc q * ?b \<le> p * ?b" by (meson mult_le_mono1)
  then show ?thesis by (simp add: offset_of_def p_def q_def add.commute)
qed

text \<open>The channels of a pixel by byte position.\<close>

definition color_of_bytes :: "PixelFormat \<Rightarrow> bytes \<Rightarrow> Color" where
  "color_of_bytes f bs = (if f = Rgb then color_new (bs ! 0) (bs ! 1) (bs ! 2) else color_new (bs ! 2) (bs ! 1) (bs ! 0))"

lemma read_pixel_bytes:
  assumes ok: "fb_ok c" and on: "on_screen (fb_info c) x y"
  shows "read_pixel c x y = Inr (color_of_bytes (fb_pixel_format (fb_info c)) (drop (offset_of c x y) (fb_buffer c)))"
proof -
  have "offset_of c x y + 3 \<le> length (fb_buffer c)" using offset_bound [OF ok on] ok by (auto simp: fb_ok_def Let_def)
  then have ix: "index_chk (fb_buffer c) (offset_of c x y + k) = Inr (drop (offset_of c x y) (fb_buffer c) ! k)" if "k < 3" for k
    using that by (simp add: index_chk_def)
  have "fb_pixel_format (fb_info c) = Rgb \<or> fb_pixel_format (fb_info c) = Bgr" using ok by (simp add: fb_ok_def Let_def)
  then show ?thesis using on ix [of 0] ix [of 1] ix [of 2]
    by (auto simp: read_pixel_def pixel_offset_eq [OF ok on] color_of_bytes_def)
qed

lemma view_bytes:
  assumes "fb_ok c" "on_screen (fb_info c) x y"
  shows "view c (x, y) = color_of_bytes (fb_pixel_format (fb_info c)) (drop (offset_of c x y) (fb_buffer c))"
  by (simp add: view_def read_pixel_bytes [OF assms])

lemma view_off_screen: "\<not> on_screen (fb_info c) x y \<Longrightarrow> view c (x, y) = BLACK"
  by (simp add: view_def read_pixel_def)

lemma read_pixel_view: "fb_ok c \<Longrightarrow> read_pixel c x y = Inr (view c (x, y))"
  by (cases "on_screen (fb_info c) x y") (simp add: view_def read_pixel_bytes, simp add: view_def read_pixel_def)

lemma color_of_pixel_bytes:
  assumes "f = Rgb \<or> f = Bgr" "n = 3 \<or> n = 4"
  shows "color_of_bytes f (take n (pixel_bytes f col) @ zs) = opaque col"
  using assms by (cases col) (auto simp: color_of_bytes_def pixel_bytes_def color_new_def opaque_def)

lemma color_of_bytes_cong:
  "(\<And>k. k < 3 \<Longrightarrow> bs ! k = bs' ! k) \<Longrightarrow> color_of_bytes f bs = color_of_bytes f bs'"
  by (simp add: color_of_bytes_def)

text \<open>Writing a pixel on the screen changes the picture at that point only.\<close>

definition same_scene :: "compositor \<Rightarrow> compositor \<Rightarrow> bool" where
  "same_scene c c' \<longleftrightarrow> fb_info c' = fb_info c \<and> windows c' = windows c \<and> next_id c' = next_id c \<and>
     length (fb_buffer c') = length (fb_buffer c)"

lemma same_scene_refl [simp]: "same_scene c c"
  by (simp add: same_scene_def)

lemma same_scene_trans: "same_scene a b \<Longrightarrow> same_scene b c \<Longrightarrow> same_scene a c"
  by (simp add: same_scene_def)

lemma fb_ok_same: "same_scene c c' \<Longrightarrow> fb_ok c' = fb_ok c"
  by (simp add: same_scene_def fb_ok_def)

lemma write_pixel_effect:
  assumes ok: "fb_ok c" and on: "on_screen (fb_info c) x y"
  shows "\<exists>c'. write_pixel_unchecked x y col c = Inr c' \<and> same_scene c c' \<and> view c' = (view c)((x, y) := opaque col)"
proof -
  let ?i = "fb_info c" let ?b = "fb_bytes_per_pixel ?i" let ?f = "fb_pixel_format ?i" let ?o = "offset_of c x y"
  let ?bs = "take ?b (pixel_bytes ?f col)" let ?c = "c\<lparr>fb_buffer := overwrite (fb_buffer c) ?o ?bs\<rparr>"
  have b: "?b = 3 \<or> ?b = 4" and f: "?f = Rgb \<or> ?f = Bgr" and len: "length (fb_buffer c) < 2 ^ 64"
    using ok by (auto simp: fb_ok_def Let_def)
  have lb: "length ?bs = ?b" using b f by (auto simp: pixel_bytes_def)
  note bnd = offset_bound [OF ok on]
  have run: "write_pixel_unchecked x y col c = Inr ?c"
    using bnd len b f by (auto simp: write_pixel_unchecked_def pixel_offset_eq [OF ok on] usize_chk_def slice_chk_def pixel_bytes_def Let_def)
  have ss: "same_scene c ?c" using bnd lb by (simp add: same_scene_def length_overwrite)
  have ok': "fb_ok ?c" using fb_ok_same [OF ss] ok by simp
  have at: "overwrite (fb_buffer c) ?o ?bs ! j = (if ?o \<le> j \<and> j < ?o + ?b then ?bs ! (j - ?o) else fb_buffer c ! j)"
    if "j < length (fb_buffer c)" for j
    using that bnd lb nth_overwrite [of ?o "fb_buffer c" j ?bs] by simp
  have "view ?c (x', y') = ((view c)((x, y) := opaque col)) (x', y')" for x' y'
  proof (cases "on_screen ?i x' y'")
    case on': True
    have off: "offset_of ?c x' y' = offset_of c x' y'" by (simp add: offset_of_def)
    note v = view_bytes [OF ok', of x' y'] view_bytes [OF ok on']
    show ?thesis
    proof (cases "(x', y') = (x, y)")
      case True
      have "drop ?o (overwrite (fb_buffer c) ?o ?bs) = ?bs @ drop (?o + ?b) (fb_buffer c)"
        using bnd lb by (simp add: overwrite_def)
      then show ?thesis using v(1) on' True color_of_pixel_bytes [OF f b, of col] off by simp
    next
      case False
      have bnd': "offset_of c x' y' + ?b \<le> length (fb_buffer c)" by (rule offset_bound [OF ok on'])
      have apart: "?o + ?b \<le> offset_of c x' y' \<or> offset_of c x' y' + ?b \<le> ?o"
        using offset_inj [OF ok on on'] False by auto
      have "overwrite (fb_buffer c) ?o ?bs ! (offset_of c x' y' + k) = fb_buffer c ! (offset_of c x' y' + k)" if "k < 3" for k
        using that b bnd' apart by (subst at) (auto simp del: nth_append)
      then have "color_of_bytes ?f (drop (offset_of c x' y') (overwrite (fb_buffer c) ?o ?bs)) =
          color_of_bytes ?f (drop (offset_of c x' y') (fb_buffer c))"
        using b bnd bnd' lb by (intro color_of_bytes_cong) (simp add: length_overwrite)
      then show ?thesis using v on' False off by auto
    qed
  qed (use view_off_screen [of ?c x' y'] view_off_screen [of c x' y'] on in auto)
  then have "view ?c = (view c)((x, y) := opaque col)" by fastforce
  with run ss show ?thesis by blast
qed

section \<open>Loops that paint\<close>

text \<open>A loop whose body keeps an invariant and acts on an abstraction of the state acts on it as a fold.\<close>

lemma for_each_fold:
  assumes "\<And>x s. x \<in> set xs \<Longrightarrow> I s \<Longrightarrow> \<exists>s'. f x s = Inr s' \<and> I s' \<and> v s' = g x (v s)" and "I s"
  shows "\<exists>s'. for_each f xs s = Inr s' \<and> I s' \<and> v s' = fold g xs (v s)"
  using assms
proof (induction xs arbitrary: s)
  case (Cons x xs)
  obtain s' where s': "f x s = Inr s'" "I s'" "v s' = g x (v s)" using Cons.prems by force
  moreover obtain s'' where "for_each f xs s' = Inr s''" "I s''" "v s'' = fold g xs (v s')"
    using Cons.IH [OF Cons.prems(1) s'(2)] by auto
  ultimately show ?case by auto
qed simp

lemma fold_nested: "fold (\<lambda>y. fold (g y) xs) ys v = fold (\<lambda>p. g (fst p) (snd p)) (List.product ys xs) v"
  by (induction ys arbitrary: v) (simp_all add: fold_map comp_def)

text \<open>A fold of updates at pairwise different points.\<close>

lemma fold_points_other:
  "p \<notin> key ` set ks \<Longrightarrow> fold (\<lambda>k v. v(key k := h k (v (key k)))) ks v p = v p"
  by (induction ks arbitrary: v) auto

lemma fold_points_at:
  "inj_on key (set ks) \<Longrightarrow> distinct ks \<Longrightarrow> k \<in> set ks \<Longrightarrow>
   fold (\<lambda>k v. v(key k := h k (v (key k)))) ks v (key k) = h k (v (key k))"
proof (induction ks arbitrary: v)
  case (Cons x ks)
  show ?case
  proof (cases "k = x")
    case True
    have "key x \<notin> key ` set ks" using Cons.prems(1,2) by auto
    from fold_points_other [OF this, of h "v(key x := h x (v (key x)))"] show ?thesis using True by (simp add: fun_upd_def)
  next
    case False
    then have "k \<in> set ks" using Cons.prems(3) by simp
    moreover have "key k \<noteq> key x" using False Cons.prems(1,3) by (auto simp: inj_on_def)
    ultimately show ?thesis using Cons.IH [of "v(key x := h x (v (key x)))"] Cons.prems(1,2) by simp
  qed
qed simp

text \<open>Scenes that differ from a given one in their pixels only.\<close>

definition scene :: "compositor \<Rightarrow> compositor \<Rightarrow> bool" where
  "scene c0 c \<longleftrightarrow> same_scene c0 c \<and> fb_ok c"

lemma scene_info: "scene c0 c \<Longrightarrow> fb_info c = fb_info c0 \<and> windows c = windows c0"
  by (simp add: scene_def same_scene_def)

lemma scene_write:
  assumes "scene c0 c" "on_screen (fb_info c0) x y"
  shows "\<exists>c'. write_pixel_unchecked x y col c = Inr c' \<and> scene c0 c' \<and> view c' = (view c)((x, y) := opaque col)"
proof -
  have "fb_ok c" "on_screen (fb_info c) x y" using assms scene_info [OF assms(1)] by (simp_all add: scene_def)
  from write_pixel_effect [OF this, of col] show ?thesis
    using assms(1) fb_ok_same same_scene_trans unfolding scene_def by blast
qed

lemma opaque_simps [simp]: "opaque (color_new r g b) = color_new r g b" "opaque BLACK = BLACK"
  "opaque DARK_GRAY = DARK_GRAY" "opaque (opaque col) = opaque col" "alpha (opaque col) = 255"
  by (simp_all add: opaque_def color_new_def BLACK_def DARK_GRAY_def)

lemma opaque_view: "fb_ok c \<Longrightarrow> opaque (view c p) = view c p"
  by (cases p; cases "on_screen (fb_info c) (fst p) (snd p)")
    (simp_all add: view_bytes color_of_bytes_def view_off_screen)

lemma opaque_compose: "opaque d = d \<Longrightarrow> opaque (compose src d) = compose src d"
  by (cases src; cases d) (auto simp: compose_def opaque_def with_alpha_def)

subsection \<open>Clearing\<close>

definition blank :: "FrameBufferInfo \<Rightarrow> Color \<Rightarrow> int \<times> int \<Rightarrow> Color" where
  "blank info col p = (if on_screen info (fst p) (snd p) then col else BLACK)"

lemma clear_blank:
  assumes ok: "fb_ok c"
  shows "\<exists>c'. clear col c = Inr c' \<and> scene c c' \<and> view c' = blank (fb_info c) (opaque col)"
proof -
  let ?w = "fb_width (fb_info c)" let ?h = "fb_height (fb_info c)"
  let ?key = "\<lambda>p. (int (snd p), int (fst p))"
  let ?ps = "List.product [0..<?h] [0..<?w]"
  have bounds: "?w < 2 ^ 31" "?h < 2 ^ 31" using ok by (simp_all add: fb_ok_def Let_def)
  have step: "\<exists>s'. write_pixel (as_i32 x) (as_i32 y) col s = Inr s' \<and> scene c s' \<and>
      view s' = (view s)(?key (y, x) := opaque col)" if "x \<in> set [0..<?w]" "y \<in> set [0..<?h]" "scene c s" for x y s
  proof -
    have "on_screen (fb_info c) (int x) (int y)" using that by (simp add: on_screen_iff [OF ok])
    moreover have "as_i32 x = int x" "as_i32 y = int y" using that bounds by (simp_all add: as_i32_small)
    ultimately show ?thesis using scene_write [OF that(3), of "int x" "int y" col] scene_info [OF that(3)]
      by (simp add: write_pixel_def)
  qed
  have "\<exists>c'. clear col c = Inr c' \<and> scene c c' \<and>
      view c' = fold (\<lambda>y. fold (\<lambda>x v. v(?key (y, x) := opaque col)) [0..<?w]) [0..<?h] (view c)"
    unfolding clear_def by (intro for_each_fold step) (simp_all add: scene_def ok)
  then obtain c' where c': "clear col c = Inr c'" "scene c c'"
    "view c' = fold (\<lambda>p v. v(?key p := opaque col)) ?ps (view c)" unfolding fold_nested by auto
  have "view c' p = blank (fb_info c) (opaque col) p" for p
  proof (cases "on_screen (fb_info c) (fst p) (snd p)")
    case True
    then have "(nat (snd p), nat (fst p)) \<in> set ?ps" "?key (nat (snd p), nat (fst p)) = p"
      by (cases p; simp add: on_screen_iff [OF ok] nat_less_iff)+
    moreover have "inj_on ?key (set ?ps)" by (auto simp: inj_on_def)
    moreover have "distinct ?ps" by (simp add: distinct_product)
    ultimately show ?thesis
      using fold_points_at [of ?key ?ps "(nat (snd p), nat (fst p))" "\<lambda>_ _. opaque col" "view c"] c'(3) True
      by (simp add: blank_def)
  next
    case False
    then show ?thesis using view_off_screen [of c' "fst p" "snd p"] scene_info [OF c'(2)] by (simp add: blank_def)
  qed
  with c'(1,2) show ?thesis by blast
qed

subsection \<open>Windows\<close>

text \<open>A window the renderer can draw: its buffer has a colour for each of its pixels, and it lies on the screen.\<close>

definition window_fits :: "FrameBufferInfo \<Rightarrow> Window \<Rightarrow> bool" where
  "window_fits info w \<longleftrightarrow>
     0 \<le> win_width w \<and> 0 \<le> win_height w \<and> win_width w * win_height w < 2 ^ 31 \<and>
     length (win_pixels w) = nat (win_width w * win_height w) \<and>
     0 \<le> win_x w \<and> 0 \<le> win_y w \<and> win_x w + win_width w \<le> int (fb_width info) \<and> win_y w + win_height w \<le> int (fb_height info)"

text \<open>The picture with a window painted over it.\<close>

definition covers :: "Window \<Rightarrow> int \<times> int \<Rightarrow> bool" where
  "covers w p \<longleftrightarrow> win_x w \<le> fst p \<and> fst p < win_x w + win_width w \<and> win_y w \<le> snd p \<and> snd p < win_y w + win_height w"

definition window_pixel :: "Window \<Rightarrow> int \<times> int \<Rightarrow> Color" where
  "window_pixel w p = win_pixels w ! nat ((snd p - win_y w) * win_width w + (fst p - win_x w))"

definition paint_window :: "Window \<Rightarrow> (int \<times> int \<Rightarrow> Color) \<Rightarrow> int \<times> int \<Rightarrow> Color" where
  "paint_window w pic p = (if covers w p then compose (window_pixel w p) (pic p) else pic p)"

lemma row_major_bound:
  assumes "0 \<le> lx" "lx < W" "0 \<le> ly" "ly < (H :: int)"
  shows "0 \<le> ly * W" "ly * W + lx < W * H"
proof -
  have "(ly + 1) * W \<le> H * W" using assms by (intro mult_right_mono) auto
  then show "ly * W + lx < W * H" using assms by (simp add: algebra_simps)
  show "0 \<le> ly * W" using assms by simp
qed

lemma draw_window_pixel_effect:
  assumes ok: "fb_ok c" and fits: "window_fits (fb_info c) w" and sc: "scene c s"
    and lx: "0 \<le> lx" "lx < win_width w" and ly: "0 \<le> ly" "ly < win_height w"
  shows "\<exists>s'. draw_window_pixel w ly lx s = Inr s' \<and> scene c s' \<and>
    view s' = (view s)((win_x w + lx, win_y w + ly) := compose (win_pixels w ! nat (ly * win_width w + lx)) (view s (win_x w + lx, win_y w + ly)))"
proof -
  let ?i = "ly * win_width w + lx" let ?src = "win_pixels w ! nat ?i" let ?x = "win_x w + lx" let ?y = "win_y w + ly"
  note rm = row_major_bound [OF lx ly]
  have area: "win_width w * win_height w < 2 ^ 31" "length (win_pixels w) = nat (win_width w * win_height w)"
    using fits by (simp_all add: window_fits_def)
  have on: "on_screen (fb_info c) ?x ?y" using fits lx ly by (simp add: on_screen_iff [OF ok] window_fits_def)
  have small: "?x < 2 ^ 31" "?y < 2 ^ 31" "0 \<le> ?x" "0 \<le> ?y" using on ok by (auto simp: on_screen_iff [OF ok] fb_ok_def Let_def)
  have chk: "i32_chk (ly * win_width w) = Inr (ly * win_width w)" "i32_chk ?i = Inr ?i"
    "i32_chk ?x = Inr ?x" "i32_chk ?y = Inr ?y" using rm area small lx by (simp_all add: i32_chk_def)
  have "as_usize ?i = nat ?i" using rm area lx by (intro as_usize_small) auto
  then have ix: "index_chk (win_pixels w) (as_usize ?i) = Inr ?src" using rm area lx by (simp add: index_chk_def)
  have sok: "fb_ok s" using sc by (simp add: scene_def)
  note op = opaque_compose [OF opaque_view [OF sok], of ?src "(?x, ?y)"]
  consider "alpha ?src = 255" | "alpha ?src = 0" | "alpha ?src \<noteq> 255" "alpha ?src \<noteq> 0" by blast
  then show ?thesis
  proof cases
    case 1
    then have "compose ?src d = opaque ?src" for d by (cases ?src) (simp add: compose_def opaque_def)
    then show ?thesis using scene_write [OF sc on, of ?src] 1 by (simp add: draw_window_pixel_def chk ix)
  next
    case 2
    then have "compose ?src d = d" for d by (simp add: compose_def)
    then show ?thesis using sc 2 by (simp add: draw_window_pixel_def chk ix)
  next
    case 3
    then show ?thesis using scene_write [OF sc on, of "compose ?src (view s (?x, ?y))"] op
      by (simp add: draw_window_pixel_def chk ix read_pixel_view [OF sok] blend_compose)
  qed
qed

lemma draw_window_paints:
  assumes ok: "fb_ok c" and fits: "window_fits (fb_info c) w" and sc: "scene c s"
  shows "\<exists>s'. draw_window w s = Inr s' \<and> scene c s' \<and> view s' = paint_window w (view s)"
proof -
  let ?xs = "[0..win_width w - 1]" let ?ys = "[0..win_height w - 1]" let ?ps = "List.product ?ys ?xs"
  let ?key = "\<lambda>p. (win_x w + snd p, win_y w + fst p)"
  let ?h = "\<lambda>p d. compose (win_pixels w ! nat (fst p * win_width w + snd p)) d"
  have "\<exists>s'. draw_window w s = Inr s' \<and> scene c s' \<and>
      view s' = fold (\<lambda>y. fold (\<lambda>x v. v(?key (y, x) := ?h (y, x) (v (?key (y, x))))) ?xs) ?ys (view s)"
    unfolding draw_window_def
    by (intro for_each_fold) (use draw_window_pixel_effect [OF ok fits] sc in auto)
  then obtain s' where s': "draw_window w s = Inr s'" "scene c s'"
    "view s' = fold (\<lambda>p v. v(?key p := ?h p (v (?key p)))) ?ps (view s)" unfolding fold_nested by auto
  have "view s' p = paint_window w (view s) p" for p
  proof (cases "covers w p")
    case True
    let ?k = "(snd p - win_y w, fst p - win_x w)"
    have "?k \<in> set ?ps" "?key ?k = p" using True by (auto simp: covers_def)
    moreover have "inj_on ?key (set ?ps)" "distinct ?ps" by (auto simp: inj_on_def distinct_product)
    ultimately show ?thesis using fold_points_at [of ?key ?ps ?k ?h "view s"] True
      by (simp add: s'(3) paint_window_def window_pixel_def)
  next
    case False
    then have "p \<notin> ?key ` set ?ps" by (auto simp: covers_def)
    from fold_points_other [OF this, of ?h "view s"] show ?thesis using False by (simp add: s'(3) paint_window_def)
  qed
  with s'(1,2) show ?thesis by blast
qed

section \<open>Rendering a scene\<close>

definition visible_windows :: "compositor \<Rightarrow> Window list" where
  "visible_windows c = [w. Some w \<leftarrow> windows c, win_visible w]"

definition painter :: "FrameBufferInfo \<Rightarrow> Window list \<Rightarrow> int \<times> int \<Rightarrow> Color" where
  "painter info ws = fold paint_window ws (blank info DARK_GRAY)"

text \<open>A loop over the indices of a list that only looks at the elements.\<close>

lemma fold_index: "fold (\<lambda>i. g (xs ! i)) [0..<length xs] v = fold g xs v"
  by (simp add: fold_map [symmetric, unfolded comp_def] map_nth)

definition draw_slot :: "Window option \<Rightarrow> (int \<times> int \<Rightarrow> Color) \<Rightarrow> int \<times> int \<Rightarrow> Color" where
  "draw_slot slot = (case slot of Some w \<Rightarrow> if win_visible w then paint_window w else id | None \<Rightarrow> id)"

lemma fold_draw_slot: "fold draw_slot ws v = fold paint_window [w. Some w \<leftarrow> ws, win_visible w] v"
  by (induction ws arbitrary: v) (auto simp: draw_slot_def split: option.splits)

lemma visible_mem: "w \<in> set (visible_windows c) \<longleftrightarrow> Some w \<in> set (windows c) \<and> win_visible w"
  by (auto simp: visible_windows_def split: option.splits)

lemma render_windows_paints:
  assumes ok: "fb_ok c" and fits: "\<And>w. w \<in> set (visible_windows c) \<Longrightarrow> window_fits (fb_info c) w"
  shows "\<exists>c'. render_windows c = Inr c' \<and> scene c c' \<and> view c' = painter (fb_info c) (visible_windows c)"
proof -
  obtain c1 where c1: "clear DARK_GRAY c = Inr c1" "scene c c1" "view c1 = blank (fb_info c) DARK_GRAY"
    using clear_blank [OF ok, of DARK_GRAY] by auto
  let ?f = "\<lambda>i c. case windows c ! i of Some w \<Rightarrow> if win_visible w then draw_window w c else Inr c | None \<Rightarrow> Inr c"
  have step: "\<exists>s'. ?f i s = Inr s' \<and> scene c s' \<and> view s' = draw_slot (windows c ! i) (view s)"
    if i: "i \<in> set [0..<length (windows c1)]" and sc: "scene c s" for i s
  proof (cases "windows c ! i")
    case None
    then show ?thesis using sc scene_info [OF sc] by (simp add: draw_slot_def)
  next
    case (Some w)
    have "Some w \<in> set (windows c)" using i Some scene_info [OF c1(2)] nth_mem [of i "windows c"] by simp
    then have "win_visible w \<Longrightarrow> window_fits (fb_info c) w" by (simp add: fits visible_mem)
    then show ?thesis using draw_window_paints [OF ok _ sc, of w] Some sc scene_info [OF sc] by (auto simp: draw_slot_def)
  qed
  have "\<exists>c'. for_each ?f [0..<length (windows c1)] c1 = Inr c' \<and> scene c c' \<and>
      view c' = fold (\<lambda>i. draw_slot (windows c ! i)) [0..<length (windows c1)] (view c1)"
    using step c1(2) by (rule for_each_fold)
  moreover have "windows c1 = windows c" using scene_info [OF c1(2)] by simp
  ultimately show ?thesis
    by (auto simp: render_windows_def c1 painter_def visible_windows_def fold_draw_slot [symmetric] fold_index)
qed

section \<open>The cursor\<close>

text \<open>A white shape with a black edge to the right of it, clipped to the screen.\<close>

definition cursor_at :: "nat \<Rightarrow> nat \<Rightarrow> Color option" where
  "cursor_at row col =
     (if bit (CURSOR ! row) (15 - col) then Some WHITE
      else if 0 < col \<and> bit (CURSOR ! row) (16 - col) then Some BLACK
      else None)"

definition paint_cursor :: "FrameBufferInfo \<Rightarrow> int \<times> int \<Rightarrow> (int \<times> int \<Rightarrow> Color) \<Rightarrow> int \<times> int \<Rightarrow> Color" where
  "paint_cursor info pos pic p =
     (if fst pos \<le> fst p \<and> fst p < fst pos + 16 \<and> snd pos \<le> snd p \<and> snd p < snd pos + 16 \<and> on_screen info (fst p) (snd p)
      then (case cursor_at (nat (snd p - snd pos)) (nat (fst p - fst pos)) of Some col \<Rightarrow> col | None \<Rightarrow> pic p)
      else pic p)"

lemma cursor_mask:
  assumes "col < 16"
  shows "m AND drop_bit col 0x8000 \<noteq> 0 \<longleftrightarrow> bit (m :: u16) (15 - col)"
proof -
  have "(0x8000 :: u16) = 2 ^ 15" by simp
  then have "bit (0x8000 :: u16) n \<longleftrightarrow> n = 15" for n by (simp only: bit_exp_iff) auto
  then have "bit (drop_bit col (0x8000 :: u16)) n \<longleftrightarrow> col + n = 15" for n by (simp only: bit_drop_bit_eq comp_apply)
  moreover have "bit (2 ^ (15 - col) :: u16) n \<longleftrightarrow> col + n = 15" for n
    using assms by (simp only: bit_exp_iff possible_bit_word) auto
  ultimately have "bit (drop_bit col (0x8000 :: u16)) n \<longleftrightarrow> bit (2 ^ (15 - col) :: u16) n" for n by blast
  then have "drop_bit col (0x8000 :: u16) = 2 ^ (15 - col)" by (rule bit_eqI)
  then show ?thesis by (simp only: and_exp_eq_0_iff_not_bit) simp
qed

lemma draw_cursor_pixel_effect:
  assumes sc: "scene c s" and b: "row < 16" "col < 16" "- (2 ^ 31) \<le> x" "x + 15 < 2 ^ 31" "- (2 ^ 31) \<le> y" "y + 15 < 2 ^ 31"
  shows "\<exists>s'. draw_cursor_pixel x y row col s = Inr s' \<and> scene c s' \<and>
    view s' = (view s)((x + int col, y + int row) :=
      (if on_screen (fb_info c) (x + int col) (y + int row)
       then (case cursor_at row col of Some shade \<Rightarrow> shade | None \<Rightarrow> view s (x + int col, y + int row))
       else view s (x + int col, y + int row)))"
proof -
  let ?x = "x + int col" let ?y = "y + int row"
  have info: "fb_info s = fb_info c" using scene_info [OF sc] by simp
  have chk: "i32_chk ?x = Inr ?x" "i32_chk ?y = Inr ?y" using b by (simp_all add: i32_chk_def)
  have m: "CURSOR ! row AND drop_bit (col - 1) 0x8000 \<noteq> 0 \<longleftrightarrow> bit (CURSOR ! row) (16 - col)" if "0 < col"
    using cursor_mask [of "col - 1"] b that by (simp add: Suc_diff_le)
  have op: "opaque WHITE = WHITE" by (simp add: WHITE_def)
  have put: "\<exists>s'. write_pixel ?x ?y shade s = Inr s' \<and> scene c s' \<and>
      view s' = (view s)((?x, ?y) := (if on_screen (fb_info c) ?x ?y then opaque shade else view s (?x, ?y)))" for shade
    using scene_write [OF sc, of ?x ?y shade] sc info by (auto simp: write_pixel_def)
  show ?thesis
    using put [of WHITE] put [of BLACK] sc b m
    by (auto simp: draw_cursor_pixel_def cursor_at_def cursor_mask chk op Let_def)
qed

lemma draw_cursor_paints:
  assumes sc: "scene c s" and b: "- (2 ^ 31) \<le> x" "x + 15 < 2 ^ 31" "- (2 ^ 31) \<le> y" "y + 15 < 2 ^ 31"
  shows "\<exists>s'. draw_cursor x y s = Inr s' \<and> scene c s' \<and> view s' = paint_cursor (fb_info c) (x, y) (view s)"
proof -
  let ?ps = "List.product [0..<16] [0..<16] :: (nat \<times> nat) list"
  let ?key = "\<lambda>p. (x + int (snd p), y + int (fst p))"
  let ?h = "\<lambda>p d. if on_screen (fb_info c) (fst (?key p)) (snd (?key p)) then (case cursor_at (fst p) (snd p) of Some shade \<Rightarrow> shade | None \<Rightarrow> d) else d"
  have step: "\<exists>s'. draw_cursor_pixel x y r cl sa = Inr s' \<and> scene c s' \<and>
      view s' = (view sa)(?key (r, cl) := ?h (r, cl) (view sa (?key (r, cl))))"
    if "r \<in> set [0..<16]" "cl \<in> set [0..<16]" "scene c sa" for r cl sa
  proof -
    have "r < 16" "cl < 16" using that by simp_all
    then show ?thesis using draw_cursor_pixel_effect [OF that(3) _ _ b] by (simp only: fst_conv snd_conv)
  qed
  have "\<exists>s'. draw_cursor x y s = Inr s' \<and> scene c s' \<and>
      view s' = fold (\<lambda>r. fold (\<lambda>cl v. v(?key (r, cl) := ?h (r, cl) (v (?key (r, cl))))) [0..<16]) [0..<16] (view s)"
    unfolding draw_cursor_def by (intro for_each_fold step) (simp_all add: sc)
  then obtain s' where s': "draw_cursor x y s = Inr s'" "scene c s'"
    "view s' = fold (\<lambda>p v. v(?key p := ?h p (v (?key p)))) ?ps (view s)" unfolding fold_nested fst_conv snd_conv by blast
  have "view s' p = paint_cursor (fb_info c) (x, y) (view s) p" for p
  proof (cases "x \<le> fst p \<and> fst p < x + 16 \<and> y \<le> snd p \<and> snd p < y + 16")
    case True
    let ?k = "(nat (snd p - y), nat (fst p - x))"
    have mem: "?k \<in> set ?ps" using True by (simp add: nat_less_iff)
    have k: "?key ?k = p" using True by (cases p) simp
    have inj: "inj_on ?key (set ?ps)" and dist: "distinct ?ps" by (auto simp: inj_on_def distinct_product)
    from fold_points_at [OF inj dist mem, of ?h "view s"] have "view s' p = ?h ?k (view s p)" unfolding k s'(3) .
    then show ?thesis using True k by (simp add: paint_cursor_def)
  next
    case False
    then have "p \<notin> ?key ` set ?ps" by auto
    from fold_points_other [OF this, of ?h "view s"] show ?thesis using False by (auto simp: s'(3) paint_cursor_def)
  qed
  with s'(1,2) show ?thesis by blast
qed

section \<open>Windows beyond the screen\<close>

lemma for_each_panics:
  assumes "x \<in> set xs" "I s" and "\<And>y s s'. y \<in> set xs \<Longrightarrow> I s \<Longrightarrow> f y s = Inr s' \<Longrightarrow> I s'"
    and "\<And>s. I s \<Longrightarrow> panics (f x s)"
  shows "panics (for_each f xs s)"
  using assms
proof (induction xs arbitrary: s)
  case (Cons y ys)
  show ?case
  proof (cases "f y s")
    case (Inr s')
    then have "I s'" "x \<noteq> y" using Cons.prems(2,3) Cons.prems(4) [OF Cons.prems(2)] by auto
    then show ?thesis using Cons Inr by auto
  qed simp
qed simp

definition same_buffer :: "compositor \<Rightarrow> compositor \<Rightarrow> bool" where
  "same_buffer c s \<longleftrightarrow> fb_info s = fb_info c \<and> length (fb_buffer s) = length (fb_buffer c)"

lemma write_pixel_same_buffer:
  assumes "write_pixel_unchecked x y col s = Inr s'" "same_buffer c s"
  shows "same_buffer c s'"
  using assms
  by (auto simp: write_pixel_unchecked_def same_buffer_def bind_res_Inr_iff slice_chk_def length_overwrite usize_chk_def
      Let_def split: if_splits)

lemma draw_pixel_same_buffer:
  "draw_window_pixel w ly lx s = Inr s' \<Longrightarrow> same_buffer c s \<Longrightarrow> same_buffer c s'"
  by (auto simp: draw_window_pixel_def bind_res_Inr_iff split: if_splits intro: write_pixel_same_buffer)

lemma write_below_screen_panics:
  assumes ok: "fb_ok c" and same: "same_buffer c s" and y: "int (fb_height (fb_info c)) \<le> y" "y < 2 ^ 63"
    and exact: "length (fb_buffer c) = fb_height (fb_info c) * fb_stride (fb_info c) * fb_bytes_per_pixel (fb_info c)"
  shows "panics (write_pixel_unchecked x y col s)"
proof -
  let ?i = "fb_info c" let ?b = "fb_bytes_per_pixel ?i"
  have b: "0 < ?b" using ok by (auto simp: fb_ok_def Let_def)
  have uy: "fb_height ?i \<le> as_usize y" using y by (simp add: as_usize_small)
  have far: "length (fb_buffer c) < ofs + ?b" if ofs: "pixel_offset ?i x y = Inr ofs" for ofs
  proof -
    have "ofs = (as_usize y * fb_stride ?i + as_usize x) * ?b"
      using ofs by (auto simp: pixel_offset_def bind_res_Inr_iff usize_chk_def split: if_splits)
    moreover have "fb_height ?i * fb_stride ?i * ?b \<le> (as_usize y * fb_stride ?i + as_usize x) * ?b"
      by (intro mult_le_mono1 trans_le_add1 uy)
    ultimately show ?thesis using exact b by linarith
  qed
  show ?thesis
  proof (cases "pixel_offset ?i x y")
    case (Inr ofs)
    then show ?thesis using far [OF Inr] same
      by (auto simp: write_pixel_unchecked_def same_buffer_def usize_chk_def slice_chk_def Let_def)
  qed (use same in \<open>simp add: write_pixel_unchecked_def same_buffer_def Let_def\<close>)
qed

lemma draw_window_below_screen_panics:
  assumes ok: "fb_ok c" and y: "int (fb_height (fb_info c)) \<le> win_y w + ly"
    and exact: "length (fb_buffer c) = fb_height (fb_info c) * fb_stride (fb_info c) * fb_bytes_per_pixel (fb_info c)"
    and local: "0 \<le> lx" "lx < win_width w" "0 \<le> ly" "ly < win_height w"
    and seen: "\<And>src. src \<in> set (win_pixels w) \<Longrightarrow> alpha src \<noteq> 0"
  shows "panics (draw_window w c)"
proof -
  have step: "panics (draw_window_pixel w ly lx s)" if same: "same_buffer c s" for s
  proof (rule ccontr)
    assume "\<not> panics (draw_window_pixel w ly lx s)"
    then obtain s' where "draw_window_pixel w ly lx s = Inr s'" by (auto simp: not_panics_iff)
    then have "win_y w + ly < 2 ^ 31" "as_usize (ly * win_width w + lx) < length (win_pixels w)"
      and wr: "alpha (win_pixels w ! as_usize (ly * win_width w + lx)) = 0 \<or>
        (\<exists>gx col. write_pixel_unchecked gx (win_y w + ly) col s = Inr s')"
      by (auto simp: draw_window_pixel_def bind_res_Inr_iff i32_chk_def index_chk_def split: if_splits)
    then obtain gx col where "write_pixel_unchecked gx (win_y w + ly) col s = Inr s'" using seen nth_mem by blast
    then show False using write_below_screen_panics [OF ok same y _ exact, of gx col] \<open>win_y w + ly < 2 ^ 31\<close> by simp
  qed
  have row: "panics (for_each (draw_window_pixel w ly) [0..win_width w - 1] s)" if "same_buffer c s" for s
    by (rule for_each_panics [of lx _ "same_buffer c"]) (use local that step draw_pixel_same_buffer in auto)
  show ?thesis unfolding draw_window_def
  proof (rule for_each_panics [of ly _ "same_buffer c"])
    show "same_buffer c s'" if "same_buffer c s" "for_each (draw_window_pixel w i) [0..win_width w - 1] s = Inr s'" for i s s'
      by (rule for_each_invariant [OF that(2), of "same_buffer c"]) (use that draw_pixel_same_buffer in auto)
  qed (use local row in \<open>auto simp: same_buffer_def\<close>)
qed

section \<open>Blending stays between its colours\<close>

lemma mix_between: "min s d \<le> mix a s d \<and> mix a s d \<le> max s d"
proof -
  let ?n = "unat s * unat a + unat d * (255 - unat a)"
  have lo: "255 * min (unat s) (unat d) \<le> ?n" and hi: "?n \<le> 255 * max (unat s) (unat d)"
    using weighted_bounds [of "unat a" "min (unat s) (unat d)" "unat s" "unat d" "max (unat s) (unat d)"] by (simp_all add: unat_byte_le)
  have "255 * min (unat s) (unat d) div 255 \<le> ?n div 255" "?n div 255 \<le> 255 * max (unat s) (unat d) div 255"
    by (rule div_le_mono [OF lo]) (rule div_le_mono [OF hi])
  then have "min (unat s) (unat d) \<le> unat (mix a s d)" "unat (mix a s d) \<le> max (unat s) (unat d)"
    by (simp_all add: unat_mix)
  then show ?thesis by (auto simp: word_le_nat_alt min_def max_def split: if_splits)
qed

definition between :: "Color \<Rightarrow> Color \<Rightarrow> Color \<Rightarrow> bool" where
  "between a b c \<longleftrightarrow>
     min (red a) (red b) \<le> red c \<and> red c \<le> max (red a) (red b) \<and>
     min (green a) (green b) \<le> green c \<and> green c \<le> max (green a) (green b) \<and>
     min (blue a) (blue b) \<le> blue c \<and> blue c \<le> max (blue a) (blue b)"

text \<open>Blending never overflows and stays in range: the 16-bit arithmetic of \<open>blend\<close> succeeds for all colours, each channel
  of the result lies between the two it mixes, an opaque source replaces the destination and a transparent one keeps it.\<close>

theorem blend_between:
  "\<exists>col. blend src dst = Inr col \<and> between src dst col \<and> (alpha src = 255 \<longrightarrow> col = src) \<and> (alpha src = 0 \<longrightarrow> col = dst)"
  using mix_between by (simp add: blend_compose compose_def between_def with_alpha_def)

theorem blend_between_witness: "\<exists>col. blend (with_alpha 255 0 0 255) BLACK = Inr col \<and> col = with_alpha 255 0 0 255"
  using blend_between [of "with_alpha 255 0 0 255" BLACK] by (auto simp: with_alpha_def)

end
