(* ===== verification/Input.thy ===== *)
theory Input
  imports Bounded_Fifo
begin

text \<open>
  Keyboard and mouse input and the interrupt controller set-up
  (\<^verbatim>\<open>kernel/src/arch/x86_64/interrupts.rs\<close>). A handler takes the byte it reads from port 0x60
  as an argument and returns its port writes as a trace of \<open>(port, value)\<close> pairs. The
  keyboard's ring buffer is an instance of \<open>bounded_fifo\<close>.
\<close>

type_synonym port_trace = "(u16 \<times> u8) list"

definition PIC1_COMMAND :: u16 where "PIC1_COMMAND = 0x20"
definition PIC1_DATA :: u16 where "PIC1_DATA = 0x21"
definition PIC2_COMMAND :: u16 where "PIC2_COMMAND = 0xA0"
definition PIC2_DATA :: u16 where "PIC2_DATA = 0xA1"
definition PIC_EOI :: u8 where "PIC_EOI = 0x20"
definition KEYBOARD_BUF_SIZE :: nat where "KEYBOARD_BUF_SIZE = 32"

section \<open>Keyboard\<close>

record keyboard =
  kbuf :: "u8 list"
  khead :: nat
  ktail :: nat

definition initial_keyboard :: keyboard where
  "initial_keyboard = \<lparr>kbuf = replicate KEYBOARD_BUF_SIZE 0, khead = 0, ktail = 0\<rparr>"

definition keyboard_interrupt_handler :: "u8 \<Rightarrow> keyboard \<Rightarrow> keyboard \<times> port_trace" where
  "keyboard_interrupt_handler scancode k =
     (let next = (ktail k + 1) mod KEYBOARD_BUF_SIZE
      in (if next \<noteq> khead k then k\<lparr>kbuf := (kbuf k)[ktail k := scancode], ktail := next\<rparr> else k,
          [(PIC1_COMMAND, PIC_EOI)]))"

definition read_scancode :: "keyboard \<Rightarrow> u8 option \<times> keyboard" where
  "read_scancode k =
     (if khead k = ktail k then (None, k)
      else (Some (kbuf k ! khead k), k\<lparr>khead := (khead k + 1) mod KEYBOARD_BUF_SIZE\<rparr>))"

definition scancode_table :: "(u8 \<times> char) list" where
  "scancode_table =
     [(0x01, CHR 0x1B), (0x0E, CHR 0x08), (0x1C, CHR 0x0A), (0x39, CHR '' ''),
      (0x02, CHR ''1''), (0x03, CHR ''2''), (0x04, CHR ''3''), (0x05, CHR ''4''), (0x06, CHR ''5''),
      (0x07, CHR ''6''), (0x08, CHR ''7''), (0x09, CHR ''8''), (0x0A, CHR ''9''), (0x0B, CHR ''0''),
      (0x10, CHR ''q''), (0x11, CHR ''w''), (0x12, CHR ''e''), (0x13, CHR ''r''), (0x14, CHR ''t''),
      (0x15, CHR ''y''), (0x16, CHR ''u''), (0x17, CHR ''i''), (0x18, CHR ''o''), (0x19, CHR ''p''),
      (0x1E, CHR ''a''), (0x1F, CHR ''s''), (0x20, CHR ''d''), (0x21, CHR ''f''), (0x22, CHR ''g''),
      (0x23, CHR ''h''), (0x24, CHR ''j''), (0x25, CHR ''k''), (0x26, CHR ''l''),
      (0x2C, CHR ''z''), (0x2D, CHR ''x''), (0x2E, CHR ''c''), (0x2F, CHR ''v''), (0x30, CHR ''b''),
      (0x31, CHR ''n''), (0x32, CHR ''m'')]"

definition read_char :: "keyboard \<Rightarrow> char option \<times> keyboard" where
  "read_char k =
     (case read_scancode k of
        (None, k') \<Rightarrow> (None, k')
      | (Some scancode, k') \<Rightarrow> (map_of scancode_table scancode, k'))"

section \<open>Mouse\<close>

record mouse =
  mouse_x :: int
  mouse_y :: int
  mouse_btn :: u8
  mouse_cycle :: nat
  mouse_packet :: "u8 list"

definition initial_mouse :: mouse where
  "initial_mouse = \<lparr>mouse_x = 100, mouse_y = 100, mouse_btn = 0, mouse_cycle = 0, mouse_packet = [0, 0, 0]\<rparr>"

definition clamp :: "int \<Rightarrow> int \<Rightarrow> int \<Rightarrow> int" where
  "clamp n lo hi = (if n < lo then lo else if n > hi then hi else n)"

definition mouse_eoi :: port_trace where
  "mouse_eoi = [(PIC1_COMMAND, PIC_EOI), (PIC2_COMMAND, PIC_EOI)]"

definition mouse_interrupt_handler :: "u8 \<Rightarrow> mouse \<Rightarrow> (mouse \<times> port_trace) res" where
  "mouse_interrupt_handler byte m =
     (if mouse_cycle m = 0 \<and> byte AND 8 = 0 then Inr (m, mouse_eoi)
      else
        bind_res (update_chk (mouse_packet m) (mouse_cycle m) byte) (\<lambda>packet.
        let m1 = m\<lparr>mouse_packet := packet, mouse_cycle := (mouse_cycle m + 1) mod 3\<rparr>
        in if mouse_cycle m1 = 0 then
             let dx = sint (packet ! 1); dy = sint (packet ! 2) in
             bind_res (i32_chk (mouse_x m1 + dx)) (\<lambda>x.
             bind_res (i32_chk (mouse_y m1 - dy)) (\<lambda>y.
             Inr (m1\<lparr>mouse_x := clamp x 0 1279, mouse_y := clamp y 0 1023,
                     mouse_btn := packet ! 0 AND 7\<rparr>, mouse_eoi)))
           else Inr (m1, mouse_eoi)))"

definition mouse_position :: "mouse \<Rightarrow> int \<times> int" where
  "mouse_position m = (mouse_x m, mouse_y m)"

definition mouse_buttons :: "mouse \<Rightarrow> u8" where
  "mouse_buttons m = mouse_btn m"

section \<open>Interrupt controller\<close>

text \<open>The remapping sequence, given the two mask bytes read first; and the masks written by \<open>init\<close>.\<close>

definition remap_pic :: "u8 \<Rightarrow> u8 \<Rightarrow> port_trace" where
  "remap_pic a1 a2 =
     [(PIC1_COMMAND, 0x11), (PIC2_COMMAND, 0x11), (PIC1_DATA, 0x20), (PIC2_DATA, 0x28),
      (PIC1_DATA, 0x04), (PIC2_DATA, 0x02), (PIC1_DATA, 0x01), (PIC2_DATA, 0x01),
      (PIC1_DATA, a1), (PIC2_DATA, a2)]"

definition unmask_irqs :: port_trace where
  "unmask_irqs = [(PIC1_DATA, 0xFC), (PIC2_DATA, 0xFB)]"

text \<open>
  What the 8259 does with the trace once initialised: the last byte written to a data port is
  that chip's mask, a set bit of which disables the line; lines 8 to 15 need line 2 as well.
\<close>

fun last_write :: "u16 \<Rightarrow> port_trace \<Rightarrow> u8 \<Rightarrow> u8" where
  "last_write p [] v = v"
| "last_write p ((q, w) # tr) v = last_write p tr (if q = p then w else v)"

definition irq_enabled :: "port_trace \<Rightarrow> nat \<Rightarrow> bool" where
  "irq_enabled tr n \<longleftrightarrow>
     (let m1 = last_write PIC1_DATA tr 0xFF; m2 = last_write PIC2_DATA tr 0xFF
      in if n < 8 then \<not> bit m1 n else \<not> bit m1 2 \<and> \<not> bit m2 (n - 8))"

section \<open>The ring buffer is a bounded queue\<close>

definition kbd_inv :: "keyboard \<Rightarrow> bool" where
  "kbd_inv k \<longleftrightarrow> length (kbuf k) = 32 \<and> khead k < 32 \<and> ktail k < 32"

definition kbd_count :: "keyboard \<Rightarrow> nat" where
  "kbd_count k = (ktail k + 32 - khead k) mod 32"

definition kbd_contents :: "keyboard \<Rightarrow> u8 list" where
  "kbd_contents k = map (\<lambda>i. kbuf k ! ((khead k + i) mod 32)) [0..<kbd_count k]"

definition kbd_push :: "u8 \<Rightarrow> keyboard \<Rightarrow> keyboard option" where
  "kbd_push sc k = (if (ktail k + 1) mod 32 = khead k then None else Some (fst (keyboard_interrupt_handler sc k)))"

definition kbd_pop :: "keyboard \<Rightarrow> (u8 \<times> keyboard) option" where
  "kbd_pop k = (case read_scancode k of (None, _) \<Rightarrow> None | (Some sc, k') \<Rightarrow> Some (sc, k'))"

lemma ring_arith:
  assumes "(h :: nat) < 32" "t < 32"
  shows "(t + 32 - h) mod 32 \<le> 31"
    "(t + 32 - h) mod 32 = 31 \<longleftrightarrow> (t + 1) mod 32 = h"
    "(t + 32 - h) mod 32 = 0 \<longleftrightarrow> h = t"
    "(h + (t + 32 - h) mod 32) mod 32 = t"
    "(t + 1) mod 32 \<noteq> h \<Longrightarrow> ((t + 1) mod 32 + 32 - h) mod 32 = Suc ((t + 32 - h) mod 32)"
    "h \<noteq> t \<Longrightarrow> (t + 32 - h) mod 32 = Suc ((t + 32 - (h + 1) mod 32) mod 32)"
proof -
  have split: "(x :: nat) mod 32 = (if x < 32 then x else x - 32)" if "x < 64" for x
    using that by (simp add: le_mod_geq)
  show "(t + 32 - h) mod 32 \<le> 31" by (simp add: less_Suc_eq_le [symmetric])
  show "(t + 32 - h) mod 32 = 31 \<longleftrightarrow> (t + 1) mod 32 = h" using assms by (auto simp: split)
  show "(t + 32 - h) mod 32 = 0 \<longleftrightarrow> h = t" using assms by (auto simp: split)
  show "(h + (t + 32 - h) mod 32) mod 32 = t" using assms by (auto simp: split)
  show "((t + 1) mod 32 + 32 - h) mod 32 = Suc ((t + 32 - h) mod 32)" if "(t + 1) mod 32 \<noteq> h"
    using assms that by (cases "t = 31") (auto simp: split split: if_splits)
  show "(t + 32 - h) mod 32 = Suc ((t + 32 - (h + 1) mod 32) mod 32)" if "h \<noteq> t"
    using assms that by (cases "h = 31") (auto simp: split split: if_splits)
qed

lemma ring_index_inj:
  assumes "i < 32" "j < 32" "(h + i) mod 32 = (h + j) mod (32 :: nat)"
  shows "i = j"
proof -
  have *: "a = b" if "(h + a) mod 32 = (h + b) mod 32" "a \<le> b" "b < 32" for a b
  proof -
    from that(1,2) have "32 dvd (b - a)" by (metis add_diff_cancel_left mod_eq_dvd_iff_nat nat_add_left_cancel_le)
    moreover have "b - a < 32" using that(3) by simp
    ultimately have "b - a = 0" by (meson gr0I nat_dvd_not_less)
    then show ?thesis using that(2) by simp
  qed
  show ?thesis using * [of i j] * [of j i] assms by (metis nat_le_linear)
qed

lemma kbd_contents_push:
  assumes "kbd_inv k" "(ktail k + 1) mod 32 \<noteq> khead k"
  shows "kbd_contents (fst (keyboard_interrupt_handler sc k)) = kbd_contents k @ [sc]"
    "kbd_inv (fst (keyboard_interrupt_handler sc k))"
proof -
  let ?k = "fst (keyboard_interrupt_handler sc k)" and ?n = "kbd_count k"
  have b: "khead k < 32" "ktail k < 32" "length (kbuf k) = 32" using assms(1) by (auto simp: kbd_inv_def)
  have k: "?k = k\<lparr>kbuf := (kbuf k)[ktail k := sc], ktail := (ktail k + 1) mod 32\<rparr>"
    using assms(2) by (simp add: keyboard_interrupt_handler_def KEYBOARD_BUF_SIZE_def Let_def)
  have n: "kbd_count ?k = Suc ?n" "(khead k + ?n) mod 32 = ktail k" "?n < 31"
    using ring_arith [OF b(1,2)] assms(2) by (auto simp: kbd_count_def k)
  have "(kbuf k)[ktail k := sc] ! ((khead k + i) mod 32) = kbuf k ! ((khead k + i) mod 32)" if "i < ?n" for i
  proof -
    have "(khead k + i) mod 32 \<noteq> ktail k" using ring_index_inj [of i ?n "khead k"] n that by auto
    then show ?thesis by simp
  qed
  then show "kbd_contents ?k = kbd_contents k @ [sc]" using n b by (simp add: kbd_contents_def n(1)) (simp add: k)
  show "kbd_inv ?k" using b by (simp add: kbd_inv_def k)
qed

lemma kbd_contents_pop:
  assumes "kbd_inv k" "khead k \<noteq> ktail k"
  shows "kbd_contents k = kbuf k ! khead k # kbd_contents (snd (read_scancode k))"
    "kbd_inv (snd (read_scancode k))"
proof -
  let ?k = "snd (read_scancode k)"
  have b: "khead k < 32" "ktail k < 32" "length (kbuf k) = 32" using assms(1) by (auto simp: kbd_inv_def)
  have k: "?k = k\<lparr>khead := (khead k + 1) mod 32\<rparr>"
    using assms(2) by (simp add: read_scancode_def KEYBOARD_BUF_SIZE_def)
  have n: "kbd_count k = Suc (kbd_count ?k)" using ring_arith(6) [OF b(1,2) assms(2)] by (simp add: kbd_count_def k)
  show "kbd_contents k = kbuf k ! khead k # kbd_contents ?k"
    using b unfolding kbd_contents_def n
    by (simp add: upt_conv_Cons map_Suc_upt [symmetric] comp_def mod_simps k del: upt_Suc)
  show "kbd_inv ?k" using b by (simp add: kbd_inv_def k)
qed

interpretation kbd: bounded_fifo kbd_push kbd_pop kbd_contents 31 kbd_inv
proof
  fix k :: keyboard and x :: u8 and xs
  assume inv: "kbd_inv k"
  then have b: "khead k < 32" "ktail k < 32" by (auto simp: kbd_inv_def)
  note ar = ring_arith [OF b]
  have len: "length (kbd_contents k) = (ktail k + 32 - khead k) mod 32" by (simp add: kbd_contents_def kbd_count_def)
  show "\<exists>k'. kbd_push x k = Some k' \<and> kbd_inv k' \<and> kbd_contents k' = kbd_contents k @ [x]"
    if "length (kbd_contents k) < 31"
    using that ar(2) kbd_contents_push [OF inv] by (simp add: kbd_push_def len)
  show "kbd_push x k = None" if "length (kbd_contents k) = 31" using that ar(2) by (simp add: kbd_push_def len)
  show "kbd_pop k = None" if "kbd_contents k = []"
    using that ar(3) len by (simp add: kbd_pop_def read_scancode_def)
  show "\<exists>k'. kbd_pop k = Some (x, k') \<and> kbd_inv k' \<and> kbd_contents k' = xs" if "kbd_contents k = x # xs"
  proof -
    have ne: "khead k \<noteq> ktail k" using that ar(3) len by fastforce
    note p = kbd_contents_pop [OF inv ne]
    have "kbd_pop k = Some (kbuf k ! khead k, snd (read_scancode k))" using ne by (simp add: kbd_pop_def read_scancode_def)
    then show ?thesis using p that by auto
  qed
  show "length (kbd_contents k) \<le> 31" using ar(1) len by simp
qed

section \<open>Properties\<close>

text \<open>C32: up to 31 scancodes typed into an empty buffer are read back complete and in the order typed, whatever
  the positions of the ring's head and tail, and the buffer is empty again afterwards.\<close>

theorem keyboard_fifo:
  assumes "kbd_inv k" "kbd_contents k = []" "length scs \<le> 31"
  shows "\<exists>k2. pop_n kbd_pop (length scs) (fold (\<lambda>sc k. fst (keyboard_interrupt_handler sc k)) scs k) = (scs, k2) \<and>
    kbd_contents k2 = [] \<and> kbd_inv k2"
proof -
  have fold: "push_all kbd_push xs k = Some k1 \<Longrightarrow> fold (\<lambda>sc k. fst (keyboard_interrupt_handler sc k)) xs k = k1" for xs k k1
    by (induction xs arbitrary: k) (auto simp: kbd_push_def split: option.splits if_splits)
  from kbd.fifo_order [OF assms] show ?thesis using fold by metis
qed

theorem keyboard_fifo_witness:
  "\<exists>k2. pop_n kbd_pop 2 (fold (\<lambda>sc k. fst (keyboard_interrupt_handler sc k)) [0x1E, 0x30] initial_keyboard) = ([0x1E, 0x30], k2)"
  using keyboard_fifo [of initial_keyboard "[0x1E, 0x30]"]
  by (auto simp: initial_keyboard_def kbd_inv_def kbd_contents_def kbd_count_def KEYBOARD_BUF_SIZE_def numeral_2_eq_2)

definition mouse_inv :: "mouse \<Rightarrow> bool" where
  "mouse_inv m \<longleftrightarrow> 0 \<le> mouse_x m \<and> mouse_x m \<le> 1279 \<and> 0 \<le> mouse_y m \<and> mouse_y m \<le> 1023 \<and> unat (mouse_btn m) < 8 \<and>
     mouse_cycle m < 3 \<and> length (mouse_packet m) = 3"

lemma sint_byte: "-128 \<le> sint (b :: u8)" "sint (b :: u8) < 128"
  using sint_ge [of b] sint_lt [of b] by simp_all

lemma i32_chk_small: "\<bar>n\<bar> < 2000 \<Longrightarrow> i32_chk n = Inr n"
  by (auto simp: i32_chk_def)

lemma clamp_bounds: "lo \<le> hi \<Longrightarrow> lo \<le> clamp n lo hi \<and> clamp n lo hi \<le> hi"
  by (simp add: clamp_def)

lemma mouse_step:
  assumes "mouse_inv m"
  shows "mouse_interrupt_handler b m = Inr
    (if mouse_cycle m = 0 \<and> b AND 8 = 0 then m
     else if mouse_cycle m < 2 then m\<lparr>mouse_packet := (mouse_packet m)[mouse_cycle m := b], mouse_cycle := mouse_cycle m + 1\<rparr>
     else m\<lparr>mouse_packet := (mouse_packet m)[2 := b], mouse_cycle := 0,
            mouse_x := clamp (mouse_x m + sint (mouse_packet m ! 1)) 0 1279,
            mouse_y := clamp (mouse_y m - sint b) 0 1023, mouse_btn := mouse_packet m ! 0 AND 7\<rparr>, mouse_eoi)"
proof -
  have l: "length (mouse_packet m) = 3" "mouse_cycle m < 3" using assms by (auto simp: mouse_inv_def)
  have "i32_chk (mouse_x m + sint c) = Inr (mouse_x m + sint c)" "i32_chk (mouse_y m - sint c) = Inr (mouse_y m - sint c)"
    for c :: u8
    using assms sint_byte [of c] by (auto simp: mouse_inv_def intro!: i32_chk_small)
  moreover have "mouse_cycle m \<in> {0, 1, 2}" using l(2) by auto
  ultimately show ?thesis using l(1) by (auto simp: mouse_interrupt_handler_def update_chk_def Let_def)
qed

lemma low_three_bits: "unat (w AND 7 :: u8) < 8"
proof -
  have "w AND 7 = take_bit 3 w" by (simp add: take_bit_eq_mask mask_eq_exp_minus_1)
  then show ?thesis by (simp add: take_bit_eq_mod unat_mod)
qed

text \<open>C33: a mouse interrupt never panics and always acknowledges both interrupt controllers. On every branch it keeps the
  pointer on the 1280 by 1024 screen, the packet position below 3 and the buttons below 8. A byte without the
  start bit is ignored between packets; any other byte is stored at the packet position, which advances
  modulo 3. The third byte of a packet moves the pointer by the signed second byte to the right and by the signed third
  byte up, clamped to the screen, and takes the buttons from the low three bits of the first; the
  first two bytes change neither pointer nor buttons.\<close>

theorem mouse_interrupt_total:
  assumes "mouse_inv m"
  shows "\<exists>m'. mouse_interrupt_handler b m = Inr (m', mouse_eoi) \<and> mouse_inv m' \<and> unat (mouse_buttons m') < 8 \<and>
    (mouse_cycle m = 0 \<and> b AND 8 = 0 \<longrightarrow> m' = m) \<and>
    (\<not> (mouse_cycle m = 0 \<and> b AND 8 = 0) \<longrightarrow>
       mouse_packet m' = (mouse_packet m)[mouse_cycle m := b] \<and> mouse_cycle m' = (mouse_cycle m + 1) mod 3) \<and>
    (mouse_cycle m = 2 \<longrightarrow> mouse_buttons m' = mouse_packet m ! 0 AND 7 \<and>
       mouse_position m' = (clamp (mouse_x m + sint (mouse_packet m ! 1)) 0 1279, clamp (mouse_y m - sint b) 0 1023)) \<and>
    (mouse_cycle m < 2 \<longrightarrow> mouse_position m' = mouse_position m \<and> mouse_buttons m' = mouse_buttons m)"
proof -
  have "mouse_cycle m \<in> {0, 1, 2}" using assms by (auto simp: mouse_inv_def)
  then show ?thesis using assms low_three_bits clamp_bounds [of 0 1279] clamp_bounds [of 0 1023]
    by (auto simp: mouse_step [OF assms] mouse_inv_def mouse_position_def mouse_buttons_def)
qed

theorem mouse_interrupt_total_witness: "\<exists>m'. mouse_interrupt_handler 9 initial_mouse = Inr (m', mouse_eoi) \<and> mouse_inv m'"
  using mouse_interrupt_total [of initial_mouse 9] by (auto simp: initial_mouse_def mouse_inv_def)

text \<open>Of the lines the comment in \<open>init\<close> lists (timer 0, keyboard 1, mouse 12), only timer and keyboard are
  unmasked: the masks written leave line 12 disabled, and also the cascade line 2 it depends on.\<close>

theorem mouse_line_stays_masked:
  "irq_enabled (remap_pic a1 a2 @ unmask_irqs) n = (n = 0 \<or> n = 1)"
proof -
  have m: "last_write PIC1_DATA (remap_pic a1 a2 @ unmask_irqs) 0xFF = 0xFC"
    by (simp add: remap_pic_def unmask_irqs_def PIC1_DATA_def PIC2_DATA_def PIC1_COMMAND_def PIC2_COMMAND_def)
  have "bit (0xFC :: u8) n = (2 \<le> n)" if "n < 8" for n
  proof -
    have "n \<in> {0, 1, 2, 3, 4, 5, 6, 7}" using that by auto
    then show ?thesis by auto
  qed
  then show ?thesis unfolding irq_enabled_def Let_def m by auto
qed

end
