(* ===== verification/Desktop.thy ===== *)
theory Desktop
  imports Rendering Input Utf8
begin

text \<open>
  The desktop (\<^verbatim>\<open>kernel/src/gui/desktop.rs\<close>), the compositor's entry points (\<^verbatim>\<open>gui/mod.rs\<close>), the Win32
  desktops (\<^verbatim>\<open>win32/win32k.rs\<close>) and the idle loop of \<^verbatim>\<open>kernel_main\<close> that feeds them. One record holds the statics of
  these modules and the early heap their windows come from. A \<^verbatim>\<open>char\<close> is its code point.
\<close>

section \<open>Compositor entry points\<close>

record gui =
  gui_compositor :: "compositor option"
  gui_heap :: bump_allocator
  desktop_window :: "nat option"
  terminal_window :: "nat option"
  button_down_last :: bool
  terminal_text_len :: nat
  terminal_text :: bytes

definition initial_gui :: "bump_allocator \<Rightarrow> gui" where
  "initial_gui h =
     \<lparr>gui_compositor = None, gui_heap = h, desktop_window = None, terminal_window = None, button_down_last = False,
      terminal_text_len = 0, terminal_text = replicate 256 0\<rparr>"

definition init_compositor :: "bytes \<Rightarrow> FrameBufferInfo \<Rightarrow> gui \<Rightarrow> gui res" where
  "init_compositor buffer info g =
     bind_res (create_window (map of_char ''Desktop'') 0 0 (as_i32 (fb_width info)) (as_i32 (fb_height info))
       (gui_heap g) (new_compositor buffer info)) (\<lambda>(_, h, c).
     Inr (g\<lparr>gui_compositor := Some c, gui_heap := h\<rparr>))"

definition render :: "int \<times> int \<Rightarrow> gui \<Rightarrow> gui res" where
  "render pos g =
     (case gui_compositor g of
        None \<Rightarrow> Inr g
      | Some c \<Rightarrow>
          bind_res (render_windows c) (\<lambda>c1.
          bind_res (draw_cursor (fst pos) (snd pos) c1) (\<lambda>c2.
          Inr (g\<lparr>gui_compositor := Some c2\<rparr>))))"

definition gui_create_window :: "bytes \<Rightarrow> int \<Rightarrow> int \<Rightarrow> int \<Rightarrow> int \<Rightarrow> gui \<Rightarrow> (nat option \<times> gui) res" where
  "gui_create_window title x y width height g =
     (case gui_compositor g of
        None \<Rightarrow> Inr (None, g)
      | Some c \<Rightarrow>
          bind_res (create_window title x y width height (gui_heap g) c) (\<lambda>(i, h, c').
          Inr (Some i, g\<lparr>gui_compositor := Some c', gui_heap := h\<rparr>)))"

definition gui_draw_text :: "nat option \<Rightarrow> nat list \<Rightarrow> int \<Rightarrow> int \<Rightarrow> Color \<Rightarrow> gui \<Rightarrow> gui res" where
  "gui_draw_text wid text x y color g =
     (case (wid, gui_compositor g) of
        (Some i, Some c) \<Rightarrow>
          (case window_mut c i of
             None \<Rightarrow> Inr g
           | Some w \<Rightarrow>
               bind_res (font_draw_text text x y color w) (\<lambda>w'.
               Inr (g\<lparr>gui_compositor := Some (set_window i w' c)\<rparr>)))
      | _ \<Rightarrow> Inr g)"

definition gui_clear_window :: "nat option \<Rightarrow> Color \<Rightarrow> gui \<Rightarrow> gui" where
  "gui_clear_window wid color g =
     (case (wid, gui_compositor g) of
        (Some i, Some c) \<Rightarrow> g\<lparr>gui_compositor := Some (clear_window i color c)\<rparr>
      | _ \<Rightarrow> g)"

section \<open>Drawing on the desktop\<close>

definition TASKBAR_HEIGHT :: int where "TASKBAR_HEIGHT = 28"
definition BUTTON_WIDTH :: int where "BUTTON_WIDTH = 80"
definition BUTTON_HEIGHT :: int where "BUTTON_HEIGHT = 22"
definition BUTTON_X :: int where "BUTTON_X = 8"
definition BUTTON_Y :: int where "BUTTON_Y = 3"

definition put_pixel :: "nat \<Rightarrow> int \<Rightarrow> int \<Rightarrow> Color \<Rightarrow> gui \<Rightarrow> gui res" where
  "put_pixel i x y color g =
     (case gui_compositor g of
        None \<Rightarrow> Inr g
      | Some c \<Rightarrow>
          (case window_mut c i of
             None \<Rightarrow> Inr g
           | Some w \<Rightarrow>
               if x < 0 \<or> y < 0 \<or> x \<ge> win_width w \<or> y \<ge> win_height w then Inr g
               else
                 bind_res (i32_chk (y * win_width w)) (\<lambda>row.
                 bind_res (i32_chk (row + x)) (\<lambda>index.
                 bind_res (update_chk (win_pixels w) (as_usize index) color) (\<lambda>ps.
                 Inr (g\<lparr>gui_compositor := Some (set_window i (w\<lparr>win_pixels := ps\<rparr>) c)\<rparr>))))))"

definition fill_rect :: "nat \<Rightarrow> int \<Rightarrow> int \<Rightarrow> int \<Rightarrow> int \<Rightarrow> Color \<Rightarrow> gui \<Rightarrow> gui res" where
  "fill_rect i x0 y0 x1 y1 color = for_each (\<lambda>y. for_each (\<lambda>x. put_pixel i x y color) [x0..x1 - 1]) [y0..y1 - 1]"

definition draw_rect :: "nat \<Rightarrow> int \<Rightarrow> int \<Rightarrow> int \<Rightarrow> int \<Rightarrow> Color \<Rightarrow> gui \<Rightarrow> gui res" where
  "draw_rect i x0 y0 x1 y1 color g =
     bind_res (for_each (\<lambda>x g.
         bind_res (put_pixel i x y0 color g) (\<lambda>g1.
         bind_res (i32_chk (y1 - 1)) (\<lambda>y. put_pixel i x y color g1))) [x0..x1 - 1] g) (\<lambda>g'.
     for_each (\<lambda>y g.
         bind_res (put_pixel i x0 y color g) (\<lambda>g1.
         bind_res (i32_chk (x1 - 1)) (\<lambda>x. put_pixel i x y color g1))) [y0..y1 - 1] g')"

definition desktop_bounds :: "int \<times> int" where
  "desktop_bounds = (1280, 1024)"

definition draw_taskbar :: "nat \<Rightarrow> gui \<Rightarrow> gui res" where
  "draw_taskbar desktop g =
     bind_res (fill_rect desktop 0 0 (fst desktop_bounds) TASKBAR_HEIGHT (color_new 0x10 0x10 0x10) g) (\<lambda>g1.
     bind_res (fill_rect desktop BUTTON_X BUTTON_Y (BUTTON_X + BUTTON_WIDTH) (BUTTON_Y + BUTTON_HEIGHT) (color_new 0x40 0x40 0x40) g1) (\<lambda>g2.
     bind_res (draw_rect desktop BUTTON_X BUTTON_Y (BUTTON_X + BUTTON_WIDTH) (BUTTON_Y + BUTTON_HEIGHT) WHITE g2) (\<lambda>g3.
     gui_draw_text (Some desktop) (map of_char ''Terminal'') (BUTTON_X + 8) (BUTTON_Y + 7) WHITE g3)))"

definition draw_desktop :: "gui \<Rightarrow> gui res" where
  "draw_desktop g =
     (case desktop_window g of
        None \<Rightarrow> Inr g
      | Some desktop \<Rightarrow> draw_taskbar desktop (gui_clear_window (Some desktop) (color_new 0x20 0x40 0x60) g))"

definition desktop_init :: "int \<Rightarrow> int \<Rightarrow> gui \<Rightarrow> gui res" where
  "desktop_init screen_width screen_height g =
     bind_res (gui_create_window (map of_char ''Desktop'') 0 0 screen_width screen_height g) (\<lambda>(desktop, g1).
     draw_desktop (g1\<lparr>desktop_window := desktop\<rparr>))"

section \<open>The terminal\<close>

text \<open>\<^verbatim>\<open>str::chars\<close> on valid UTF-8.\<close>

fun utf8_chars :: "bytes \<Rightarrow> nat list" where
  "utf8_chars [] = []"
| "utf8_chars (b # bs) =
     (if b < 0x80 then unat b # utf8_chars bs
      else if b \<le> 0xDF then
        (case bs of c # cs \<Rightarrow> (unat b mod 32 * 64 + unat c mod 64) # utf8_chars cs | _ \<Rightarrow> [])
      else if b \<le> 0xEF then
        (case bs of c # d # cs \<Rightarrow> ((unat b mod 16 * 64 + unat c mod 64) * 64 + unat d mod 64) # utf8_chars cs | _ \<Rightarrow> [])
      else
        (case bs of c # d # e # cs \<Rightarrow>
           (((unat b mod 8 * 64 + unat c mod 64) * 64 + unat d mod 64) * 64 + unat e mod 64) # utf8_chars cs | _ \<Rightarrow> []))"

definition redraw_terminal :: "gui \<Rightarrow> gui res" where
  "redraw_terminal g =
     (case terminal_window g of
        None \<Rightarrow> Inr g
      | Some term \<Rightarrow>
          bind_res (gui_draw_text (Some term) (map of_char ''Aperture Terminal'') 12 12 WHITE (gui_clear_window (Some term) DARK_GRAY g)) (\<lambda>g1.
          bind_res (slice_chk (terminal_text g1) 0 (terminal_text_len g1)) (\<lambda>s.
          gui_draw_text (Some term) (utf8_chars (from_utf8_or_empty s)) 12 32 (color_new 0 0xFF 0) g1)))"

definition type_char :: "nat \<Rightarrow> gui \<Rightarrow> gui res" where
  "type_char ch g =
     (if terminal_window g = None then Inr g
      else
        bind_res
          (if ch = 0x0A then Inr (g\<lparr>terminal_text_len := 0\<rparr>)
           else if ch = 0x08 then
             Inr (if terminal_text_len g > 0 then g\<lparr>terminal_text_len := terminal_text_len g - 1\<rparr> else g)
           else if terminal_text_len g < length (terminal_text g) \<and> ch < 0x80 then
             bind_res (update_chk (terminal_text g) (terminal_text_len g) (of_nat ch)) (\<lambda>text.
             bind_res (usize_chk (terminal_text_len g + 1)) (\<lambda>len.
             Inr (g\<lparr>terminal_text := text, terminal_text_len := len\<rparr>)))
           else Inr g)
          redraw_terminal)"

definition open_terminal :: "gui \<Rightarrow> gui res" where
  "open_terminal g =
     bind_res
       (if terminal_window g = None then
          bind_res (gui_create_window (map of_char ''Terminal'') 100 100 480 320 g) (\<lambda>(i, g1).
          Inr (g1\<lparr>terminal_window := i\<rparr>))
        else Inr g)
       redraw_terminal"

definition point_in_rect :: "int \<Rightarrow> int \<Rightarrow> int \<Rightarrow> int \<Rightarrow> int \<Rightarrow> int \<Rightarrow> bool" where
  "point_in_rect x y x0 y0 x1 y1 \<longleftrightarrow> x \<ge> x0 \<and> x < x1 \<and> y \<ge> y0 \<and> y < y1"

definition handle_mouse :: "mouse \<Rightarrow> gui \<Rightarrow> (bool \<times> gui) res" where
  "handle_mouse m g =
     (let (mx, my) = mouse_position m;
          left_down = mouse_buttons m AND 1 \<noteq> 0
      in if left_down \<and> \<not> button_down_last g \<and>
            point_in_rect mx my BUTTON_X BUTTON_Y (BUTTON_X + BUTTON_WIDTH) (BUTTON_Y + BUTTON_HEIGHT)
         then map_res (\<lambda>g1. (True, g1\<lparr>button_down_last := left_down\<rparr>)) (open_terminal g)
         else Inr (False, g\<lparr>button_down_last := left_down\<rparr>))"

section \<open>Win32 desktops\<close>

record Desktop_entry =
  desktop_name :: bytes
  desktop_root :: nat

definition create_desktop ::
  "bytes \<Rightarrow> int \<Rightarrow> int \<Rightarrow> Desktop_entry option list \<Rightarrow> gui \<Rightarrow> (Desktop_entry option \<times> Desktop_entry option list \<times> gui) res" where
  "create_desktop name width height desktops g =
     bind_res (gui_create_window name 0 0 width height g) (\<lambda>(root, g').
     Inr (case root of
        None \<Rightarrow> (None, desktops, g')
      | Some root \<Rightarrow>
          let len = min (length name) 31;
              desktop = \<lparr>desktop_name = take len name @ replicate (32 - len) 0, desktop_root = root\<rparr>
          in case position (\<lambda>d. d = None) desktops of
               None \<Rightarrow> (None, desktops, g')
             | Some slot \<Rightarrow> (Some desktop, desktops[slot := Some desktop], g')))"

section \<open>The idle loop\<close>

text \<open>The part of \<^verbatim>\<open>kernel_main\<close> that brings up the screen, given the frame buffer of the boot information.\<close>

definition start_screen :: "(bytes \<times> FrameBufferInfo) option \<Rightarrow> mouse \<Rightarrow> gui \<Rightarrow> gui res" where
  "start_screen framebuffer m g =
     (case framebuffer of
        None \<Rightarrow> Inr g
      | Some (buffer, info) \<Rightarrow>
          bind_res (init_compositor buffer info g) (\<lambda>g1.
          bind_res (desktop_init (as_i32 (fb_width info)) (as_i32 (fb_height info)) g1) (\<lambda>g2.
          render (mouse_position m) g2)))"

text \<open>\<^verbatim>\<open>while let Some(ch) = read_char()\<close>; the outer option is \<^const>\<open>None\<close> when the loop does not end.\<close>

partial_function (option) drain_keys :: "keyboard \<Rightarrow> gui \<Rightarrow> (keyboard \<times> gui) res option" where
  "drain_keys k g =
     (case read_char k of
        (None, k') \<Rightarrow> Some (Inr (k', g))
      | (Some ch, k') \<Rightarrow>
          (case type_char (of_char ch) g of
             Inl e \<Rightarrow> Some (Inl e)
           | Inr g' \<Rightarrow> drain_keys k' g'))"

text \<open>The work of a round of the idle loop, as far as its \<^verbatim>\<open>halt_once\<close>.\<close>

definition idle_work :: "keyboard \<Rightarrow> mouse \<Rightarrow> gui \<Rightarrow> (keyboard \<times> gui) res option" where
  "idle_work k m g =
     map_option (\<lambda>r. bind_res r (\<lambda>(k', g1).
       bind_res (handle_mouse m g1) (\<lambda>(_, g2).
       bind_res (render (mouse_position m) g2) (\<lambda>g3. Inr (k', g3))))) (drain_keys k g)"

end
