(* ===== verification/Desktop_Properties.thy ===== *)
theory Desktop_Properties
  imports Desktop
begin

text \<open>
  The desktop never panics on a screen its windows fit on: drawing keeps the shape of every window, each event keeps
  the invariant, the terminal line is that of a line editor, and the work of every round of the idle loop ends with the frame buffer
  showing the windows and the cursor.
\<close>

section \<open>Steps that return and keep the frame\<close>

text \<open>
  What drawing code relies on: a relation between the states before and after that is reflexive and transitive and under
  which good states stay good. Sequences and loops of steps that return within it return within it. Windows and their
  shape, and the whole desktop and its windows' shapes, are two such relations.
\<close>

definition returns_in :: "('s \<Rightarrow> bool) \<Rightarrow> ('s \<Rightarrow> 's \<Rightarrow> bool) \<Rightarrow> ('s \<Rightarrow> 's res) \<Rightarrow> bool" where
  "returns_in good rel f \<longleftrightarrow> (\<forall>s. good s \<longrightarrow> (\<exists>s'. f s = Inr s' \<and> rel s s'))"

lemma returns_inD: "returns_in good rel f \<Longrightarrow> good s \<Longrightarrow> \<exists>s'. f s = Inr s' \<and> rel s s'"
  by (simp add: returns_in_def)

locale framed =
  fixes good :: "'s \<Rightarrow> bool" and rel :: "'s \<Rightarrow> 's \<Rightarrow> bool"
  assumes rel_refl: "rel s s"
    and rel_trans: "rel s t \<Longrightarrow> rel t u \<Longrightarrow> rel s u"
    and good_rel: "good s \<Longrightarrow> rel s t \<Longrightarrow> good t"
begin

lemma returns_skip: "returns_in good rel Inr"
  by (simp add: returns_in_def rel_refl)

lemma returns_pure: "(\<And>s. rel s (f s)) \<Longrightarrow> returns_in good rel (\<lambda>s. Inr (f s))"
  by (simp add: returns_in_def)

lemma returns_bind: "returns_in good rel f \<Longrightarrow> returns_in good rel h \<Longrightarrow> returns_in good rel (\<lambda>s. bind_res (f s) h)"
  unfolding returns_in_def by (metis bind_res_simps(2) good_rel rel_trans)

lemma returns_for_each: "(\<And>x. x \<in> set xs \<Longrightarrow> returns_in good rel (f x)) \<Longrightarrow> returns_in good rel (for_each f xs)"
proof (induction xs)
  case Nil
  show ?case using returns_skip by (simp add: returns_in_def)
next
  case (Cons x xs)
  then have "returns_in good rel (\<lambda>s. bind_res (f x s) (for_each f xs))" by (intro returns_bind) auto
  then show ?case by simp
qed

end

section \<open>Drawing keeps the shape of windows\<close>

definition same_frame :: "Window \<Rightarrow> Window \<Rightarrow> bool" where
  "same_frame w w' \<longleftrightarrow> w' = w\<lparr>win_pixels := win_pixels w'\<rparr> \<and> length (win_pixels w') = length (win_pixels w)"

lemma same_frame_refl [simp]: "same_frame w w"
  by (simp add: same_frame_def)

lemma same_frame_update [simp]: "same_frame w (w\<lparr>win_pixels := ps\<rparr>) \<longleftrightarrow> length ps = length (win_pixels w)"
  by (simp add: same_frame_def)

lemma same_frame_sel:
  assumes "same_frame w w'"
  shows "win_id w' = win_id w" "win_width w' = win_width w" "win_height w' = win_height w" "win_x w' = win_x w"
    "win_y w' = win_y w" "win_visible w' = win_visible w" "length (win_pixels w') = length (win_pixels w)"
proof -
  have e: "w' = w\<lparr>win_pixels := win_pixels w'\<rparr>" and l: "length (win_pixels w') = length (win_pixels w)"
    using assms by (simp_all add: same_frame_def)
  show "length (win_pixels w') = length (win_pixels w)" by (rule l)
  show "win_id w' = win_id w" "win_width w' = win_width w" "win_height w' = win_height w" "win_x w' = win_x w"
    "win_y w' = win_y w" "win_visible w' = win_visible w" by (subst e, simp)+
qed

lemma same_frame_trans: "same_frame a b \<Longrightarrow> same_frame b c \<Longrightarrow> same_frame a c"
  by (cases a; cases b; cases c) (simp add: same_frame_def)

lemma window_fits_frame: "same_frame w w' \<Longrightarrow> window_fits info w' = window_fits info w"
  using same_frame_sel [of w w'] by (simp add: window_fits_def)

definition window_ok :: "Window \<Rightarrow> bool" where
  "window_ok w \<longleftrightarrow> 0 \<le> win_width w \<and> 0 \<le> win_height w \<and> win_width w < 2 ^ 30 \<and> win_width w * win_height w < 2 ^ 31 \<and>
     length (win_pixels w) = nat (win_width w * win_height w)"

lemma window_ok_frame: "same_frame w w' \<Longrightarrow> window_ok w' = window_ok w"
  using same_frame_sel [of w w'] by (simp add: window_ok_def)

interpretation window_draw: framed window_ok same_frame
  by unfold_locales (auto simp: window_ok_frame intro: same_frame_trans)

text \<open>Writing one pixel of a window inside its bounds.\<close>

lemma window_pixel_write:
  assumes "window_ok w" "0 \<le> px" "px < win_width w" "0 \<le> py" "py < win_height w"
  shows "i32_chk (py * win_width w) = Inr (py * win_width w)" "i32_chk (py * win_width w + px) = Inr (py * win_width w + px)"
    "\<exists>ps. update_chk (win_pixels w) (as_usize (py * win_width w + px)) col = Inr ps \<and> length ps = length (win_pixels w)"
proof -
  note b = row_major_bound [OF assms(2-5)]
  have a: "win_width w * win_height w < 2 ^ 31" "length (win_pixels w) = nat (win_width w * win_height w)"
    using assms(1) by (simp_all add: window_ok_def)
  show "i32_chk (py * win_width w) = Inr (py * win_width w)" "i32_chk (py * win_width w + px) = Inr (py * win_width w + px)"
    using a b assms(2) by (simp_all add: i32_chk_def)
  have "as_usize (py * win_width w + px) = nat (py * win_width w + px)" using a b assms(2) by (intro as_usize_small) auto
  then show "\<exists>ps. update_chk (win_pixels w) (as_usize (py * win_width w + px)) col = Inr ps \<and> length ps = length (win_pixels w)"
    using a b assms(2) by (simp add: update_chk_def)
qed

lemma draw_glyph_pixel_frame:
  assumes "window_ok w" "- (2 ^ 31) \<le> cx" "cx + 5 < 2 ^ 31" "- (2 ^ 31) \<le> y" "y + 7 < 2 ^ 31" "row < 7" "col < 5"
  shows "\<exists>w'. draw_glyph_pixel rows cx y color row col w = Inr w' \<and> same_frame w w'"
proof (cases "0 \<le> cx + int col \<and> cx + int col < win_width w \<and> 0 \<le> y + int row \<and> y + int row < win_height w")
  case True
  have c: "i32_chk (cx + int col) = Inr (cx + int col)" "i32_chk (y + int row) = Inr (y + int row)"
    using assms by (simp_all add: i32_chk_def)
  show ?thesis
    using window_pixel_write(1,2) [OF assms(1), of "cx + int col" "y + int row"]
      window_pixel_write(3) [OF assms(1), of "cx + int col" "y + int row" color] True
    by (auto simp: draw_glyph_pixel_def c simp del: of_nat_add)
next
  case False
  then show ?thesis using assms by (auto simp: draw_glyph_pixel_def i32_chk_def)
qed

lemma draw_glyph_frame:
  assumes "- (2 ^ 31) \<le> cx" "cx + 5 < 2 ^ 31" "- (2 ^ 31) \<le> y" "y + 7 < 2 ^ 31"
  shows "returns_in window_ok same_frame (draw_glyph rows cx y color)"
  unfolding draw_glyph_def
  by (intro window_draw.returns_for_each) (auto simp: returns_in_def intro!: draw_glyph_pixel_frame assms)

lemma draw_chars_frame:
  assumes "window_ok w" "- (2 ^ 31) \<le> cx" "cx + 5 < 2 ^ 31" "- (2 ^ 31) \<le> y" "y + 7 < 2 ^ 31"
  shows "\<exists>w'. draw_chars chs cx y color w = Inr w' \<and> same_frame w w'"
  using assms
proof (induction chs arbitrary: cx w)
  case (Cons ch chs)
  have r: "i32_chk (cx + 5) = Inr (cx + 5)" using Cons.prems by (simp add: i32_chk_def)
  show ?case
  proof (cases "cx + 5 > win_width w")
    case False
    obtain w1 where w1: "draw_glyph (glyph_for ch) cx y color w = Inr w1" "same_frame w w1"
      using returns_inD [OF draw_glyph_frame [OF Cons.prems(2-)] Cons.prems(1)] by blast
    have "win_width w < 2 ^ 30" using Cons.prems(1) by (simp add: window_ok_def)
    then have n: "i32_chk (cx + 6) = Inr (cx + 6)" "cx + 6 + 5 < 2 ^ 31" using False Cons.prems(2) by (simp_all add: i32_chk_def)
    obtain w2 where "draw_chars chs (cx + 6) y color w1 = Inr w2" "same_frame w1 w2"
      using Cons.IH [of w1 "cx + 6"] Cons.prems w1(2) n by (auto simp: window_ok_frame)
    then show ?thesis using False r n(1) w1 same_frame_trans by auto
  qed (simp add: r)
qed simp

section \<open>Redrawing a scene\<close>

text \<open>Scenes with the same windows up to their pixels.\<close>

definition redrawn :: "compositor \<Rightarrow> compositor \<Rightarrow> bool" where
  "redrawn c c' \<longleftrightarrow> fb_info c' = fb_info c \<and> length (fb_buffer c') = length (fb_buffer c) \<and> next_id c' = next_id c \<and>
     list_all2 (rel_option same_frame) (windows c) (windows c')"

definition gui_redrawn :: "gui \<Rightarrow> gui \<Rightarrow> bool" where
  "gui_redrawn g g' \<longleftrightarrow> g' = g\<lparr>gui_compositor := gui_compositor g'\<rparr> \<and> rel_option redrawn (gui_compositor g) (gui_compositor g')"

lemma redrawn_refl [simp]: "redrawn c c"
  by (simp add: redrawn_def list.rel_refl option.rel_refl)

lemma redrawn_trans:
  assumes "redrawn a b" "redrawn b c"
  shows "redrawn a c"
proof -
  have "rel_option same_frame x z" if "rel_option same_frame x y" "rel_option same_frame y z" for x y z
    using that by (cases x; cases y; cases z) (auto intro: same_frame_trans)
  then have "list_all2 (rel_option same_frame) (windows a) (windows c)"
    using assms unfolding redrawn_def by (blast intro: list_all2_trans)
  then show ?thesis using assms by (simp add: redrawn_def)
qed

lemma gui_redrawn_refl [simp]: "gui_redrawn g g"
  by (simp add: gui_redrawn_def option.rel_refl)

lemma gui_redrawn_trans: "gui_redrawn a b \<Longrightarrow> gui_redrawn b c \<Longrightarrow> gui_redrawn a c"
  by (cases a; cases b; cases c; cases "gui_compositor a"; cases "gui_compositor b"; cases "gui_compositor c")
    (auto simp: gui_redrawn_def intro: redrawn_trans)

text \<open>The scenes the desktop works on: a good frame buffer of at least 580 by 420 pixels, windows all on it.\<close>

definition scene_ok :: "compositor \<Rightarrow> bool" where
  "scene_ok c \<longleftrightarrow> fb_ok c \<and> 580 \<le> fb_width (fb_info c) \<and> 420 \<le> fb_height (fb_info c) \<and> fb_width (fb_info c) < 2 ^ 30 \<and>
     (\<forall>w. Some w \<in> set (windows c) \<longrightarrow> window_fits (fb_info c) w)"

lemma list_all2_mem2: "list_all2 P xs ys \<Longrightarrow> y \<in> set ys \<Longrightarrow> \<exists>x\<in>set xs. P x y"
  by (metis in_set_conv_nth list_all2_conv_all_nth)

lemma scene_ok_redrawn:
  assumes ok: "scene_ok c" and r: "redrawn c c'"
  shows "scene_ok c'"
proof -
  have info: "fb_info c' = fb_info c" "length (fb_buffer c') = length (fb_buffer c)" using r by (simp_all add: redrawn_def)
  have "window_fits (fb_info c) w" if "Some w \<in> set (windows c')" for w
  proof -
    have "list_all2 (rel_option same_frame) (windows c) (windows c')" using r by (simp add: redrawn_def)
    from list_all2_mem2 [OF this that] obtain w0 where "Some w0 \<in> set (windows c)" "same_frame w0 w"
      by (auto simp: option_rel_Some2)
    then show ?thesis using ok window_fits_frame by (auto simp: scene_ok_def)
  qed
  then show ?thesis using ok info by (simp add: scene_ok_def fb_ok_def)
qed

lemma window_mutD:
  assumes "window_mut c i = Some w"
  obtains k where "window_index c i = Some k" "k < length (windows c)" "windows c ! k = Some w" "win_id w = i"
proof -
  obtain k where k: "window_index c i = Some k" "windows c ! k = Some w"
    using assms by (auto simp: window_mut_def split: option.splits)
  from k(1) have "k < length (windows c)" "win_id w = i"
    using position_SomeD(1,2) [OF k(1) [unfolded window_index_def]] k(2) by simp_all
  with k that show ?thesis by blast
qed

lemma window_mut_ok:
  assumes "scene_ok c" "window_mut c i = Some w"
  shows "window_ok w"
proof -
  have "Some w \<in> set (windows c)" using assms(2) by (metis nth_mem window_mutD)
  then have "window_fits (fb_info c) w" "fb_width (fb_info c) < 2 ^ 30" using assms(1) by (auto simp: scene_ok_def)
  then show ?thesis by (auto simp: window_fits_def window_ok_def)
qed

lemma set_window_redrawn:
  assumes "window_mut c i = Some w" "same_frame w w'"
  shows "redrawn c (set_window i w' c)"
proof -
  obtain k where k: "window_index c i = Some k" "k < length (windows c)" "windows c ! k = Some w"
    using assms(1) by (metis window_mutD)
  have "list_all2 (rel_option same_frame) (windows c) ((windows c)[k := Some w'])"
    using k assms(2) by (auto simp: list_all2_conv_all_nth nth_list_update option.rel_refl)
  then show ?thesis using k by (simp add: redrawn_def set_window_def)
qed

definition gui_scene :: "gui \<Rightarrow> bool" where
  "gui_scene g \<longleftrightarrow> (\<exists>c. gui_compositor g = Some c \<and> scene_ok c)"

lemma gui_scene_redrawn:
  assumes "gui_scene g" "gui_redrawn g g'"
  shows "gui_scene g'"
proof -
  obtain c where c: "gui_compositor g = Some c" "scene_ok c" using assms(1) by (auto simp: gui_scene_def)
  moreover have "rel_option redrawn (gui_compositor g) (gui_compositor g')" using assms(2) by (simp add: gui_redrawn_def)
  ultimately obtain c' where "gui_compositor g' = Some c'" "redrawn c c'" by (auto simp: option_rel_Some1)
  then show ?thesis using scene_ok_redrawn [OF c(2)] by (simp add: gui_scene_def)
qed

lemma gui_redrawn_set:
  assumes "gui_compositor g = Some c" "redrawn c c'"
  shows "gui_redrawn g (g\<lparr>gui_compositor := Some c'\<rparr>)"
  using assms by (simp add: gui_redrawn_def)

lemma gui_redrawn_sel:
  assumes "gui_redrawn g g'"
  shows "terminal_window g' = terminal_window g" "terminal_text g' = terminal_text g" "terminal_text_len g' = terminal_text_len g"
    "gui_heap g' = gui_heap g" "desktop_window g' = desktop_window g" "button_down_last g' = button_down_last g"
proof -
  have e: "g' = g\<lparr>gui_compositor := gui_compositor g'\<rparr>" using assms by (simp add: gui_redrawn_def)
  show "terminal_window g' = terminal_window g" "terminal_text g' = terminal_text g" "terminal_text_len g' = terminal_text_len g"
    "gui_heap g' = gui_heap g" "desktop_window g' = desktop_window g" "button_down_last g' = button_down_last g"
    by (subst e, simp)+
qed

lemma gui_clear_redraws: "gui_redrawn g (gui_clear_window wid color g)"
proof (cases "(wid, gui_compositor g)")
  case (Pair a b)
  show ?thesis
  proof (cases a; cases b)
    fix i c assume "a = Some i" "b = Some c"
    with Pair have g: "wid = Some i" "gui_compositor g = Some c" by auto
    have "redrawn c (clear_window i color c)"
      by (cases "window_mut c i") (simp_all add: clear_window_def set_window_redrawn)
    then show ?thesis using g gui_redrawn_set by (simp add: gui_clear_window_def)
  qed (use Pair in \<open>auto simp: gui_clear_window_def\<close>)
qed

lemma gui_draw_text_redraws:
  assumes "gui_scene g" "- (2 ^ 31) \<le> x" "x + 5 < 2 ^ 31" "- (2 ^ 31) \<le> y" "y + 7 < 2 ^ 31"
  shows "\<exists>g'. gui_draw_text wid chs x y color g = Inr g' \<and> gui_redrawn g g'"
proof -
  obtain c where c: "gui_compositor g = Some c" "scene_ok c" using assms(1) by (auto simp: gui_scene_def)
  show ?thesis
  proof (cases "\<exists>i w. wid = Some i \<and> window_mut c i = Some w")
    case True
    then obtain i w where i: "wid = Some i" "window_mut c i = Some w" by blast
    obtain w' where "draw_chars chs x y color w = Inr w'" "same_frame w w'"
      using draw_chars_frame [OF window_mut_ok [OF c(2) i(2)] assms(2-5)] by blast
    then show ?thesis using c i gui_redrawn_set [OF c(1)] set_window_redrawn [OF i(2)]
      by (simp add: gui_draw_text_def font_draw_text_def)
  qed (use c in \<open>auto simp: gui_draw_text_def split: option.splits\<close>)
qed

lemma put_pixel_redraws:
  assumes "gui_scene g"
  shows "\<exists>g'. put_pixel i x y color g = Inr g' \<and> gui_redrawn g g'"
proof -
  obtain c where c: "gui_compositor g = Some c" "scene_ok c" using assms by (auto simp: gui_scene_def)
  show ?thesis
  proof (cases "\<exists>w. window_mut c i = Some w \<and> 0 \<le> x \<and> x < win_width w \<and> 0 \<le> y \<and> y < win_height w")
    case True
    then obtain w where w: "window_mut c i = Some w" and b: "0 \<le> x" "x < win_width w" "0 \<le> y" "y < win_height w" by blast
    note ok = window_mut_ok [OF c(2) w]
    obtain ps where "update_chk (win_pixels w) (as_usize (y * win_width w + x)) color = Inr ps" "length ps = length (win_pixels w)"
      using window_pixel_write(3) [OF ok b] by blast
    then show ?thesis using c w b window_pixel_write(1,2) [OF ok b] gui_redrawn_set [OF c(1)] set_window_redrawn [OF w]
      by (simp add: put_pixel_def)
  qed (use c in \<open>auto simp: put_pixel_def split: option.splits\<close>)
qed

interpretation gui_draw: framed gui_scene gui_redrawn
  by unfold_locales (auto intro: gui_redrawn_trans gui_scene_redrawn)

abbreviation redraws :: "(gui \<Rightarrow> gui res) \<Rightarrow> bool" where
  "redraws \<equiv> returns_in gui_scene gui_redrawn"

lemma redraws_put_pixel: "redraws (put_pixel i x y color)"
  using put_pixel_redraws by (simp add: returns_in_def)

lemma redraws_draw_text:
  "- (2 ^ 31) \<le> x \<Longrightarrow> x + 5 < 2 ^ 31 \<Longrightarrow> - (2 ^ 31) \<le> y \<Longrightarrow> y + 7 < 2 ^ 31 \<Longrightarrow> redraws (gui_draw_text wid chs x y color)"
  using gui_draw_text_redraws unfolding returns_in_def by blast

lemma redraws_fill_rect: "redraws (fill_rect i x0 y0 x1 y1 color)"
  unfolding fill_rect_def by (intro gui_draw.returns_for_each redraws_put_pixel)

lemma redraws_draw_rect:
  assumes "- (2 ^ 31) < x1" "x1 \<le> 2 ^ 31" "- (2 ^ 31) < y1" "y1 \<le> 2 ^ 31"
  shows "redraws (draw_rect i x0 y0 x1 y1 color)"
proof -
  have "i32_chk (x1 - 1) = Inr (x1 - 1)" "i32_chk (y1 - 1) = Inr (y1 - 1)" using assms by (simp_all add: i32_chk_def)
  then show ?thesis unfolding draw_rect_def by (auto intro!: gui_draw.returns_bind gui_draw.returns_for_each redraws_put_pixel)
qed

lemma redraws_draw_taskbar: "redraws (draw_taskbar i)"
  unfolding draw_taskbar_def
  by (intro gui_draw.returns_bind redraws_fill_rect redraws_draw_rect redraws_draw_text)
    (simp_all add: BUTTON_X_def BUTTON_Y_def BUTTON_WIDTH_def BUTTON_HEIGHT_def)

lemma redraws_draw_desktop: "redraws draw_desktop"
proof -
  have "redraws (\<lambda>g. draw_taskbar i (gui_clear_window wid color g))" for i wid color
    using gui_draw.returns_bind [OF gui_draw.returns_pure [OF gui_clear_redraws] redraws_draw_taskbar] by simp
  then show ?thesis by (auto simp: returns_in_def draw_desktop_def split: option.splits)
qed

section \<open>The terminal\<close>

text \<open>Before the terminal is opened there is a free window slot, a fresh id and heap for its 480 by 320 pixels.\<close>

definition terminal_room :: "gui \<Rightarrow> bool" where
  "terminal_room g \<longleftrightarrow>
     (case gui_compositor g of None \<Rightarrow> False | Some c \<Rightarrow> None \<in> set (windows c) \<and> next_id c + 1 < 2 ^ 64) \<and>
     unat (bump_next (gui_heap g)) + 480 * 320 * 4 \<le> unat (bump_limit (gui_heap g))"

text \<open>The line editor: newline clears, backspace erases, ASCII characters are appended while there is room.\<close>

definition edit_line :: "nat \<Rightarrow> nat list \<Rightarrow> nat list" where
  "edit_line ch l =
     (if ch = 10 then [] else if ch = 8 then butlast l else if length l < 256 \<and> ch < 128 then l @ [ch] else l)"

definition line_of :: "gui \<Rightarrow> nat list" where
  "line_of g = map unat (take (terminal_text_len g) (terminal_text g))"

definition gui_ok :: "gui \<Rightarrow> bool" where
  "gui_ok g \<longleftrightarrow> gui_scene g \<and> length (terminal_text g) = 256 \<and> terminal_text_len g \<le> 256 \<and>
     (\<forall>n\<in>set (line_of g). n < 128) \<and> (terminal_window g = None \<longrightarrow> terminal_room g)"

lemma terminal_room_redrawn:
  assumes "terminal_room g" "gui_redrawn g g'"
  shows "terminal_room g'"
proof -
  obtain c where c: "gui_compositor g = Some c" "None \<in> set (windows c)" "next_id c + 1 < 2 ^ 64"
    using assms(1) by (auto simp: terminal_room_def split: option.splits)
  obtain c' where c': "gui_compositor g' = Some c'" "redrawn c c'"
    using assms(2) c(1) by (auto simp: gui_redrawn_def option_rel_Some1)
  then have "list_all2 (rel_option same_frame) (windows c) (windows c')" "next_id c' = next_id c" by (simp_all add: redrawn_def)
  moreover from this(1) c(2) have "None \<in> set (windows c')"
    by (metis in_set_conv_nth list_all2_conv_all_nth option_rel_Some2 option.exhaust option.distinct(1))
  ultimately show ?thesis using assms c c' gui_redrawn_sel [OF assms(2)] by (simp add: terminal_room_def)
qed

lemma line_of_redrawn: "gui_redrawn g g' \<Longrightarrow> line_of g' = line_of g"
  by (simp add: line_of_def gui_redrawn_sel)

lemma gui_ok_redrawn: "gui_ok g \<Longrightarrow> gui_redrawn g g' \<Longrightarrow> gui_ok g'"
  unfolding gui_ok_def using gui_redrawn_sel [of g g'] gui_scene_redrawn terminal_room_redrawn line_of_redrawn by metis

lemma redraw_terminal_redraws:
  assumes "gui_scene g" "terminal_text_len g \<le> length (terminal_text g)"
  shows "\<exists>g'. redraw_terminal g = Inr g' \<and> gui_redrawn g g'"
proof (cases "terminal_window g")
  case (Some i)
  let ?g0 = "gui_clear_window (Some i) DARK_GRAY g"
  have g0: "gui_redrawn g ?g0" by (rule gui_clear_redraws)
  have sc0: "gui_scene ?g0" by (rule gui_scene_redrawn [OF assms(1) g0])
  obtain g1 where g1: "gui_draw_text (Some i) (map of_char ''Aperture Terminal'') 12 12 WHITE ?g0 = Inr g1" "gui_redrawn ?g0 g1"
    using gui_draw_text_redraws [OF sc0, of 12 12 "Some i" "map of_char ''Aperture Terminal''" WHITE] by auto
  have r1: "gui_redrawn g g1" by (rule gui_redrawn_trans [OF g0 g1(2)])
  have "slice_chk (terminal_text g1) 0 (terminal_text_len g1) = Inr (take (terminal_text_len g1) (terminal_text g1))"
    using assms(2) gui_redrawn_sel [OF r1] by (simp add: slice_chk_def)
  then show ?thesis using Some g1 gui_redrawn_trans [OF r1] gui_draw_text_redraws [OF gui_scene_redrawn [OF assms(1) r1], of 12 32]
    by (fastforce simp: redraw_terminal_def)
qed (simp add: redraw_terminal_def)

lemma type_char_edits:
  assumes ok: "gui_ok g"
  shows "\<exists>g'. type_char ch g = Inr g' \<and> gui_ok g' \<and> terminal_window g' = terminal_window g \<and>
    line_of g' = (if terminal_window g = None then line_of g else edit_line ch (line_of g))"
proof (cases "terminal_window g")
  case (Some i)
  let ?n = "terminal_text_len g" let ?t = "terminal_text g"
  have b: "length ?t = 256" "?n \<le> 256" "\<forall>n\<in>set (line_of g). n < 128" "gui_scene g" using ok by (simp_all add: gui_ok_def)
  define g1 where "g1 = (if ch = 10 then g\<lparr>terminal_text_len := 0\<rparr>
    else if ch = 8 then (if ?n > 0 then g\<lparr>terminal_text_len := ?n - 1\<rparr> else g)
    else if ?n < 256 \<and> ch < 128 then g\<lparr>terminal_text := ?t[?n := of_nat ch], terminal_text_len := ?n + 1\<rparr> else g)"
  have run: "type_char ch g = redraw_terminal g1"
    using Some b by (simp add: type_char_def g1_def update_chk_def usize_chk_def)
  have sc: "gui_scene g1" "terminal_text_len g1 \<le> 256" "length (terminal_text g1) = 256" "terminal_window g1 = Some i"
    using b Some by (auto simp: g1_def gui_scene_def)
  have line: "line_of g1 = edit_line ch (line_of g)"
    using b by (auto simp: line_of_def edit_line_def g1_def butlast_take map_butlast [symmetric] take_Suc_conv_app_nth unat_of_nat
        min_def)
  have "\<forall>n\<in>set (line_of g1). n < 128" unfolding line edit_line_def using b(3) by (auto dest: in_set_butlastD)
  then have ok1: "gui_ok g1" using sc by (simp add: gui_ok_def)
  obtain g' where "redraw_terminal g1 = Inr g'" "gui_redrawn g1 g'" using redraw_terminal_redraws [of g1] sc by auto
  then show ?thesis using run line Some sc(4) gui_ok_redrawn [OF ok1] line_of_redrawn gui_redrawn_sel(1) by auto
qed (use ok in \<open>simp add: type_char_def\<close>)

section \<open>New windows\<close>

definition new_window :: "Window \<Rightarrow> int \<Rightarrow> int \<Rightarrow> int \<Rightarrow> int \<Rightarrow> bool" where
  "new_window win x y w h \<longleftrightarrow> win_x win = x \<and> win_y win = y \<and> win_width win = w \<and> win_height win = h \<and> win_visible win \<and>
     length (win_pixels win) = nat (w * h)"

lemma alloc_early_bytes:
  assumes "unat (bump_next b) + n \<le> unat (bump_limit b)"
  shows "\<exists>b'. alloc_early (of_nat n) 1 b = Inr (Some (bump_next b), b') \<and> unat (bump_next b') = unat (bump_next b) + n \<and>
    bump_limit b' = bump_limit b"
proof -
  have lim: "unat (bump_next b) + n < 2 ^ 64" by (rule le_less_trans [OF assms]) simp
  then have n: "unat (of_nat n :: u64) = n" by (simp add: unat_of_nat)
  have s: "unat (bump_next b + of_nat n) = unat (bump_next b) + n" using lim n by (simp add: unat_add_small)
  then have "\<not> bump_next b + of_nat n > bump_limit b" using assms by (simp add: word_less_nat_alt)
  then show ?thesis using lim n s
    by (simp add: alloc_early_def bump_allocate_def sub_chk_def add_chk_def checked_add_def Let_def)
qed

lemma create_window_new:
  assumes dim: "0 \<le> w" "0 \<le> h" "w * h < 2 ^ 29" and slot: "None \<in> set (windows c)" and nid: "next_id c + 1 < 2 ^ 64"
    and room: "unat (bump_next hp) + nat (w * h) * 4 \<le> unat (bump_limit hp)"
  shows "\<exists>hp' k win. create_window title x y w h hp c =
      Inr (next_id c, hp', c\<lparr>next_id := next_id c + 1, windows := (windows c)[k := Some win]\<rparr>) \<and>
    position (\<lambda>w. w = None) (windows c) = Some k \<and> new_window win x y w h \<and>
    unat (bump_next hp') = unat (bump_next hp) + nat (w * h) * 4 \<and> bump_limit hp' = bump_limit hp"
proof -
  obtain k where k: "position (\<lambda>w. w = None) (windows c) = Some k"
    using slot by (cases "position (\<lambda>w. w = None) (windows c)") (auto simp: position_None_iff)
  have wh: "0 \<le> w * h" using dim by simp
  then have "as_usize (w * h) = nat (w * h)" using dim by (simp add: as_usize_small)
  moreover have "nat (w * h) * 4 < 2 ^ 64" using dim(3) wh by (simp add: nat_less_iff)
  moreover obtain hp' where "alloc_early (of_nat (nat (w * h) * 4)) 1 hp = Inr (Some (bump_next hp), hp')"
    "unat (bump_next hp') = unat (bump_next hp) + nat (w * h) * 4" "bump_limit hp' = bump_limit hp"
    using alloc_early_bytes [OF room] by blast
  moreover have "i32_chk (w * h) = Inr (w * h)" using wh dim(3) by (simp add: i32_chk_def)
  ultimately show ?thesis using nid k by (auto simp: create_window_def usize_chk_def Let_def new_window_def)
qed

lemma gui_create_window_new:
  assumes dim: "0 \<le> w" "0 \<le> h" "w * h < 2 ^ 29" and c: "gui_compositor g = Some c"
    and slot: "None \<in> set (windows c)" and nid: "next_id c + 1 < 2 ^ 64"
    and room: "unat (bump_next (gui_heap g)) + nat (w * h) * 4 \<le> unat (bump_limit (gui_heap g))"
  shows "\<exists>hp' k win. gui_create_window title x y w h g =
      Inr (Some (next_id c), g\<lparr>gui_compositor := Some (c\<lparr>next_id := next_id c + 1, windows := (windows c)[k := Some win]\<rparr>), gui_heap := hp'\<rparr>) \<and>
    position (\<lambda>w. w = None) (windows c) = Some k \<and> new_window win x y w h \<and>
    unat (bump_next hp') = unat (bump_next (gui_heap g)) + nat (w * h) * 4 \<and> bump_limit hp' = bump_limit (gui_heap g)"
proof -
  obtain hp' k win where n: "create_window title x y w h (gui_heap g) c =
      Inr (next_id c, hp', c\<lparr>next_id := next_id c + 1, windows := (windows c)[k := Some win]\<rparr>)"
    "position (\<lambda>w. w = None) (windows c) = Some k" "new_window win x y w h"
    "unat (bump_next hp') = unat (bump_next (gui_heap g)) + nat (w * h) * 4" "bump_limit hp' = bump_limit (gui_heap g)"
    using create_window_new [OF dim slot nid room] by blast
  show ?thesis using c n by (intro exI [of _ hp'] exI [of _ k] exI [of _ win]) (simp add: gui_create_window_def)
qed

lemma scene_ok_add_window:
  assumes "scene_ok c" "window_fits (fb_info c) win"
  shows "scene_ok (c\<lparr>next_id := n, windows := (windows c)[k := Some win]\<rparr>)"
  using assms by (auto simp: scene_ok_def fb_ok_def dest!: set_update_subset_insert [THEN subsetD])

lemma open_terminal_opens:
  assumes ok: "gui_ok g"
  shows "\<exists>g'. open_terminal g = Inr g' \<and> gui_ok g' \<and> terminal_window g' \<noteq> None \<and> line_of g' = line_of g"
proof -
  have sc: "gui_scene g" and len: "terminal_text_len g \<le> length (terminal_text g)" using ok by (simp_all add: gui_ok_def)
  show ?thesis
  proof (cases "terminal_window g")
    case None
    then have room: "terminal_room g" using ok by (simp add: gui_ok_def)
    obtain c where c: "gui_compositor g = Some c" "scene_ok c" using sc by (auto simp: gui_scene_def)
    have "None \<in> set (windows c)" "next_id c + 1 < 2 ^ 64" "unat (bump_next (gui_heap g)) + nat (480 * 320) * 4 \<le> unat (bump_limit (gui_heap g))"
      using room c(1) by (simp_all add: terminal_room_def)
    from gui_create_window_new [OF _ _ _ c(1) this, of "map of_char ''Terminal''" 100 100]
    obtain hp' k win where g1: "gui_create_window (map of_char ''Terminal'') 100 100 480 320 g = Inr (Some (next_id c),
        g\<lparr>gui_compositor := Some (c\<lparr>next_id := next_id c + 1, windows := (windows c)[k := Some win]\<rparr>), gui_heap := hp'\<rparr>)"
      and win: "new_window win 100 100 480 320" by auto
    let ?g2 = "g\<lparr>gui_compositor := Some (c\<lparr>next_id := next_id c + 1, windows := (windows c)[k := Some win]\<rparr>), gui_heap := hp',
      terminal_window := Some (next_id c)\<rparr>"
    have "window_fits (fb_info c) win" using win c(2) by (simp add: new_window_def window_fits_def scene_ok_def)
    then have sc2: "gui_scene ?g2" using scene_ok_add_window [OF c(2)] by (simp add: gui_scene_def)
    have ok2: "gui_ok ?g2" using ok sc2 by (simp add: gui_ok_def line_of_def)
    obtain g' where "redraw_terminal ?g2 = Inr g'" "gui_redrawn ?g2 g'" using redraw_terminal_redraws [OF sc2] len by auto
    then show ?thesis using None g1 gui_ok_redrawn [OF ok2] gui_redrawn_sel(1) line_of_redrawn
      by (fastforce simp: open_terminal_def line_of_def)
  next
    case (Some i)
    then show ?thesis using redraw_terminal_redraws [OF sc len] gui_ok_redrawn [OF ok] gui_redrawn_sel(1) line_of_redrawn
      by (fastforce simp: open_terminal_def)
  qed
qed

lemma gui_ok_button: "gui_ok (g\<lparr>button_down_last := b\<rparr>) = gui_ok g"
  by (simp add: gui_ok_def gui_scene_def terminal_room_def line_of_def)

lemma handle_mouse_keeps:
  assumes ok: "gui_ok g"
  shows "\<exists>b g'. handle_mouse m g = Inr (b, g') \<and> gui_ok g' \<and> line_of g' = line_of g \<and>
    (terminal_window g \<noteq> None \<or> b \<longrightarrow> terminal_window g' \<noteq> None)"
proof -
  obtain g' where g': "open_terminal g = Inr g'" "gui_ok g'" "terminal_window g' \<noteq> None" "line_of g' = line_of g"
    using open_terminal_opens [OF ok] by blast
  show ?thesis using ok g' by (auto simp: handle_mouse_def Let_def mouse_position_def gui_ok_button line_of_def)
qed

section \<open>Typed characters\<close>

text \<open>The font has no lower-case letters, the only ones the keyboard delivers: each is drawn as a full stop, the glyph the
  fallback of \<open>glyph_for\<close> picks.\<close>

lemma lower_case_glyphs: "\<forall>ch\<in>{97..<123}. glyph_for ch = glyph_for 46"
proof
  fix ch :: nat assume "ch \<in> {97..<123}"
  then have "map_of FONT ch = None" by (auto simp: FONT_def)
  then show "glyph_for ch = glyph_for 46" by (simp add: glyph_for_def FONT_def)
qed

text \<open>What a round of the idle loop makes of the scan codes in the ring buffer: it handles the characters up to the first code that is
  not in the table (a key release, for one), drops that code and leaves the others for the next round.\<close>

definition known_key :: "u8 \<Rightarrow> bool" where
  "known_key sc \<longleftrightarrow> map_of scancode_table sc \<noteq> None"

definition chars_to_unknown :: "u8 list \<Rightarrow> nat list" where
  "chars_to_unknown scs = map (\<lambda>sc. of_char (the (map_of scancode_table sc))) (takeWhile known_key scs)"

lemma drain_keys_spec:
  assumes "kbd_inv k" "gui_ok g"
  shows "\<exists>k' g'. drain_keys k g = Some (Inr (k', g')) \<and> kbd_inv k' \<and> kbd_contents k' = drop 1 (dropWhile known_key (kbd_contents k)) \<and>
    gui_ok g' \<and> terminal_window g' = terminal_window g \<and>
    line_of g' = (if terminal_window g = None then line_of g else fold edit_line (chars_to_unknown (kbd_contents k)) (line_of g))"
  using assms
proof (induction "kbd_contents k" arbitrary: k g)
  case Nil
  have "khead k = ktail k" using Nil.hyps Nil.prems(1) kbd_contents_pop(1) by fastforce
  then have "read_char k = (None, k)" by (simp add: read_char_def read_scancode_def)
  then show ?case using Nil by (simp add: drain_keys.simps chars_to_unknown_def)
next
  case (Cons sc scs)
  have ne: "khead k \<noteq> ktail k" using Cons.hyps(2) Cons.prems(1)
    by (auto simp: kbd_contents_def kbd_count_def kbd_inv_def)
  let ?k = "snd (read_scancode k)"
  have pop: "kbuf k ! khead k = sc" "kbd_contents ?k = scs" "kbd_inv ?k"
    using kbd_contents_pop [OF Cons.prems(1) ne] Cons.hyps(2) by simp_all
  have rd: "read_char k = (map_of scancode_table sc, ?k)"
    using ne pop(1) by (simp add: read_char_def read_scancode_def)
  show ?case
  proof (cases "map_of scancode_table sc")
    case None
    then have "kbd_contents k = sc # scs" "\<not> known_key sc" using Cons.hyps(2) by (simp_all add: known_key_def)
    then show ?thesis using rd None pop Cons.prems(2) by (simp add: drain_keys.simps chars_to_unknown_def)
  next
    case (Some ch)
    then have kn: "known_key sc" by (simp add: known_key_def)
    obtain g1 where g1: "type_char (of_char ch) g = Inr g1" "gui_ok g1" "terminal_window g1 = terminal_window g"
      "line_of g1 = (if terminal_window g = None then line_of g else edit_line (of_char ch) (line_of g))"
      using type_char_edits [OF Cons.prems(2)] by blast
    have st: "drain_keys k g = drain_keys ?k g1" using rd Some g1(1) by (subst drain_keys.simps) simp
    have t: "chars_to_unknown (sc # scs) = of_char ch # chars_to_unknown scs" using kn Some by (simp add: chars_to_unknown_def)
    show ?thesis
      using Cons.hyps(1) [OF pop(2) [symmetric] pop(3) g1(2)] g1(3,4) kn t unfolding st Cons.hyps(2) [symmetric] pop(2)
      by auto
  qed
qed

section \<open>The screen after a round\<close>

lemma render_shows:
  assumes c: "gui_compositor g = Some c" and ok: "fb_ok c"
    and fits: "\<And>w. w \<in> set (visible_windows c) \<Longrightarrow> window_fits (fb_info c) w"
    and pos: "- (2 ^ 31) \<le> fst pos" "fst pos + 15 < 2 ^ 31" "- (2 ^ 31) \<le> snd pos" "snd pos + 15 < 2 ^ 31"
  shows "\<exists>c'. render pos g = Inr (g\<lparr>gui_compositor := Some c'\<rparr>) \<and> scene c c' \<and>
    view c' = paint_cursor (fb_info c) pos (painter (fb_info c) (visible_windows c))"
proof -
  obtain c1 where c1: "render_windows c = Inr c1" "scene c c1" "view c1 = painter (fb_info c) (visible_windows c)"
    using render_windows_paints [OF ok fits] by blast
  obtain c2 where "draw_cursor (fst pos) (snd pos) c1 = Inr c2" "scene c c2" "view c2 = paint_cursor (fb_info c) pos (view c1)"
    using draw_cursor_paints [OF c1(2) pos] by auto
  then show ?thesis using c c1 by (intro exI [of _ c2]) (simp add: render_def)
qed

lemma render_keeps:
  assumes ok: "gui_ok g" and m: "mouse_inv m"
  shows "\<exists>g' c. render (mouse_position m) g = Inr g' \<and> gui_redrawn g g' \<and> gui_compositor g' = Some c \<and>
    view c = paint_cursor (fb_info c) (mouse_position m) (painter (fb_info c) (visible_windows c))"
proof -
  obtain c where c: "gui_compositor g = Some c" "scene_ok c" using ok by (auto simp: gui_ok_def gui_scene_def)
  obtain c' where c': "render (mouse_position m) g = Inr (g\<lparr>gui_compositor := Some c'\<rparr>)" "scene c c'"
    "view c' = paint_cursor (fb_info c) (mouse_position m) (painter (fb_info c) (visible_windows c))"
    using render_shows [OF c(1), of "mouse_position m"] c(2) m
    by (auto simp: scene_ok_def visible_mem mouse_inv_def mouse_position_def)
  have e: "fb_info c' = fb_info c" "visible_windows c' = visible_windows c" "redrawn c c'"
    using c'(2) by (simp_all add: scene_def same_scene_def visible_windows_def redrawn_def list.rel_refl option.rel_refl)
  show ?thesis using c' e gui_redrawn_set [OF c(1)] by auto
qed

lemma idle_work_total:
  assumes k: "kbd_inv k" and m: "mouse_inv m" and ok: "gui_ok g"
  shows "\<exists>k' g' c. idle_work k m g = Some (Inr (k', g')) \<and> kbd_inv k' \<and> gui_ok g' \<and> gui_compositor g' = Some c \<and>
    kbd_contents k' = drop 1 (dropWhile known_key (kbd_contents k)) \<and>
    view c = paint_cursor (fb_info c) (mouse_position m) (painter (fb_info c) (visible_windows c)) \<and>
    line_of g' = (if terminal_window g = None then line_of g else fold edit_line (chars_to_unknown (kbd_contents k)) (line_of g))"
proof -
  obtain k1 g1 where g1: "drain_keys k g = Some (Inr (k1, g1))" "kbd_inv k1" "gui_ok g1"
    "kbd_contents k1 = drop 1 (dropWhile known_key (kbd_contents k))"
    "line_of g1 = (if terminal_window g = None then line_of g else fold edit_line (chars_to_unknown (kbd_contents k)) (line_of g))"
    using drain_keys_spec [OF k ok] by blast
  obtain b g2 where g2: "handle_mouse m g1 = Inr (b, g2)" "gui_ok g2" "line_of g2 = line_of g1"
    using handle_mouse_keeps [OF g1(3)] by blast
  obtain g3 c where g3: "render (mouse_position m) g2 = Inr g3" "gui_redrawn g2 g3" "gui_compositor g3 = Some c"
    "view c = paint_cursor (fb_info c) (mouse_position m) (painter (fb_info c) (visible_windows c))"
    using render_keeps [OF g2(2) m] by blast
  show ?thesis using g1 g2 g3 gui_ok_redrawn [OF g2(2) g3(2)] line_of_redrawn [OF g3(2)]
    by (intro exI [of _ k1] exI [of _ g3] exI [of _ c]) (simp add: idle_work_def)
qed

section \<open>From boot\<close>

text \<open>A screen and heap large enough: two windows of the size of the screen and the terminal are allocated.\<close>

definition screen_fits :: "bytes \<Rightarrow> FrameBufferInfo \<Rightarrow> bump_allocator \<Rightarrow> bool" where
  "screen_fits buffer info h \<longleftrightarrow> fb_ok (new_compositor buffer info) \<and> 580 \<le> fb_width info \<and> 420 \<le> fb_height info \<and>
     fb_width info * fb_height info < 2 ^ 29 \<and>
     unat (bump_next h) + 2 * (fb_width info * fb_height info * 4) + 480 * 320 * 4 \<le> unat (bump_limit h)"

lemma fb_ok_windows [simp]: "fb_ok (c\<lparr>windows := ws\<rparr>) = fb_ok c" "fb_ok (c\<lparr>next_id := n\<rparr>) = fb_ok c"
  by (simp_all add: fb_ok_def)

lemma full_screen_fits:
  "new_window win 0 0 (int (fb_width info)) (int (fb_height info)) \<Longrightarrow> fb_width info * fb_height info < 2 ^ 29 \<Longrightarrow> window_fits info win"
  by (simp add: new_window_def window_fits_def flip: of_nat_mult)

lemma screen_fitsD:
  assumes "screen_fits buffer info h"
  shows "fb_ok (new_compositor buffer info)" "580 \<le> fb_width info" "420 \<le> fb_height info" "fb_width info * fb_height info < 2 ^ 29"
    "unat (bump_next h) + 2 * (fb_width info * fb_height info * 4) + 480 * 320 * 4 \<le> unat (bump_limit h)"
    "as_i32 (fb_width info) = int (fb_width info)" "as_i32 (fb_height info) = int (fb_height info)"
    "int (fb_width info) * int (fb_height info) < 2 ^ 29"
    "nat (int (fb_width info) * int (fb_height info)) = fb_width info * fb_height info" "fb_width info < 2 ^ 30"
proof -
  show ok: "fb_ok (new_compositor buffer info)" and d: "580 \<le> fb_width info" "420 \<le> fb_height info"
    and area: "fb_width info * fb_height info < 2 ^ 29"
    and "unat (bump_next h) + 2 * (fb_width info * fb_height info * 4) + 480 * 320 * 4 \<le> unat (bump_limit h)"
    using assms by (simp_all add: screen_fits_def)
  show "as_i32 (fb_width info) = int (fb_width info)" "as_i32 (fb_height info) = int (fb_height info)"
    using ok by (simp_all add: fb_ok_def new_compositor_def as_i32_small Let_def)
  show "int (fb_width info) * int (fb_height info) < 2 ^ 29"
    "nat (int (fb_width info) * int (fb_height info)) = fb_width info * fb_height info"
    using area by (simp_all add: nat_mult_distrib flip: of_nat_mult)
  have "fb_width info * 420 \<le> fb_width info * fb_height info" using d(2) by (rule mult_le_mono2)
  then have "fb_width info * 420 < 2 ^ 29" using area by (rule le_less_trans)
  then show "fb_width info < 2 ^ 30" by simp
qed

lemma init_compositor_ok:
  assumes fits: "screen_fits buffer info h"
  shows "\<exists>c h'. init_compositor buffer info (initial_gui h) = Inr ((initial_gui h)\<lparr>gui_compositor := Some c, gui_heap := h'\<rparr>) \<and>
    scene_ok c \<and> fb_info c = info \<and> next_id c = 2 \<and> (\<exists>w. windows c = Some w # None # None # replicate 29 None) \<and>
    unat (bump_next h') = unat (bump_next h) + fb_width info * fb_height info * 4 \<and> bump_limit h' = bump_limit h"
proof -
  note F = screen_fitsD [OF fits]
  let ?W = "int (fb_width info)" let ?H = "int (fb_height info)" let ?c0 = "new_compositor buffer info"
  have ws0: "windows ?c0 = None # None # None # replicate 29 None" "next_id ?c0 = 1" "fb_info ?c0 = info"
    by (simp_all add: new_compositor_def numeral_eq_Suc)
  obtain h1 k1 w1 where c1: "create_window (map of_char ''Desktop'') 0 0 ?W ?H h ?c0 =
      Inr (next_id ?c0, h1, ?c0\<lparr>next_id := next_id ?c0 + 1, windows := (windows ?c0)[k1 := Some w1]\<rparr>)"
    "position (\<lambda>w. w = None) (windows ?c0) = Some k1" "new_window w1 0 0 ?W ?H"
    "unat (bump_next h1) = unat (bump_next h) + nat (?W * ?H) * 4" "bump_limit h1 = bump_limit h"
    using create_window_new [OF _ _ F(8), of ?c0 h "map of_char ''Desktop''" 0 0] F(5,9) ws0 by auto
  let ?c1 = "?c0\<lparr>next_id := 2, windows := Some w1 # None # None # replicate 29 None\<rparr>"
  have "scene_ok ?c1" using F(1-3,10) full_screen_fits [OF c1(3) F(4)] ws0 by (auto simp: scene_ok_def)
  moreover have "init_compositor buffer info (initial_gui h) = Inr ((initial_gui h)\<lparr>gui_compositor := Some ?c1, gui_heap := h1\<rparr>)"
    using c1(1,2) ws0 by (simp add: init_compositor_def F(6,7) initial_gui_def)
  ultimately show ?thesis using c1(4,5) F(9) ws0 by (intro exI [of _ ?c1] exI [of _ h1]) simp
qed

lemma desktop_init_ok:
  assumes fits: "screen_fits buffer info h" and c: "scene_ok c" "fb_info c = info" "next_id c = 2"
    "windows c = Some w # None # None # replicate 29 None"
    and h': "unat (bump_next h') = unat (bump_next h) + fb_width info * fb_height info * 4" "bump_limit h' = bump_limit h"
  shows "\<exists>g. desktop_init (int (fb_width info)) (int (fb_height info)) ((initial_gui h)\<lparr>gui_compositor := Some c, gui_heap := h'\<rparr>) = Inr g \<and>
    gui_ok g \<and> terminal_window g = None \<and> line_of g = []"
proof -
  note F = screen_fitsD [OF fits]
  let ?W = "int (fb_width info)" let ?H = "int (fb_height info)"
  let ?g1 = "(initial_gui h)\<lparr>gui_compositor := Some c, gui_heap := h'\<rparr>"
  have pre: "None \<in> set (windows c)" "next_id c + 1 < 2 ^ 64"
    "unat (bump_next (gui_heap ?g1)) + nat (?W * ?H) * 4 \<le> unat (bump_limit (gui_heap ?g1))"
    using c(3,4) F(5) h' unfolding F(9) by (simp_all add: mult.commute)
  obtain h2 k2 w2 where c2: "gui_create_window (map of_char ''Desktop'') 0 0 ?W ?H ?g1 = Inr (Some (next_id c),
      ?g1\<lparr>gui_compositor := Some (c\<lparr>next_id := next_id c + 1, windows := (windows c)[k2 := Some w2]\<rparr>), gui_heap := h2\<rparr>)"
    "position (\<lambda>w. w = None) (windows c) = Some k2" "new_window w2 0 0 ?W ?H"
    "unat (bump_next h2) = unat (bump_next h') + nat (?W * ?H) * 4" "bump_limit h2 = bump_limit h'"
    using gui_create_window_new [OF _ _ F(8) _ pre] by fastforce
  let ?c2 = "c\<lparr>next_id := next_id c + 1, windows := (windows c)[k2 := Some w2]\<rparr>"
  let ?g2 = "?g1\<lparr>gui_compositor := Some ?c2, gui_heap := h2, desktop_window := Some 2\<rparr>"
  have sc2: "gui_scene ?g2" using scene_ok_add_window [OF c(1), of w2] full_screen_fits [OF c2(3) F(4)] c(2)
    by (simp add: gui_scene_def)
  have "k2 = 1" using c2(2) c(4) by simp
  then have "terminal_room ?g2" using F(5,9) c2(4,5) h' c(3,4) by (simp add: terminal_room_def mult.commute)
  then have ok2: "gui_ok ?g2" using sc2 by (simp add: gui_ok_def initial_gui_def line_of_def)
  obtain g3 where g3: "draw_desktop ?g2 = Inr g3" "gui_redrawn ?g2 g3" using returns_inD [OF redraws_draw_desktop sc2] by blast
  have "desktop_init ?W ?H ?g1 = Inr g3" using g3(1) c(3) unfolding desktop_init_def c2(1) by simp
  moreover have "terminal_window g3 = None" "line_of g3 = []"
    using gui_redrawn_sel(1) [OF g3(2)] line_of_redrawn [OF g3(2)] by (simp_all add: initial_gui_def line_of_def)
  ultimately show ?thesis using gui_ok_redrawn [OF ok2 g3(2)] by blast
qed

lemma start_screen_ok:
  assumes fits: "screen_fits buffer info h" and m: "mouse_inv m"
  shows "\<exists>g. start_screen (Some (buffer, info)) m (initial_gui h) = Inr g \<and> gui_ok g \<and> terminal_window g = None \<and> line_of g = []"
proof -
  obtain c h' w where c: "init_compositor buffer info (initial_gui h) = Inr ((initial_gui h)\<lparr>gui_compositor := Some c, gui_heap := h'\<rparr>)"
    "scene_ok c" "fb_info c = info" "next_id c = 2" "windows c = Some w # None # None # replicate 29 None"
    "unat (bump_next h') = unat (bump_next h) + fb_width info * fb_height info * 4" "bump_limit h' = bump_limit h"
    using init_compositor_ok [OF fits] by blast
  obtain g3 where g3: "desktop_init (int (fb_width info)) (int (fb_height info)) ((initial_gui h)\<lparr>gui_compositor := Some c, gui_heap := h'\<rparr>) = Inr g3"
    "gui_ok g3" "terminal_window g3 = None" "line_of g3 = []"
    using desktop_init_ok [OF fits c(2-)] by blast
  obtain g4 where g4: "render (mouse_position m) g3 = Inr g4" "gui_redrawn g3 g4" using render_keeps [OF g3(2) m] by blast
  then show ?thesis using c(1) g3 gui_ok_redrawn [OF g3(2) g4(2)] gui_redrawn_sel(1) [OF g4(2)] line_of_redrawn [OF g4(2)]
    screen_fitsD(6,7) [OF fits] by (simp add: start_screen_def)
qed

text \<open>
  The states in which the idle loop can start a round: the screen is brought up, then interrupts deliver scan codes and mouse bytes
  between rounds of the loop. The step \<open>round\<close> stands for a round whose halt has returned, which takes an interrupt. Handlers and loop share only the keyboard and mouse records.
\<close>

inductive idle_reach :: "bytes \<Rightarrow> FrameBufferInfo \<Rightarrow> bump_allocator \<Rightarrow> keyboard \<Rightarrow> mouse \<Rightarrow> gui \<Rightarrow> bool"
  for buffer info h where
  boot: "start_screen (Some (buffer, info)) initial_mouse (initial_gui h) = Inr g \<Longrightarrow>
    idle_reach buffer info h initial_keyboard initial_mouse g"
| key: "idle_reach buffer info h k m g \<Longrightarrow> idle_reach buffer info h (fst (keyboard_interrupt_handler sc k)) m g"
| mouse: "idle_reach buffer info h k m g \<Longrightarrow> mouse_interrupt_handler b m = Inr (m', tr) \<Longrightarrow> idle_reach buffer info h k m' g"
| round: "idle_reach buffer info h k m g \<Longrightarrow> idle_work k m g = Some (Inr (k', g')) \<Longrightarrow> idle_reach buffer info h k' m g'"

lemma keyboard_handler_inv: "kbd_inv k \<Longrightarrow> kbd_inv (fst (keyboard_interrupt_handler sc k))"
  by (auto simp: keyboard_interrupt_handler_def kbd_inv_def KEYBOARD_BUF_SIZE_def Let_def)

lemma mouse_handler_inv: "mouse_inv m \<Longrightarrow> mouse_interrupt_handler b m = Inr (m', tr) \<Longrightarrow> mouse_inv m'"
  using clamp_bounds [of 0 1279] clamp_bounds [of 0 1023] low_three_bits by (auto simp: mouse_step mouse_inv_def split: if_splits)

lemma initial_input: "kbd_inv initial_keyboard" "mouse_inv initial_mouse"
  by (simp_all add: initial_keyboard_def kbd_inv_def KEYBOARD_BUF_SIZE_def initial_mouse_def mouse_inv_def)

lemma idle_reach_inv:
  assumes "idle_reach buffer info h k m g" "screen_fits buffer info h"
  shows "kbd_inv k \<and> mouse_inv m \<and> gui_ok g"
  using assms
proof (induction rule: idle_reach.induct)
  case (boot g)
  then show ?case using start_screen_ok [OF boot(2) initial_input(2)] initial_input by auto
next
  case (key k m g sc)
  then show ?case using keyboard_handler_inv by blast
next
  case (mouse k m g b m' tr)
  then show ?case using mouse_handler_inv by blast
next
  case (round k m g k' g')
  then show ?case using idle_work_total [of k m g] by auto
qed

section \<open>Properties\<close>

text \<open>C9: the work of a round of the idle loop. On a screen of at least 580 by 420 pixels, with heap for the two
  desktop windows and the terminal, from every state reached by booting and by any interleaving of keyboard and
  mouse interrupts with rounds of the loop, the round reaches its halt without panic. It then shows on the frame
  buffer, pixel by pixel, the visible windows painted in order over the background with the cursor on top. The
  keys handled are those before the first scan code without a character, such as a key release; that code is dropped and the
  ones behind it stay in the buffer. The terminal's line is the result of editing it with these characters, or
  unchanged while no terminal is open. Whether the halt returns, for another round, depends on interrupts, which the code
  before the loop does not enable.\<close>

theorem idle_work_completes:
  assumes "screen_fits buffer info h" "idle_reach buffer info h k m g"
  shows "\<exists>k' g' c. idle_work k m g = Some (Inr (k', g')) \<and> gui_compositor g' = Some c \<and>
    (\<forall>x y. read_pixel c x y = Inr (paint_cursor (fb_info c) (mouse_position m) (painter (fb_info c) (visible_windows c)) (x, y))) \<and>
    kbd_contents k' = drop 1 (dropWhile known_key (kbd_contents k)) \<and>
    line_of g' = (if terminal_window g = None then line_of g else fold edit_line (chars_to_unknown (kbd_contents k)) (line_of g))"
proof -
  have inv: "kbd_inv k" "mouse_inv m" "gui_ok g" using idle_reach_inv [OF assms(2,1)] by simp_all
  obtain k' g' c where r: "idle_work k m g = Some (Inr (k', g'))" "gui_ok g'" "gui_compositor g' = Some c"
    "kbd_contents k' = drop 1 (dropWhile known_key (kbd_contents k))"
    "view c = paint_cursor (fb_info c) (mouse_position m) (painter (fb_info c) (visible_windows c))"
    "line_of g' = (if terminal_window g = None then line_of g else fold edit_line (chars_to_unknown (kbd_contents k)) (line_of g))"
    using idle_work_total [OF inv] by blast
  have "fb_ok c" using r(2,3) by (auto simp: gui_ok_def gui_scene_def scene_ok_def)
  then show ?thesis using r by (intro exI [of _ k'] exI [of _ g'] exI [of _ c]) (simp add: read_pixel_view)
qed

definition sample_info :: FrameBufferInfo where
  "sample_info = \<lparr>fb_width = 640, fb_height = 480, fb_stride = 640, fb_bytes_per_pixel = 4, fb_pixel_format = Bgr\<rparr>"

definition sample_heap :: bump_allocator where
  "sample_heap = \<lparr>bump_base = 0x1000000, bump_next = 0x1000000, bump_limit = 0x2000000\<rparr>"

lemma sample_screen_fits: "screen_fits (replicate 1228800 0) sample_info sample_heap"
  by (simp add: screen_fits_def fb_ok_def new_compositor_def sample_info_def sample_heap_def)

theorem idle_work_completes_witness:
  "\<exists>g k' g'. start_screen (Some (replicate 1228800 0, sample_info)) initial_mouse (initial_gui sample_heap) = Inr g \<and>
    idle_work (fst (keyboard_interrupt_handler 0x1E initial_keyboard)) initial_mouse g = Some (Inr (k', g'))"
proof -
  obtain g where g: "start_screen (Some (replicate 1228800 0, sample_info)) initial_mouse (initial_gui sample_heap) = Inr g"
    using start_screen_ok [OF sample_screen_fits initial_input(2)] by blast
  have "idle_reach (replicate 1228800 0) sample_info sample_heap (fst (keyboard_interrupt_handler 0x1E initial_keyboard)) initial_mouse g"
    by (intro idle_reach.key idle_reach.boot g)
  with idle_work_completes [OF sample_screen_fits] g show ?thesis by blast
qed

text \<open>Draining the keyboard ends. Whatever the ring buffer holds, the inner loop of the idle loop returns after
  consuming the scan codes up to and including the first one without a character; the rest stay queued.\<close>

theorem drain_keys_terminates:
  assumes "kbd_inv k" "gui_ok g"
  shows "\<exists>k' g'. drain_keys k g = Some (Inr (k', g')) \<and> kbd_contents k' = drop 1 (dropWhile known_key (kbd_contents k)) \<and>
    length (kbd_contents k') \<le> length (kbd_contents k) \<and> gui_ok g'"
proof -
  obtain k' g' where "drain_keys k g = Some (Inr (k', g'))" "kbd_contents k' = drop 1 (dropWhile known_key (kbd_contents k))" "gui_ok g'"
    using drain_keys_spec [OF assms] by blast
  moreover have "length (drop 1 (dropWhile known_key (kbd_contents k))) \<le> length (kbd_contents k)"
    using length_dropWhile_le [of known_key "kbd_contents k"] by simp
  ultimately show ?thesis by metis
qed

theorem drain_keys_terminates_witness:
  "\<exists>g k' g'. start_screen (Some (replicate 1228800 0, sample_info)) initial_mouse (initial_gui sample_heap) = Inr g \<and>
    drain_keys initial_keyboard g = Some (Inr (k', g'))"
  using start_screen_ok [OF sample_screen_fits initial_input(2)] drain_keys_terminates [OF initial_input(1)] by blast

text \<open>C10: rendering refines the painter's algorithm. When every visible window lies on the screen, \<open>render\<close> returns, it
  changes nothing but the pixels, and every pixel read back is the colour obtained by composing, from the first slot to
  the last, the visible windows over the dark grey background, with the clipped cursor on top.\<close>

theorem render_refines_painter:
  assumes "gui_compositor g = Some c" "fb_ok c" "\<And>w. w \<in> set (visible_windows c) \<Longrightarrow> window_fits (fb_info c) w"
    and "- (2 ^ 31) \<le> fst pos" "fst pos + 15 < 2 ^ 31" "- (2 ^ 31) \<le> snd pos" "snd pos + 15 < 2 ^ 31"
  shows "\<exists>c'. render pos g = Inr (g\<lparr>gui_compositor := Some c'\<rparr>) \<and> windows c' = windows c \<and> fb_info c' = fb_info c \<and>
    (\<forall>x y. read_pixel c' x y = Inr (paint_cursor (fb_info c) pos (painter (fb_info c) (visible_windows c)) (x, y)))"
proof -
  obtain c' where "render pos g = Inr (g\<lparr>gui_compositor := Some c'\<rparr>)" "scene c c'"
    "view c' = paint_cursor (fb_info c) pos (painter (fb_info c) (visible_windows c))"
    using render_shows [OF assms] by blast
  then show ?thesis by (intro exI [of _ c']) (simp add: scene_def same_scene_def read_pixel_view)
qed

definition tiny_scene :: compositor where
  "tiny_scene = \<lparr>fb_buffer = replicate 12 0,
     fb_info = \<lparr>fb_width = 2, fb_height = 2, fb_stride = 2, fb_bytes_per_pixel = 3, fb_pixel_format = Rgb\<rparr>,
     windows = [Some \<lparr>win_id = 1, win_title = [], win_x = 1, win_y = 0, win_width = 1, win_height = 1, win_visible = True,
       win_backbuffer = 0, win_pixels = [with_alpha 255 0 0 128]\<rparr>], next_id = 2\<rparr>"

theorem render_refines_painter_witness:
  "\<exists>c'. render (-100, -100) ((initial_gui new_bump)\<lparr>gui_compositor := Some tiny_scene\<rparr>) =
      Inr ((initial_gui new_bump)\<lparr>gui_compositor := Some c'\<rparr>) \<and>
    read_pixel c' 1 0 = Inr (color_new 151 23 23) \<and> read_pixel c' 0 1 = Inr DARK_GRAY"
proof -
  have vis: "visible_windows tiny_scene = [the (windows tiny_scene ! 0)]" by (simp add: visible_windows_def tiny_scene_def)
  have px: "painter (fb_info tiny_scene) (visible_windows tiny_scene) (1, 0) = color_new 151 23 23"
    "painter (fb_info tiny_scene) (visible_windows tiny_scene) (0, 1) = DARK_GRAY"
    unfolding vis by (simp_all add: painter_def paint_window_def covers_def window_pixel_def blank_def on_screen_def as_i32_def
      tiny_scene_def compose_def mix_def with_alpha_def DARK_GRAY_def color_new_def)
  have far: "paint_cursor info (-100, -100) pic (x, y) = pic (x, y)" if "0 \<le> x" for info pic x y
    using that by (simp add: paint_cursor_def)
  have ok: "fb_ok tiny_scene" by (simp add: fb_ok_def tiny_scene_def)
  have fits: "window_fits (fb_info tiny_scene) w" if "w \<in> set (visible_windows tiny_scene)" for w
    using that unfolding vis by (simp add: tiny_scene_def window_fits_def)
  let ?g = "(initial_gui new_bump)\<lparr>gui_compositor := Some tiny_scene\<rparr>"
  obtain c' where "render (-100, -100) ?g = Inr (?g\<lparr>gui_compositor := Some c'\<rparr>)"
    "\<forall>x y. read_pixel c' x y = Inr (paint_cursor (fb_info tiny_scene) (-100, -100)
      (painter (fb_info tiny_scene) (visible_windows tiny_scene)) (x, y))"
    using render_refines_painter [of ?g tiny_scene "(-100, -100)", OF _ ok fits] by auto
  then show ?thesis by (intro exI [of _ c']) (simp add: far px)
qed

end
