(* ===== verification/Ps2.thy ===== *)
theory Ps2
  imports Input
begin

text \<open>
  Bringing up the interrupt controller and the PS/2 mouse (\<open>init\<close>, \<open>init_ps2_mouse\<close> and the polling loops of
  \<^verbatim>\<open>kernel/src/arch/x86_64/interrupts.rs\<close>). The device is the bytes that successive reads of the status port and of
  the data port deliver, and the writes made so far. A polling loop reads until the status suits it; \<^const>\<open>None\<close> means that
  it is still polling when the bytes given run out. Loading the interrupt descriptor table is not part of the trace.
\<close>

record ps2 =
  status_reads :: bytes
  data_reads :: bytes
  port_writes :: port_trace

definition outb :: "u16 \<Rightarrow> u8 \<Rightarrow> ps2 \<Rightarrow> ps2" where
  "outb p b d = d\<lparr>port_writes := port_writes d @ [(p, b)]\<rparr>"

definition write_ready :: "u8 \<Rightarrow> bool" where
  "write_ready status \<longleftrightarrow> status AND 2 = 0"

definition data_ready :: "u8 \<Rightarrow> bool" where
  "data_ready status \<longleftrightarrow> status AND 1 \<noteq> 0"

fun poll :: "(u8 \<Rightarrow> bool) \<Rightarrow> bytes \<Rightarrow> bytes option" where
  "poll ready [] = None"
| "poll ready (s # ss) = (if ready s then Some ss else poll ready ss)"

definition wait_ps2_write :: "ps2 \<Rightarrow> ps2 option" where
  "wait_ps2_write d = map_option (\<lambda>ss. d\<lparr>status_reads := ss\<rparr>) (poll write_ready (status_reads d))"

definition read_ps2_data :: "ps2 \<Rightarrow> (u8 \<times> ps2) option" where
  "read_ps2_data d =
     (case poll data_ready (status_reads d) of
        None \<Rightarrow> None
      | Some ss \<Rightarrow>
          (case data_reads d of
             [] \<Rightarrow> None
           | b # bs \<Rightarrow> Some (b, d\<lparr>status_reads := ss, data_reads := bs\<rparr>)))"

definition send_ps2 :: "u16 \<Rightarrow> u8 \<Rightarrow> ps2 \<Rightarrow> ps2 option" where
  "send_ps2 p b d = map_option (outb p b) (wait_ps2_write d)"

definition write_mouse_cmd :: "u8 \<Rightarrow> ps2 \<Rightarrow> ps2 option" where
  "write_mouse_cmd cmd d = Option.bind (send_ps2 0x64 0xD4 d) (send_ps2 0x60 cmd)"

definition init_ps2_mouse :: "ps2 \<Rightarrow> ps2 option" where
  "init_ps2_mouse d =
     Option.bind (send_ps2 0x64 0xA8 d) (\<lambda>d1.
     Option.bind (send_ps2 0x64 0x20 d1) (\<lambda>d2.
     Option.bind (read_ps2_data d2) (\<lambda>(status, d3).
     Option.bind (send_ps2 0x64 0x60 d3) (\<lambda>d4.
     Option.bind (send_ps2 0x60 (status OR 2 OR 1) d4) (\<lambda>d5.
     Option.bind (write_mouse_cmd 0xF6 d5) (write_mouse_cmd 0xF4))))))"

text \<open>\<open>init\<close>, given the masks read from the two interrupt controllers.\<close>

definition interrupts_init :: "u8 \<Rightarrow> u8 \<Rightarrow> ps2 \<Rightarrow> ps2 option" where
  "interrupts_init a1 a2 d =
     map_option (\<lambda>d'. d'\<lparr>port_writes := port_writes d' @ unmask_irqs\<rparr>)
       (init_ps2_mouse (d\<lparr>port_writes := port_writes d @ remap_pic a1 a2\<rparr>))"

section \<open>Properties\<close>

text \<open>The bytes a polling loop reads: any number that do not suit it, then one that does.\<close>

definition polled :: "(u8 \<Rightarrow> bool) \<Rightarrow> bytes \<Rightarrow> bool" where
  "polled ready b \<longleftrightarrow> b \<noteq> [] \<and> ready (last b) \<and> (\<forall>x\<in>set (butlast b). \<not> ready x)"

lemma poll_polled: "polled ready b \<Longrightarrow> poll ready (b @ rest) = Some rest"
proof (induction b)
  case (Cons x b)
  then show ?case by (cases b) (auto simp: polled_def split: if_splits)
qed (simp add: polled_def)

lemma poll_busy: "(\<And>s. s \<in> set ss \<Longrightarrow> \<not> ready s) \<Longrightarrow> poll ready ss = None"
  by (induction ss) auto

lemma send_polled:
  assumes "polled write_ready b"
  shows "send_ps2 p v \<lparr>status_reads = b @ rest, data_reads = ds, port_writes = tr\<rparr> =
    Some \<lparr>status_reads = rest, data_reads = ds, port_writes = tr @ [(p, v)]\<rparr>"
  by (simp add: send_ps2_def wait_ps2_write_def poll_polled [OF assms] outb_def)

lemma read_polled:
  assumes "polled data_ready b"
  shows "read_ps2_data \<lparr>status_reads = b @ rest, data_reads = v # ds, port_writes = tr\<rparr> =
    Some (v, \<lparr>status_reads = rest, data_reads = ds, port_writes = tr\<rparr>)"
  by (simp add: read_ps2_data_def poll_polled [OF assms])

definition mouse_setup :: "u8 \<Rightarrow> port_trace" where
  "mouse_setup status = [(0x64, 0xA8), (0x64, 0x20), (0x64, 0x60), (0x60, status OR 2 OR 1),
     (0x64, 0xD4), (0x60, 0xF6), (0x64, 0xD4), (0x60, 0xF4)]"

text \<open>C25: initialisation ends exactly when the device lets it. If in each of the nine polling loops the controller, after
  any number of busy reads, reports that it is ready, \<open>init\<close> returns having written the controller set-up, the eight
  mouse commands with the command byte's two interrupt bits set, and the masks; on a controller that stays busy it
  polls forever, there is no timeout.\<close>

theorem interrupts_init_terminates:
  assumes "length blocks = 9" "\<And>i. i < 9 \<Longrightarrow> polled (if i = 2 then data_ready else write_ready) (blocks ! i)"
    and "\<And>s. s \<in> set busy \<Longrightarrow> \<not> write_ready s"
  shows "interrupts_init a1 a2 \<lparr>status_reads = concat blocks @ rest, data_reads = v # ds, port_writes = []\<rparr> =
      Some \<lparr>status_reads = rest, data_reads = ds, port_writes = remap_pic a1 a2 @ mouse_setup v @ unmask_irqs\<rparr> \<and>
    interrupts_init a1 a2 \<lparr>status_reads = busy, data_reads = v # ds, port_writes = []\<rparr> = None"
proof -
  obtain b0 b1 b2 b3 b4 b5 b6 b7 b8 where bs: "blocks = [b0, b1, b2, b3, b4, b5, b6, b7, b8]"
    using assms(1) by (auto simp: numeral_eq_Suc length_Suc_conv)
  have "polled write_ready b0" "polled write_ready b1" "polled data_ready b2" "polled write_ready b3" "polled write_ready b4"
    "polled write_ready b5" "polled write_ready b6" "polled write_ready b7" "polled write_ready b8"
    using assms(2) [of 0] assms(2) [of 1] assms(2) [of 2] assms(2) [of 3] assms(2) [of 4] assms(2) [of 5] assms(2) [of 6]
      assms(2) [of 7] assms(2) [of 8] unfolding bs by simp_all
  then have "interrupts_init a1 a2 \<lparr>status_reads = concat blocks @ rest, data_reads = v # ds, port_writes = []\<rparr> =
      Some \<lparr>status_reads = rest, data_reads = ds, port_writes = remap_pic a1 a2 @ mouse_setup v @ unmask_irqs\<rparr>"
    unfolding bs by (simp add: interrupts_init_def init_ps2_mouse_def write_mouse_cmd_def send_polled read_polled mouse_setup_def)
  moreover have "poll write_ready busy = None" using assms(3) by (rule poll_busy)
  ultimately show ?thesis by (simp add: interrupts_init_def init_ps2_mouse_def send_ps2_def wait_ps2_write_def)
qed

theorem interrupts_init_terminates_witness:
  "interrupts_init 0 0 \<lparr>status_reads = concat [[0], [2, 0], [2, 1], [0], [0], [0], [0], [0], [0]], data_reads = [0x44], port_writes = []\<rparr> =
     Some \<lparr>status_reads = [], data_reads = [], port_writes = remap_pic 0 0 @ mouse_setup 0x44 @ unmask_irqs\<rparr> \<and>
   interrupts_init 0 0 \<lparr>status_reads = [2, 3], data_reads = [0x44], port_writes = []\<rparr> = None"
proof -
  let ?bs = "[[0], [2, 0], [2, 1], [0], [0], [0], [0], [0], [0]] :: bytes list"
  have "polled (if i = 2 then data_ready else write_ready) (?bs ! i)" if "i < 9" for i :: nat
  proof -
    have "i \<in> {0, 1, 2, 3, 4, 5, 6, 7, 8}" using that by auto
    then show ?thesis by (auto simp: polled_def write_ready_def data_ready_def)
  qed
  moreover have "\<not> write_ready s" if "s \<in> set [2, 3]" for s using that by (auto simp: write_ready_def)
  ultimately show ?thesis using interrupts_init_terminates [of ?bs "[2, 3]" 0 0 "[]" "0x44" "[]"] by simp
qed

text \<open>With all of \<open>init\<close> done the mouse's interrupt line is still masked.\<close>

lemma last_write_append: "last_write p (t1 @ t2) v = last_write p t2 (last_write p t1 v)"
  by (induction p t1 v rule: last_write.induct) auto

lemma mouse_masked_after_init:
  "irq_enabled (remap_pic a1 a2 @ mouse_setup v @ unmask_irqs) n = irq_enabled (remap_pic a1 a2 @ unmask_irqs) n"
  by (simp add: irq_enabled_def last_write_append unmask_irqs_def PIC1_DATA_def PIC2_DATA_def)

end
