(* ===== verification/Syscall_Entry.thy ===== *)
theory Syscall_Entry
  imports Interpreter
begin

text \<open>
  The native system call path on x86_64 (\<^verbatim>\<open>kernel/src/arch/x86_64/syscall.rs\<close>), the user-side stub
  (\<^verbatim>\<open>win32/abi/syscall.rs\<close>) and the segment selectors it relies on (\<^verbatim>\<open>arch/x86_64/gdt.rs\<close>). The assembly is a
  function on the sixteen general registers and memory. The address of the static \<^verbatim>\<open>SYSCALL_RSP\<close>, the compiled
  \<^verbatim>\<open>dispatch\<close> and the \<^verbatim>\<open>x86_64\<close> crate are arguments.
\<close>

type_synonym regfile = "Register \<Rightarrow> u64"

record trap_state =
  trap_regs :: regfile
  trap_mem :: mem
  trap_rip :: u64
  trap_rflags :: u64

section \<open>Segment selectors and STAR\<close>

datatype Descriptor = Kernel_Code | Kernel_Data | User_Code | User_Data | Tss

record Selectors =
  kernel_code :: u16
  kernel_data :: u16
  user_code :: u16
  user_data :: u16
  tss_selector :: u16

text \<open>\<open>append\<close> is the crate's \<^verbatim>\<open>GlobalDescriptorTable::append\<close>: the table with one more descriptor, and its selector.\<close>

definition gdt_selectors :: "(Descriptor \<Rightarrow> 't \<Rightarrow> u16 \<times> 't) \<Rightarrow> 't \<Rightarrow> Selectors \<times> 't" where
  "gdt_selectors append_desc t0 =
     (let (kc, t1) = append_desc Kernel_Code t0;
          (kd, t2) = append_desc Kernel_Data t1;
          (uc, t3) = append_desc User_Code t2;
          (ud, t4) = append_desc User_Data t3;
          (ts, t5) = append_desc Tss t4
      in (\<lparr>kernel_code = kc, kernel_data = kd, user_code = uc, user_data = ud, tss_selector = ts\<rparr>, t5))"

text \<open>The task state segment, with the addresses of the two static stacks as arguments (canonical, as the crate checks).\<close>

definition GDT_STACK_SIZE :: u64 where "GDT_STACK_SIZE = 32 * 1024"

record tss =
  privilege_stack_table :: "u64 list"
  interrupt_stack_table :: "u64 list"

definition new_tss :: tss where
  "new_tss = \<lparr>privilege_stack_table = replicate 3 0, interrupt_stack_table = replicate 7 0\<rparr>"

definition gdt_tss :: "u64 \<Rightarrow> u64 \<Rightarrow> tss \<Rightarrow> tss" where
  "gdt_tss ring0_stack double_fault_stack t =
     (let ring0_top = ring0_stack + GDT_STACK_SIZE; df_top = double_fault_stack + GDT_STACK_SIZE
      in t\<lparr>privilege_stack_table := (privilege_stack_table t)[0 := ring0_top],
           interrupt_stack_table := (interrupt_stack_table t)[0 := df_top]\<rparr>)"

definition set_rsp0 :: "u64 \<Rightarrow> tss \<Rightarrow> tss" where
  "set_rsp0 rsp t = t\<lparr>privilege_stack_table := (privilege_stack_table t)[0 := rsp]\<rparr>"

record msrs =
  msr_star :: u64
  msr_lstar :: u64
  msr_efer :: u64

text \<open>\<open>star_write\<close> is \<^verbatim>\<open>Star::write\<close>: the new value of the register, or \<^const>\<open>None\<close> for its error, which \<open>init\<close> discards.\<close>

definition syscall_init ::
  "(u16 \<Rightarrow> u16 \<Rightarrow> u16 \<Rightarrow> u16 \<Rightarrow> u64 option) \<Rightarrow> Selectors option \<Rightarrow> u64 \<Rightarrow> msrs \<Rightarrow> msrs res" where
  "syscall_init star_write sels syscall_entry_addr r =
     (case sels of
        None \<Rightarrow> Inl Expect_Failed
      | Some s \<Rightarrow>
          let r1 = (case star_write (user_code s) (user_data s) (kernel_code s) (kernel_data s) of Some v \<Rightarrow> r\<lparr>msr_star := v\<rparr> | None \<Rightarrow> r)
          in Inr (r1\<lparr>msr_lstar := syscall_entry_addr, msr_efer := msr_efer r1 OR 1\<rparr>))"

section \<open>Entry and exit\<close>

definition set_syscall_rsp :: "u64 \<Rightarrow> u64 \<Rightarrow> mem \<Rightarrow> mem" where
  "set_syscall_rsp rsp_slot rsp m = write_u64 m rsp_slot rsp"

definition sysret_to_user :: "regfile \<Rightarrow> mem \<Rightarrow> trap_state" where
  "sysret_to_user rf m =
     (let rf' = rf(Rsp := rf Rsi, Rcx := rf Rdi, R11 := 0x202)
      in \<lparr>trap_regs = rf', trap_mem = m, trap_rip = rf' Rcx, trap_rflags = rf' R11\<rparr>)"

text \<open>Consecutive stores of 64-bit words.\<close>

fun store_words :: "u64 \<Rightarrow> u64 list \<Rightarrow> mem \<Rightarrow> mem" where
  "store_words a [] m = m"
| "store_words a (v # vs) m = store_words (a + 8) vs (write_u64 m a v)"

text \<open>Up to the call: the user stack pointer is kept in r12, the kernel stack pointer is read through r13.\<close>

definition syscall_enter :: "u64 \<Rightarrow> regfile \<Rightarrow> mem \<Rightarrow> regfile \<times> mem" where
  "syscall_enter rsp_slot rf m =
     (let rf1 = rf(R12 := rf Rsp, R13 := rsp_slot - 7);
          (rsp, m1) = push_list [rf1 Rbp, rf1 Rbx, rf1 R13, rf1 R14, rf1 R15, rf1 R12, rf1 Rcx, rf1 R11] (read_u64 m (rf1 R13), m);
          rf2 = rf1(R13 := rf1 Rsi, Rsp := rsp - 128);
          m2 = store_words (rf2 Rsp) [rf2 Rdi, rf2 R13, rf2 Rdx, rf2 R10, rf2 R8, rf2 R9, 0, 0, 0, 0, 0, 0, 0, 0, 0, 0] m1
      in (rf2(Rdi := rf2 Rax, Rsi := rf2 Rsp), m2))"

text \<open>After the call.\<close>

definition syscall_leave :: "regfile \<Rightarrow> mem \<Rightarrow> trap_state" where
  "syscall_leave rf m =
     (let rsp = rf Rsp + 128; p = pop_list 8 rsp m;
          rf1 = rf(R11 := p ! 0, Rcx := p ! 1, R12 := p ! 2, R15 := p ! 3, R14 := p ! 4, R13 := p ! 5, Rbx := p ! 6, Rbp := p ! 7);
          rf2 = rf1(Rsp := rf1 R12)
      in \<lparr>trap_regs = rf2, trap_mem = m, trap_rip = rf2 Rcx, trap_rflags = rf2 R11\<rparr>)"

definition syscall_entry :: "u64 \<Rightarrow> (regfile \<times> mem \<Rightarrow> regfile \<times> mem) \<Rightarrow> regfile \<Rightarrow> mem \<Rightarrow> trap_state" where
  "syscall_entry rsp_slot dispatch_code rf m =
     (case dispatch_code (syscall_enter rsp_slot rf m) of (rf', m') \<Rightarrow> syscall_leave rf' m')"

text \<open>The user side: \<^verbatim>\<open>mov r10, rdx; syscall\<close>; the processor saves the return address in rcx and the flags in r11.\<close>

definition syscall_4 :: "u64 \<Rightarrow> u64 \<Rightarrow> u64 \<Rightarrow> u64 \<Rightarrow> u64 \<Rightarrow> u64 \<Rightarrow> u64 \<Rightarrow> regfile \<Rightarrow> regfile" where
  "syscall_4 number arg1 arg2 arg3 arg4 return_rip rflags rf =
     (let rf1 = rf(Rax := number, Rdi := arg1, Rsi := arg2, Rdx := arg3, R8 := arg4)
      in rf1(R10 := rf1 Rdx, Rcx := return_rip, R11 := rflags))"

section \<open>Words on the stack\<close>

lemma far_word:
  assumes "j \<noteq> 0" "\<bar>j\<bar> < 1000"
  shows "8 \<le> unat (of_int (8 * j) :: u64)"
proof (cases "0 < j")
  case True
  then have "of_int (8 * j) = (of_nat (8 * nat j) :: u64)" by simp
  then have "unat (of_int (8 * j) :: u64) = 8 * nat j" using assms True by (simp only: unat_of_nat) simp
  then show ?thesis using True by simp
next
  case False
  define k where "k = nat (- j)"
  have k: "0 < k" "k < 1000" "j = - int k" using False assms by (auto simp: k_def)
  have u: "unat (of_nat (8 * k) :: u64) = 8 * k" using k by (simp only: unat_of_nat) simp
  then have "(of_nat (8 * k) :: u64) \<noteq> 0" using k by (metis mult_eq_0_iff neq0_conv unat_0 zero_neq_numeral)
  from unat_uminus [OF this] have "unat (- of_nat (8 * k) :: u64) = 2 ^ 64 - 8 * k" using u by simp
  moreover have "of_int (8 * j) = (- of_nat (8 * k) :: u64)" using k(3) by simp
  ultimately show ?thesis using k(2) by simp
qed

lemma store_words_read:
  "\<bar>j\<bar> + int (length vs) < 900 \<Longrightarrow> read_u64 (store_words a vs m) (a + of_int (8 * j)) =
     (if 0 \<le> j \<and> j < int (length vs) then vs ! nat j else read_u64 m (a + of_int (8 * j)))"
proof (induction vs arbitrary: a m j)
  case (Cons v vs)
  have shift: "a + of_int (8 * j) = (a + 8) + of_int (8 * (j - 1))" by (simp add: algebra_simps)
  have ih: "read_u64 (store_words (a + 8) vs (write_u64 m a v)) (a + of_int (8 * j)) =
      (if 0 \<le> j - 1 \<and> j - 1 < int (length vs) then vs ! nat (j - 1) else read_u64 (write_u64 m a v) (a + of_int (8 * j)))"
    unfolding shift by (rule Cons.IH) (use Cons.prems in auto)
  have "read_u64 (write_u64 m a v) (a + of_int (8 * j)) = (if j = 0 then v else read_u64 m (a + of_int (8 * j)))"
    using far_word [of j] far_word [of "- j"] Cons.prems by (auto intro!: read_write_u64_disjoint)
  with ih show ?case by (auto simp: nth_Cons' nat_diff_distrib)
qed auto

lemma length_pop_list [simp]: "length (pop_list n a m) = n"
  by (simp add: pop_list_def)

lemma store_words_pop: "length vs = n \<Longrightarrow> n < 400 \<Longrightarrow> pop_list n a (store_words a vs m) = vs"
  using store_words_read [of "int i" vs a m for i]
  by (intro nth_equalityI) (simp_all add: pop_list_nth)

lemma store_words_above:
  assumes "length vs + n < 400"
  shows "pop_list n (a + of_nat (8 * length vs)) (store_words a vs m) = pop_list n (a + of_nat (8 * length vs)) m"
  unfolding pop_list_def
proof (rule map_cong [OF refl])
  fix i assume "i \<in> set [0..<n]"
  then have i: "i < n" by simp
  have e: "a + of_nat (8 * length vs) + of_nat (8 * i) = a + of_int (8 * (int (length vs) + int i))" by (simp add: algebra_simps)
  show "read_u64 (store_words a vs m) (a + of_nat (8 * length vs) + of_nat (8 * i)) = read_u64 m (a + of_nat (8 * length vs) + of_nat (8 * i))"
    unfolding e by (subst store_words_read) (use assms i in auto)
qed

section \<open>The trap frame\<close>

definition native_args :: "regfile \<Rightarrow> u64 list" where
  "native_args rf = [rf Rdi, rf Rsi, rf Rdx, rf R10, rf R8, rf R9, 0, 0, 0, 0, 0, 0, 0, 0, 0, 0]"

definition saved_regs :: "u64 \<Rightarrow> regfile \<Rightarrow> u64 list" where
  "saved_regs rsp_slot rf = [rf R11, rf Rcx, rf Rsp, rf R15, rf R14, rsp_slot - 7, rf Rbx, rf Rbp]"

lemma syscall_enter_frame:
  assumes "syscall_enter rsp_slot rf m = (rf1, m1)"
  shows "rf1 Rdi = rf Rax" "rf1 Rsi = rf1 Rsp" "rf1 Rsp = read_u64 m (rsp_slot - 7) - 192"
    "pop_list 16 (rf1 Rsi) m1 = native_args rf" "pop_list 8 (rf1 Rsp + 128) m1 = saved_regs rsp_slot rf"
proof -
  let ?k = "read_u64 m (rsp_slot - 7)"
  let ?vs = "[rf Rbp, rf Rbx, rsp_slot - 7, rf R14, rf R15, rf Rsp, rf Rcx, rf R11]"
  let ?p = "push_list ?vs (?k, m)" let ?b = "fst ?p - 128"
  have e: "rf1 Rdi = rf Rax" "rf1 Rsi = ?b" "rf1 Rsp = ?b" "m1 = store_words ?b (native_args rf) (snd ?p)"
    using assms by (auto simp: syscall_enter_def Let_def case_prod_beta native_args_def)
  have rsp: "fst ?p = ?k - 64" unfolding push_list_rsp by simp
  show "rf1 Rdi = rf Rax" "rf1 Rsi = rf1 Rsp" "rf1 Rsp = ?k - 192" using e rsp by simp_all
  have len: "length (native_args rf) = 16" by (simp add: native_args_def)
  show "pop_list 16 (rf1 Rsi) m1 = native_args rf" unfolding e by (rule store_words_pop [OF len]) simp
  have "pop_list 8 (?b + 128) m1 = pop_list 8 (?b + 128) (snd ?p)"
    using store_words_above [of "native_args rf" 8 ?b "snd ?p"] unfolding e(4) len by simp
  also have "\<dots> = saved_regs rsp_slot rf" using pop_push_list [of ?vs 8 ?k m] by (simp add: saved_regs_def)
  finally show "pop_list 8 (rf1 Rsp + 128) m1 = saved_regs rsp_slot rf" using e(3) by simp
qed

text \<open>What the calling convention promises of the compiled \<^verbatim>\<open>dispatch\<close>: it returns with the stack pointer it was called
  with, and the frame above its argument array as it was.\<close>

definition abi_return :: "regfile \<times> mem \<Rightarrow> regfile \<times> mem \<Rightarrow> bool" where
  "abi_return s s' \<longleftrightarrow> fst s' Rsp = fst s Rsp \<and> pop_list 8 (fst s Rsp + 128) (snd s') = pop_list 8 (fst s Rsp + 128) (snd s)"

text \<open>C23: a system call hands \<^verbatim>\<open>dispatch\<close> the number and a pointer to sixteen words, the six argument registers
  followed by zeros, and returns to the instruction after \<^verbatim>\<open>syscall\<close> with the user's stack pointer, flags, rbx, rbp, r14
  and r15 and the result in rax. But r12 comes back as the stack pointer and r13 as an address inside the kernel image
  (that of \<^verbatim>\<open>SYSCALL_RSP\<close> minus seven): both registers, which the convention says a call preserves, are lost.\<close>

theorem syscall_entry_returns:
  assumes enter: "syscall_enter rsp_slot rf m = (rf1, m1)"
    and abi: "abi_return (rf1, m1) (dispatch_code (rf1, m1))" and ret: "dispatch_code (rf1, m1) = (rf2, m2)"
    and trap: "syscall_entry rsp_slot dispatch_code rf m = t"
  shows "rf1 Rdi = rf Rax \<and> pop_list 16 (rf1 Rsi) m1 = native_args rf \<and>
    trap_rip t = rf Rcx \<and> trap_rflags t = rf R11 \<and> trap_regs t Rax = rf2 Rax \<and>
    (\<forall>r\<in>{Rsp, Rbx, Rbp, R14, R15}. trap_regs t r = rf r) \<and>
    trap_regs t R12 = rf Rsp \<and> trap_regs t R13 = rsp_slot - 7"
proof -
  note F = syscall_enter_frame [OF enter]
  have pop: "pop_list 8 (rf2 Rsp + 128) m2 = saved_regs rsp_slot rf"
    using abi F(5) by (simp add: abi_return_def ret)
  have "t = syscall_leave rf2 m2" using trap enter ret by (simp add: syscall_entry_def)
  then show ?thesis using F(1,4) by (simp add: syscall_leave_def pop saved_regs_def Let_def)
qed

theorem syscall_entry_returns_witness:
  "let rf = (\<lambda>r. of_nat (reg_index r)); dispatch_code = (\<lambda>(rf, m). (rf(Rax := 0xC0000002), m));
       t = syscall_entry 0x5000 dispatch_code rf (\<lambda>_. 1)
   in trap_regs t Rax = 0xC0000002 \<and> trap_regs t R14 = 14 \<and> trap_regs t R12 = 4 \<and> trap_regs t R13 = 0x4FF9"
proof -
  let ?rf = "\<lambda>r. of_nat (reg_index r) :: u64" let ?d = "\<lambda>(rf :: regfile, m :: mem). (rf(Rax := 0xC0000002), m)"
  obtain rf1 m1 where e: "syscall_enter 0x5000 ?rf (\<lambda>_. 1) = (rf1, m1)" by fastforce
  have d: "?d (rf1, m1) = (rf1(Rax := 0xC0000002), m1)" by simp
  have "abi_return (rf1, m1) (?d (rf1, m1))" by (simp add: abi_return_def)
  from syscall_entry_returns [where dispatch_code = ?d, OF e this d refl] show ?thesis by simp
qed

text \<open>The interpreter builds the same argument array from a thread's registers as the trap does.\<close>

lemma interpreter_same_args:
  assumes "\<And>r. rf r = read_reg t r"
  shows "native_args rf = syscall_args t"
  by (simp add: native_args_def syscall_args_def assms numeral_eq_Suc)

text \<open>\<open>syscall_4\<close> puts its fourth argument where the kernel reads the fifth: handlers that look at index 3 see the third
  argument twice.\<close>

lemma syscall_4_args:
  "native_args (syscall_4 number arg1 arg2 arg3 arg4 rip fl rf) =
     [arg1, arg2, arg3, arg3, arg4, rf R9, 0, 0, 0, 0, 0, 0, 0, 0, 0, 0]"
  by (simp add: native_args_def syscall_4_def Let_def)

section \<open>The kernel stack pointer\<close>

text \<open>The operand \<^verbatim>\<open>[rip + SYSCALL_RSP - 7]\<close> is seven bytes before the static, so what becomes the stack pointer is the low
  byte of the stored value above the seven bytes that precede it.\<close>

lemma syscall_stack_pointer:
  assumes "syscall_enter rsp_slot rf (set_syscall_rsp rsp_slot v m) = (rf1, m1)"
  shows "rf1 Rsp = from_le (read_bytes m (rsp_slot - 7) 7 @ [ucast v]) - 192"
proof -
  let ?m = "set_syscall_rsp rsp_slot v m"
  have before: "?m (rsp_slot - 7 + of_nat i) = m (rsp_slot - 7 + of_nat i)" if "i < 7" for i
  proof -
    define d where "d = (of_nat (7 - i) :: u64)"
    have u: "unat d = 7 - i" unfolding d_def by (simp only: unat_of_nat) simp
    then have "d \<noteq> 0" using that by auto
    from unat_uminus [OF this] have "\<not> unat (- d) < 8" using u by simp
    moreover have "rsp_slot - 7 + of_nat i - rsp_slot = - d" using that by (simp add: d_def of_nat_diff)
    ultimately show ?thesis by (simp add: set_syscall_rsp_def write_u64_def write_bytes_outside)
  qed
  have "to_le 8 v = ucast v # le_bytes 7 (unat v div 256)" using le_bytes.simps(2) [of 7 "unat v"] by (simp add: to_le_def)
  then have at: "?m (rsp_slot - 7 + of_nat 7) = ucast v" by (simp add: set_syscall_rsp_def write_u64_def write_bytes_def)
  have "read_bytes ?m (rsp_slot - 7) 8 = read_bytes m (rsp_slot - 7) 7 @ [ucast v]"
    using before at by (simp add: read_bytes_def upt_Suc [of 0 7, simplified])
  then show ?thesis using syscall_enter_frame(3) [OF assms] by (simp add: read_u64_def)
qed

section \<open>The STAR register and the double-fault stack\<close>

text \<open>The double-fault gate selects entry 1 of the interrupt stack table (\<^verbatim>\<open>set_stack_index(1)\<close>, counted from zero); only entry
  0 is ever given a stack.\<close>

lemma double_fault_stack_unset: "interrupt_stack_table (set_rsp0 rsp (gdt_tss r d new_tss)) ! 1 = 0"
  by (simp add: gdt_tss_def set_rsp0_def new_tss_def Let_def)

text \<open>What the crate documents: selectors are the indices of consecutive descriptors (two for a task state segment) with
  the descriptor's privilege level, and \<^verbatim>\<open>Star::write\<close> fails unless the user code segment follows the user data
  segment.\<close>

definition privilege :: "Descriptor \<Rightarrow> u16" where
  "privilege d = (if d = User_Code \<or> d = User_Data then 3 else 0)"

definition consecutive :: "(Descriptor \<Rightarrow> 't \<Rightarrow> u16 \<times> 't) \<Rightarrow> ('t \<Rightarrow> u16) \<Rightarrow> bool" where
  "consecutive append_desc next_index \<longleftrightarrow>
     (\<forall>d t. fst (append_desc d t) = 8 * next_index t + privilege d \<and>
       next_index (snd (append_desc d t)) = next_index t + (if d = Tss then 2 else 1))"

definition checks_sysret :: "(u16 \<Rightarrow> u16 \<Rightarrow> u16 \<Rightarrow> u16 \<Rightarrow> u64 option) \<Rightarrow> bool" where
  "checks_sysret star_write \<longleftrightarrow> (\<forall>cs ss kcs kss. uint cs - 16 \<noteq> uint ss - 8 \<longrightarrow> star_write cs ss kcs kss = None)"

text \<open>STAR is never set up. The descriptor table puts user code before user data, \<^verbatim>\<open>sysret\<close> needs the opposite order,
  and \<open>init\<close> discards the error of \<^verbatim>\<open>Star::write\<close>: system calls are enabled in EFER and LSTAR while STAR keeps the
  value it had before.\<close>

theorem star_not_written:
  assumes "consecutive append_desc next_index" "next_index t0 = 1" "checks_sysret star_write"
    and "gdt_selectors append_desc t0 = (s, t1)"
  shows "\<exists>r'. syscall_init star_write (Some s) entry r = Inr r' \<and> msr_star r' = msr_star r \<and> msr_lstar r' = entry \<and> bit (msr_efer r') 0"
proof -
  have "user_code s = 0x1B \<and> user_data s = 0x23"
    using assms(1,2,4) by (auto simp: gdt_selectors_def consecutive_def privilege_def Let_def case_prod_beta)
  then have "star_write (user_code s) (user_data s) (kernel_code s) (kernel_data s) = None"
    using assms(3) by (auto simp: checks_sysret_def)
  then show ?thesis by (simp add: syscall_init_def bit_or_iff)
qed

theorem star_not_written_witness:
  "\<exists>r'. syscall_init (\<lambda>cs ss kcs kss. if uint cs - 16 = uint ss - 8 then Some 0 else None)
      (Some (fst (gdt_selectors (\<lambda>d i. (8 * i + privilege d, i + (if d = Tss then 2 else 1))) 1))) 0x1000
      \<lparr>msr_star = 7, msr_lstar = 0, msr_efer = 0\<rparr> = Inr r' \<and> msr_star r' = 7"
proof -
  let ?app = "\<lambda>d i. (8 * i + privilege d, i + (if d = Tss then 2 else 1)) :: u16 \<times> u16"
  have "consecutive ?app (\<lambda>i. i)" by (simp add: consecutive_def)
  moreover have "checks_sysret (\<lambda>cs ss kcs kss. if uint cs - 16 = uint ss - 8 then Some 0 else None)" by (simp add: checks_sysret_def)
  moreover obtain s t1 where "gdt_selectors ?app 1 = (s, t1)" by fastforce
  ultimately show ?thesis
    using star_not_written [of ?app "\<lambda>i. i" 1 _ s t1 "0x1000" "\<lparr>msr_star = 7, msr_lstar = 0, msr_efer = 0\<rparr>"] by fastforce
qed

end
