(* ===== verification/Boot.thy ===== *)
theory Boot
  imports Memory_Properties Nt_Properties Desktop_Properties Ps2 Syscall_Entry Aarch64_Decode
begin

text \<open>
  Bringing the kernel up: the initialisers in the order \<^verbatim>\<open>kernel::init\<close> calls them (\<^verbatim>\<open>kernel/src/lib.rs\<close>,
  \<^verbatim>\<open>arch/x86_64/mod.rs\<close>, \<^verbatim>\<open>win32/mod.rs\<close>), the self-test of \<^verbatim>\<open>win32/mod.rs\<close> and \<^verbatim>\<open>kernel_main\<close> (\<^verbatim>\<open>main.rs\<close>). Log output is
  left out. The file the self-test writes, the contents of the page-table register and the code addresses are arguments.
\<close>

section \<open>Initialisation\<close>

definition win32_init :: "os \<Rightarrow> os" where
  "win32_init s = init_syscall_table (nt_init s)"

text \<open>The statics after \<^verbatim>\<open>init\<close>, before \<^verbatim>\<open>kernel_main\<close> sets up memory.\<close>

definition kernel_init :: "os \<Rightarrow> os" where
  "kernel_init s = win32_init (s\<lparr>files := vfs_init (files s)\<rparr>)"

definition static_os :: "machine \<Rightarrow> os" where
  "static_os m = \<lparr>kern = initial_kernel m new_bump, handles = initial_handles, files = static_vfs, procs = (\<lambda>_. None),
     nt_initialized = False, syscall_table = replicate 256 None\<rparr>"

section \<open>The self-test\<close>

definition expect :: "'a option \<Rightarrow> 'a res" where
  "expect x = (case x of Some y \<Rightarrow> Inr y | None \<Rightarrow> Inl Expect_Failed)"

definition BIN :: bytes where "BIN = map of_char ''/bin''"
definition TEST_EXE :: bytes where "TEST_EXE = map of_char ''/bin/test.exe''"

definition bin_directory :: "vfs \<Rightarrow> (NodeId \<times> vfs) res" where
  "bin_directory v =
     (case vfs_lookup v BIN of
        Some n \<Rightarrow> Inr (n, v)
      | None \<Rightarrow> (case vfs_create 0 (map of_char ''bin'') Directory v of (r, v') \<Rightarrow> map_res (\<lambda>n. (n, v')) (expect r)))"

definition test_exe_node :: "NodeId \<Rightarrow> vfs \<Rightarrow> (NodeId \<times> vfs) res" where
  "test_exe_node bin v =
     (case vfs_create bin (map of_char ''test.exe'') NodeKind.File v of
        (Some n, v') \<Rightarrow> Inr (n, v')
      | (None, v') \<Rightarrow> map_res (\<lambda>n. (n, v')) (expect (vfs_lookup v' TEST_EXE)))"

definition install_fixture :: "bytes \<Rightarrow> os \<Rightarrow> os res" where
  "install_fixture fixture s =
     bind_res (bin_directory (files s)) (\<lambda>(bin, v1).
     bind_res (test_exe_node bin v1) (\<lambda>(test_exe, v2).
     bind_res (vfs_open test_exe True v2) (\<lambda>(r, v3).
     bind_res (expect r) (\<lambda>fh.
     bind_res (vfs_write fh fixture v3 (mach (kern s))) (\<lambda>(w, v4, m).
     bind_res (expect w) (\<lambda>written.
     if written \<noteq> length fixture then Inl Assert_Failed
     else bind_res (vfs_close fh v4) (\<lambda>(_, v5). Inr (s\<lparr>files := v5, kern := (kern s)\<lparr>mach := m\<rparr>\<rparr>))))))))"

definition aarch64_self_test :: "Instruction list" where
  "aarch64_self_test = map aarch64_decode [0xD503201F, 0xD65F03C0, 0xD4000001, 0x94000000]"

text \<open>The first thread of the new process; control leaves through \<open>entry\<close> and does not come back.\<close>

definition launch_process :: "u64 \<Rightarrow> u64 \<Rightarrow> Process \<Rightarrow> bool \<Rightarrow> os \<Rightarrow> (entry \<times> os) res" where
  "launch_process stub exit_addr p needs_translation s =
     bind_res (create_thread stub (proc_pid p) (proc_entry_point p) (proc_root p) (kern s)) (\<lambda>(r, k1).
     bind_res (expect r) (\<lambda>slot.
     bind_res (expect (thread_mut k1 slot)) (\<lambda>_.
     if needs_translation then (case enter_interpreter slot k1 of (e, k2) \<Rightarrow> Inr (e, s\<lparr>kern := k2\<rparr>))
     else map_res (\<lambda>(e, k2). (e, s\<lparr>kern := k2\<rparr>)) (enter_user_mode exit_addr slot k1))))"

text \<open>\<^const>\<open>None\<close>: the self-test gave up and returned to its caller.\<close>

definition self_test :: "bytes \<Rightarrow> u64 \<Rightarrow> u64 \<Rightarrow> os \<Rightarrow> (entry option \<times> os) res" where
  "self_test fixture stub exit_addr s =
     bind_res (install_fixture fixture s) (\<lambda>s1.
     bind_res (create_user_process TEST_EXE s1) (\<lambda>(r, s2).
     case r of
       None \<Rightarrow> Inr (None, s2)
     | Some (h, needs_translation) \<Rightarrow>
         (case lookup (handles s2) h of
            None \<Rightarrow> Inr (None, s2)
          | Some obj \<Rightarrow>
              map_res (\<lambda>(e, s3). (Some e, s3)) (launch_process stub exit_addr (the (procs s2 (obj_data obj))) needs_translation s2))))"

section \<open>kernel_main\<close>

datatype outcome_of_boot =
  Launched entry os
| Desktop_Up gui os

definition with_memory :: "frame_allocator \<Rightarrow> bump_allocator \<Rightarrow> u64 \<Rightarrow> os \<Rightarrow> os" where
  "with_memory fa h cr3_register s =
     s\<lparr>kern := (kern s)\<lparr>mach := capture_kernel_page_table cr3_register ((mach (kern s))\<lparr>falloc := fa\<rparr>), heap := h\<rparr>\<rparr>"

definition kernel_main ::
  "bytes \<Rightarrow> u64 \<Rightarrow> u64 \<Rightarrow> u64 \<Rightarrow> MemoryRegion list \<Rightarrow> (bytes \<times> FrameBufferInfo) option \<Rightarrow> os \<Rightarrow> outcome_of_boot res" where
  "kernel_main fixture stub exit_addr cr3_register regions framebuffer s =
     bind_res (boot_memory regions) (\<lambda>(fa, h).
     bind_res (self_test fixture stub exit_addr (with_memory fa h cr3_register (kernel_init s))) (\<lambda>(e, s1).
     case e of
       Some e \<Rightarrow> Inr (Launched e s1)
     | None \<Rightarrow>
         bind_res (start_screen framebuffer initial_mouse (initial_gui (heap (kern s1)))) (\<lambda>g.
         Inr (Desktop_Up g (s1\<lparr>kern := (kern s1)\<lparr>heap := gui_heap g\<rparr>\<rparr>)))))"

section \<open>Properties\<close>

lemma sample_boot_memory: "\<exists>fa. boot_memory sample_map = Inr (fa, init_heap 0x100000 0x400000 new_bump)"
proof -
  obtain fa where "init_frames sample_map = Inr fa" using init_frames_ok [OF sample_map_sane] by blast
  then show ?thesis by (simp add: boot_memory_def collect_regions_def sample_map_def chk_defs)
qed

lemma bind_res_InrE: "bind_res r f = Inr y \<Longrightarrow> (\<And>x. r = Inr x \<Longrightarrow> f x = Inr y \<Longrightarrow> thesis) \<Longrightarrow> thesis"
  by (cases r) auto

lemma install_fixture_handles: "install_fixture fixture s = Inr s1 \<Longrightarrow> handles s1 = handles s"
  by (auto simp: install_fixture_def bind_res_Inr_iff split: if_splits)

lemma boot_handles: "handles (with_memory fa h c (kernel_init s)) = handles s"
  by (simp add: with_memory_def kernel_init_def win32_init_def init_syscall_table_def nt_init_def)

lemma load_pe_handle:
  assumes run: "load_pe sl p s = Inr (Some (h, tr), s')" and first: "handles s = initial_handles"
  shows "lookup (handles s') h \<noteq> None"
proof -
  define t where "t ptr = snd (allocate ObjectKind.Process ptr initial_handles)" for ptr
  have al: "allocate ObjectKind.Process ptr initial_handles = (Some 1, t ptr)"
    "packed [\<lparr>obj_kind = ObjectKind.Process, obj_data = ptr\<rparr>] (t ptr)" for ptr
    using packed_allocate [OF packed_initial, of ObjectKind.Process ptr] by (simp_all add: MAX_HANDLES_def t_def)
  obtain ptr where "h = 1" "handles s' = t ptr"
    using run first by (auto simp: load_pe_def bind_res_Inr_iff Let_def al(1) split: option.splits if_splits)
  then show ?thesis using packed_lookup [OF al(2), of 0 ptr] by (simp add: MAX_HANDLES_def)
qed

lemma create_user_process_handle:
  assumes run: "create_user_process path s = Inr (Some (h, tr), s')" and first: "handles s = initial_handles"
  shows "lookup (handles s') h \<noteq> None"
proof -
  have "\<exists>sl p s3. load_pe sl p s3 = Inr (Some (h, tr), s') \<and> handles s3 = handles s"
    using run
    by (auto simp: create_user_process_def Let_def elim!: bind_res_InrE split: option.splits sum.splits if_splits)
      (fastforce simp: os_write_def)
  then show ?thesis using load_pe_handle first by auto
qed

lemma launch_enters:
  assumes "launch_process stub exit_addr p tr s = Inr (e, s')"
  shows "e \<noteq> Halt \<and> current_thread (kern s') \<noteq> None"
  using assms
  by (auto simp: launch_process_def bind_res_Inr_iff map_res_Inr_iff expect_def enter_interpreter_def enter_user_mode_def
      start_thread_def Let_def split: option.splits if_splits)

text \<open>C24: the desktop comes up only when the self-test fails. Every boot that does not panic installs the test program and
  tries to create a process from it: if that succeeds, the process's first thread becomes the current thread and control
  goes to it for good, so the compositor and the idle loop of \<open>kernel_main\<close> are reached exactly when it fails.\<close>

theorem desktop_only_without_process:
  assumes "kernel_main fixture stub exit_addr cr3 regions framebuffer (static_os m) = Inr out"
  shows "\<exists>fa h s1 r s2. boot_memory regions = Inr (fa, h) \<and>
    install_fixture fixture (with_memory fa h cr3 (kernel_init (static_os m))) = Inr s1 \<and>
    create_user_process TEST_EXE s1 = Inr (r, s2) \<and>
    (r = None \<longleftrightarrow> (\<exists>g s. out = Desktop_Up g s)) \<and>
    (r \<noteq> None \<longrightarrow> (\<exists>e s. out = Launched e s \<and> e \<noteq> Halt \<and> current_thread (kern s) \<noteq> None))"
proof -
  obtain fa h e s3 where mem: "boot_memory regions = Inr (fa, h)"
    and st: "self_test fixture stub exit_addr (with_memory fa h cr3 (kernel_init (static_os m))) = Inr (e, s3)"
    and e: "case e of Some e \<Rightarrow> out = Launched e s3 | None \<Rightarrow> \<exists>g s. out = Desktop_Up g s"
    using assms by (auto simp: kernel_main_def bind_res_Inr_iff split: option.splits)
  obtain s1 r s2 where s1: "install_fixture fixture (with_memory fa h cr3 (kernel_init (static_os m))) = Inr s1"
    and r: "create_user_process TEST_EXE s1 = Inr (r, s2)"
    and rest: "(case r of None \<Rightarrow> Inr (None, s2) | Some (h, needs_translation) \<Rightarrow>
         (case lookup (handles s2) h of None \<Rightarrow> Inr (None, s2)
          | Some obj \<Rightarrow> map_res (\<lambda>(e, s3). (Some e, s3)) (launch_process stub exit_addr (the (procs s2 (obj_data obj))) needs_translation s2)))
       = (Inr (e, s3) :: (entry option \<times> os) res)"
    using st by (auto simp: self_test_def bind_res_Inr_iff)
  have first: "handles s1 = initial_handles" using install_fixture_handles [OF s1] by (simp add: boot_handles static_os_def)
  show ?thesis
  proof (cases r)
    case None
    then show ?thesis using mem s1 r rest e by auto
  next
    case (Some q)
    obtain hd tr where q: "r = Some (hd, tr)" using Some by (cases q) simp
    obtain obj where "lookup (handles s2) hd = Some obj" using create_user_process_handle [OF r [unfolded q] first] by blast
    then obtain e' where "e = Some e'" "launch_process stub exit_addr (the (procs s2 (obj_data obj))) tr s2 = Inr (e', s3)"
      using rest q by (auto simp: map_res_Inr_iff)
    then show ?thesis using mem s1 r q e launch_enters by fastforce
  qed
qed

text \<open>With an empty test program no process is created, and the boot ends at the desktop loop.\<close>

lemma boot_nodes:
  "nodes (vfs_init static_vfs) = Some \<lparr>node_kind = Directory, node_parent = None, node_name = SLASH # replicate 63 0, name_len = 1\<rparr> #
     None # None # replicate 253 None"
proof -
  have "(256 :: nat) = Suc (Suc (Suc 253))" by simp
  then show ?thesis by (simp only: vfs_init_def static_vfs_def MAX_NODES_def MAX_NAME_LEN_def replicate_Suc) simp
qed

lemma position_none [simp]: "position (\<lambda>slot. case slot of None \<Rightarrow> False | Some n \<Rightarrow> P n) (replicate k None) = None"
  by (simp add: position_None_iff)

lemma test_paths:
  "trim_slashes BIN = map of_char ''bin''" "split_slash (map of_char ''bin'') = [map of_char ''bin'']"
  "split_slash (trim_slashes TEST_EXE) = [map of_char ''bin'', map of_char ''test.exe'']" "trim_slashes TEST_EXE \<noteq> []"
  by (simp_all add: BIN_def TEST_EXE_def trim_slashes_def SLASH_def)

definition sample_nodes :: "Node option list" where
  "sample_nodes =
     (let node = \<lambda>n k p. Some \<lparr>node_kind = k, node_parent = Some p, node_name = n @ replicate (64 - length n) 0, name_len = length n\<rparr>
      in hd (nodes (vfs_init static_vfs)) # node (map of_char ''bin'') Directory 0 # node (map of_char ''test.exe'') NodeKind.File 1 # replicate 253 None)"

lemma sample_nodes_created:
  "\<exists>v1. bin_directory (vfs_init static_vfs) = Inr (1, v1) \<and> test_exe_node 1 v1 = Inr (2, (vfs_init static_vfs)\<lparr>nodes := sample_nodes\<rparr>)"
  by (simp add: bin_directory_def vfs_lookup_def test_paths find_child_def boot_nodes vfs_create_def MAX_NAME_LEN_def expect_def
      SLASH_def test_exe_node_def name_str_def sample_nodes_def Let_def)

lemma sample_nodes_at: "2 < length sample_nodes" "\<exists>n. sample_nodes ! 2 = Some n \<and> node_kind n = NodeKind.File"
  by (simp_all add: sample_nodes_def Let_def)

lemma sample_nodes_lookup: "nodes v = sample_nodes \<Longrightarrow> vfs_lookup v TEST_EXE = Some 2"
  by (simp add: vfs_lookup_def test_paths find_child_def sample_nodes_def boot_nodes name_str_def Let_def)

lemma empty_fixture_fails:
  assumes s: "files s = vfs_init static_vfs" "heap (kern s) = init_heap 0x100000 0x400000 new_bump"
  shows "\<exists>s'. self_test [] stub exit_addr s = Inr (None, s')"
proof -
  obtain v1 where v1: "bin_directory (files s) = Inr (1, v1)" "test_exe_node 1 v1 = Inr (2, (vfs_init static_vfs)\<lparr>nodes := sample_nodes\<rparr>)"
    using sample_nodes_created s(1) by auto
  define v2 where "v2 = (vfs_init static_vfs)\<lparr>nodes := sample_nodes\<rparr>"
  have v2: "nodes v2 = sample_nodes" "open_files v2 = replicate 64 None" "2 < length (file_sizes v2)" "file_sizes v2 ! 2 = 0" "2 < length (file_data v2)"
    by (simp_all add: v2_def vfs_init_def static_vfs_def MAX_OPEN_FILES_def MAX_NODES_def)
  obtain n where n: "sample_nodes ! 2 = Some n" "node_kind n = NodeKind.File" using sample_nodes_at(2) by blast
  let ?f = "\<lambda>w. \<lparr>of_node = 2, of_position = 0, of_writable = w\<rparr>"
  have opn: "vfs_open 2 w v = Inr (Some 0, v\<lparr>open_files := (open_files v)[0 := Some (?f w)]\<rparr>)"
    if "nodes v = sample_nodes" "open_files v = replicate 64 None" for v w
    using that n sample_nodes_at(1) by (simp add: vfs_open_def index_chk_def position_replicate)
  let ?v3 = "v2\<lparr>open_files := (open_files v2)[0 := Some (?f True)]\<rparr>"
  have same: "(file_sizes v2)[2 := 0] = file_sizes v2" using v2(4) by (metis list_update_id)
  have wr: "vfs_write 0 [] ?v3 m = Inr (Some 0, v2\<lparr>open_files := (open_files v2)[0 := Some (?f True)], file_sizes := file_sizes v2\<rparr>, m)" for m
    using v2 same by (simp add: vfs_write_def index_chk_def write_loop.simps)
  define v where "v = v2\<lparr>open_files := (replicate 64 None)[0 := None]\<rparr>"
  have inst: "install_fixture [] s = Inr (s\<lparr>files := v, kern := kern s\<rparr>)"
    unfolding install_fixture_def v1(1) using v1(2) opn [OF v2(1,2), of True] wr v2
    by (simp add: v2_def [symmetric] v_def expect_def vfs_close_def index_chk_def)
  have v: "nodes v = sample_nodes" "open_files v = replicate 64 None" "2 < length (file_sizes v)" "file_sizes v ! 2 = 0" "2 < length (file_data v)"
    using v2 list_update_id [of "replicate 64 None" 0] by (simp_all add: v_def)
  have al: "kernel_alloc 0 1 (kern s) = Inr (Some 0x100000, (kern s)\<lparr>heap := init_heap 0x100000 0x400000 new_bump\<rparr>)"
    by (simp add: kernel_alloc_def alloc_early_def bump_allocate_def s(2) chk_defs checked_add_def init_heap_def new_bump_def Let_def)
  have "\<exists>s'. create_user_process TEST_EXE (s\<lparr>files := v, kern := kern s\<rparr>) = Inr (None, s')"
    using v al opn [OF v(1,2), of False]
    by (simp add: create_user_process_def open_vfs_file_def sample_nodes_lookup open_node_def file_size_def index_chk_def
        vfs_read_def read_loop.simps vfs_close_def load_pe_def slice_bytes_def read_bytes_def parse_pe_def Let_def)
  then show ?thesis using inst by (auto simp: self_test_def)
qed

theorem desktop_only_without_process_witness:
  "\<exists>g s s1 s2. kernel_main [] 0x40 0x80 0x1000 sample_map None (static_os sample_machine) = Inr (Desktop_Up g s) \<and>
     create_user_process TEST_EXE s1 = Inr (None, s2)"
proof -
  obtain fa where mem: "boot_memory sample_map = Inr (fa, init_heap 0x100000 0x400000 new_bump)" using sample_boot_memory by blast
  let ?s = "with_memory fa (init_heap 0x100000 0x400000 new_bump) 0x1000 (kernel_init (static_os sample_machine))"
  have "files ?s = vfs_init static_vfs" "heap (kern ?s) = init_heap 0x100000 0x400000 new_bump"
    by (simp_all add: with_memory_def kernel_init_def win32_init_def init_syscall_table_def nt_init_def static_os_def)
  from empty_fixture_fails [OF this, of "0x40" "0x80"] obtain g s where
    out: "kernel_main [] 0x40 0x80 0x1000 sample_map None (static_os sample_machine) = Inr (Desktop_Up g s)"
    using mem by (auto simp: kernel_main_def start_screen_def)
  from desktop_only_without_process [OF out] out show ?thesis by blast
qed

text \<open>The decoder check of the self-test.\<close>

lemma aarch64_self_test_decodes: "aarch64_self_test = [Nop, Ret, Svc 0, Bl 0]"
  by (simp add: aarch64_self_test_def aarch64_decode_def sign_extend_26_def)

end
