(* ===== verification/Translation.thy ===== *)
theory Translation
  imports Prelude
begin

text \<open>
  The interface of the binary translators (\<^verbatim>\<open>kernel/src/win32/abi/mod.rs\<close>, \<^verbatim>\<open>x86_jit.rs\<close>, \<^verbatim>\<open>aarch64_jit.rs\<close>). The translators are
  placeholders: the unit they return points at the guest code itself. A code slice is its address and its bytes.
\<close>

datatype GuestArch = X86 | X86_64 | Aarch64

record TranslationUnit =
  guest_entry :: u64
  host_entry :: u64
  guest_arch :: GuestArch

definition translate_guest :: "GuestArch \<Rightarrow> u64 \<Rightarrow> bytes \<Rightarrow> TranslationUnit option" where
  "translate_guest arch guest_pc code = None"

definition x86_translate_block :: "u64 \<Rightarrow> u64 \<times> bytes \<Rightarrow> bool \<Rightarrow> TranslationUnit option" where
  "x86_translate_block guest_pc code is_64bit =
     (if snd code = [] then None
      else Some \<lparr>guest_entry = guest_pc, host_entry = fst code, guest_arch = (if is_64bit then X86_64 else X86)\<rparr>)"

definition aarch64_translate_block :: "u64 \<Rightarrow> u64 \<times> bytes \<Rightarrow> TranslationUnit option" where
  "aarch64_translate_block guest_pc code =
     (if length (snd code) < 4 then None
      else Some \<lparr>guest_entry = guest_pc, host_entry = fst code, guest_arch = Aarch64\<rparr>)"

text \<open>Whatever unit a translator returns resumes at the guest address it was given.\<close>

lemma translated_entry:
  "x86_translate_block pc code b = Some u \<Longrightarrow> guest_entry u = pc \<and> host_entry u = fst code"
  "aarch64_translate_block pc code = Some u \<Longrightarrow> guest_entry u = pc \<and> host_entry u = fst code"
  by (auto simp: x86_translate_block_def aarch64_translate_block_def split: if_splits)

end
