(* ===== verification/Frame_Runs.thy ===== *)
theory Frame_Runs
  imports Loader
begin

text \<open>
  Which frames a sequence of allocations takes. The allocator hands out the lowest free frame, so a run of consecutive free frames
  at the bottom is used up in order; the image of a process and the tables that map it come from it.
\<close>

section \<open>Runs of free frames\<close>

text \<open>The \<open>n\<close> lowest free frames lie one after the other from \<open>a\<close>.\<close>

definition frame_run :: "u64 \<Rightarrow> nat \<Rightarrow> frame_allocator \<Rightarrow> bool" where
  "frame_run a n fa \<longleftrightarrow> (\<forall>i<n. a + of_nat (4096 * i) \<in> free_frames fa) \<and> (\<forall>g\<in>free_frames fa. a \<le> g)"

lemma free_frame_bounds:
  assumes "fa_inv fa" "f \<in> free_frames fa"
  shows "page_aligned f" "unat f + 4096 < 2 ^ 64"
proof -
  obtain i where i: "i < frame_count fa" "f = frame_addr fa i" using assms(2) by (auto simp: free_frames_def)
  show "page_aligned f" using frame_addr_aligned [OF assms(1) i(1)] i(2) by simp
  have "4096 * Suc i \<le> 4096 * frame_count fa" using i(1) by (intro mult_le_mono2) simp
  then show "unat f + 4096 < 2 ^ 64" using i unat_frame_addr [OF assms(1) i(1)] assms(1) by (simp add: fa_inv_def)
qed

lemma frame_run_unat:
  assumes "fa_inv fa" "frame_run a n fa" "i < n"
  shows "unat (a + of_nat (4096 * i) :: u64) = unat a + 4096 * i"
  using assms(3)
proof (induction i)
  case (Suc i)
  then have IH: "unat (a + of_nat (4096 * i) :: u64) = unat a + 4096 * i" by simp
  have "a + of_nat (4096 * i) \<in> free_frames fa" using assms(2) Suc.prems by (simp add: frame_run_def)
  from free_frame_bounds(2) [OF assms(1) this] have "unat (a + of_nat (4096 * i) + 4096 :: u64) = unat a + 4096 * i + 4096"
    unfolding IH [symmetric] by (simp add: unat_word_ariths)
  moreover have "a + of_nat (4096 * Suc i) = a + of_nat (4096 * i) + (4096 :: u64)" by (simp add: algebra_simps)
  ultimately show ?case by (simp only: mult_Suc_right)
qed simp

lemma aligned_next: "page_aligned a \<Longrightarrow> page_aligned g \<Longrightarrow> a < g \<Longrightarrow> unat a + 4096 \<le> unat g"
  by (auto simp: page_aligned_iff word_less_nat_alt mod_eq_0_iff_dvd elim!: dvdE)

lemma alloc_frame_run:
  assumes inv: "fa_inv (falloc m)" and run: "frame_run a (Suc n) (falloc m)"
  obtains fa' where "alloc_frame m = (Some a, m\<lparr>falloc := fa'\<rparr>)" "fa_inv fa'" "frame_run (a + 4096) n fa'"
    "free_frames fa' = free_frames (falloc m) - {a}" "a \<in> free_frames (falloc m)" "same_layout (falloc m) fa'"
proof -
  have a: "a \<in> free_frames (falloc m)" using run by (force simp: frame_run_def)
  obtain r fa' where al: "allocate_frame (falloc m) = (r, fa')" by fastforce
  have "r \<noteq> None" using allocate_frame_None(1) [OF inv] al a by (cases r) auto
  then obtain f where f: "r = Some f" by blast
  note S = allocate_frame_Some [OF inv al [unfolded f]]
  have fa: "f = a" using S(1,2) a run by (fastforce simp: frame_run_def)
  have ab: "page_aligned a" "unat a + 4096 < 2 ^ 64" using free_frame_bounds [OF inv a] by auto
  have "frame_run (a + 4096) n fa'"
    unfolding frame_run_def
  proof (intro conjI ballI allI impI)
    fix i assume i: "i < n"
    have e: "a + 4096 + of_nat (4096 * i) = a + of_nat (4096 * Suc i)" by (simp add: algebra_simps)
    have "a + of_nat (4096 * Suc i) \<in> free_frames (falloc m)" using run i unfolding frame_run_def by (meson Suc_less_eq)
    moreover have "a + of_nat (4096 * Suc i) \<noteq> a" using frame_run_unat [OF inv run, of "Suc i"] i by (intro notI) simp
    ultimately show "a + 4096 + of_nat (4096 * i) \<in> free_frames fa'" unfolding e S(3) fa by blast
  next
    fix g assume "g \<in> free_frames fa'"
    then have g: "g \<in> free_frames (falloc m)" "g \<noteq> a" using S(3) fa by auto
    then have "a < g" using run by (force simp: frame_run_def)
    then have "unat a + 4096 \<le> unat g" by (rule aligned_next [OF ab(1) free_frame_bounds(1) [OF inv g(1)]])
    then show "a + 4096 \<le> g" using ab(2) by (simp add: word_le_nat_alt unat_add_small)
  qed
  moreover have "alloc_frame m = (Some a, m\<lparr>falloc := fa'\<rparr>)" using al f fa by (simp add: alloc_frame_def)
  ultimately show ?thesis using that S(3,4,5) a fa by blast
qed

section \<open>Page tables take the lowest frames\<close>

definition takes_lowest :: "u64 \<Rightarrow> machine \<Rightarrow> machine \<Rightarrow> bool" where
  "takes_lowest root m m' \<longleftrightarrow> free_frames (falloc m') \<subseteq> free_frames (falloc m) \<and>
     (\<forall>f\<in>free_frames (falloc m) - free_frames (falloc m'). \<forall>g\<in>free_frames (falloc m'). f < g) \<and>
     tables m' root \<subseteq> tables m root \<union> (free_frames (falloc m) - free_frames (falloc m')) \<and>
     (\<forall>x. frame_of x \<notin> tables m root \<union> (free_frames (falloc m) - free_frames (falloc m')) \<longrightarrow> phys m' x = phys m x)"

lemma takes_lowest_refl: "takes_lowest root m m"
  by (simp add: takes_lowest_def)

lemma takes_lowest_trans:
  assumes "takes_lowest root a b" "takes_lowest root b c"
  shows "takes_lowest root a c"
proof -
  define A B C where "A = free_frames (falloc a)" and "B = free_frames (falloc b)" and "C = free_frames (falloc c)"
  have ab: "B \<subseteq> A" "\<And>f g. f \<in> A - B \<Longrightarrow> g \<in> B \<Longrightarrow> f < g" "tables b root \<subseteq> tables a root \<union> (A - B)"
    and bc: "C \<subseteq> B" "\<And>f g. f \<in> B - C \<Longrightarrow> g \<in> C \<Longrightarrow> f < g" "tables c root \<subseteq> tables b root \<union> (B - C)"
    using assms by (simp_all add: takes_lowest_def A_def B_def C_def)
  have "f < g" if "f \<in> A - C" "g \<in> C" for f g
    using that ab(2) [of f g] bc(1) bc(2) [of f g] by blast
  moreover have tb: "tables c root \<subseteq> tables a root \<union> (A - C)" using ab(1,3) bc(1,3) by blast
  moreover have "phys c x = phys a x" if x: "frame_of x \<notin> tables a root \<union> (A - C)" for x
  proof -
    have "frame_of x \<notin> tables a root \<union> (A - B)" "frame_of x \<notin> tables b root \<union> (B - C)" using x ab(1,3) bc(1) by blast+
    then show ?thesis using assms unfolding takes_lowest_def A_def B_def C_def by simp
  qed
  ultimately show ?thesis using ab(1) bc(1) by (auto simp: takes_lowest_def A_def [symmetric] C_def [symmetric])
qed

lemma next_table_lowest:
  assumes wf: "pt_wf m root" and t: "table_at m root p = Some t" and pi: "path_ok (p @ [i])"
    and run: "next_table m t i True = (r, m')"
  shows "takes_lowest root m m'"
proof (cases "walk_step m t i")
  case (Some u)
  then have "m' = m" using run by (auto simp: walk_step_def next_table_def Let_def split: if_splits)
  then show ?thesis by (simp add: takes_lowest_refl)
next
  case None
  then have np: "read_entry m t i AND PAGE_PRESENT = 0"
    by (auto simp: walk_step_eq Let_def PAGE_PRESENT_def split: if_splits)
  obtain o1 fa' where al: "allocate_frame (falloc m) = (o1, fa')" by fastforce
  show ?thesis
  proof (cases o1)
    case n: None
    then have "m' = m\<lparr>falloc := fa'\<rparr>" using run np al by (auto simp: next_table_def alloc_frame_def Let_def)
    then show ?thesis using allocate_frame_None [OF pt_wfD(1) [OF wf] al [unfolded n]] by (simp add: takes_lowest_def)
  next
    case (Some f)
    note a = allocate_frame_Some [OF pt_wfD(1) [OF wf] al [unfolded Some]]
    have pf: "page_aligned f" using fa.alloc_aligned [OF pt_wfD(1) [OF wf] al [unfolded Some]] .
    have m': "m' = (link_table m t i f)\<lparr>falloc := fa'\<rparr>"
      using run np al Some by (auto simp: next_table_def alloc_frame_def Let_def link_table_def write_entry_def zero_frame_def)
    have "tables (link_table m t i f) root \<subseteq> tables m root \<union> {f}"
      using table_at_link_table [OF wf t pi a(1) pf] unfolding tables_def by (fastforce split: if_splits)
    moreover have "f < g" if "g \<in> free_frames (falloc m) - {f}" for g using a(2) [of g] that by auto
    moreover have "t \<in> tables m root" "i < 512" using pi t by (auto simp: path_ok_snoc intro: tablesI)
    then have "phys (link_table m t i f) x = phys m x" if "frame_of x \<notin> tables m root" "frame_of x \<noteq> f" for x
      using that link_table_other [OF table_at_aligned [OF pt_wfD(2) [OF wf] t] _ pf] by metis
    ultimately show ?thesis using a(1,3) by (auto simp: takes_lowest_def m')
  qed
qed

lemma write_leaf_tables:
  assumes "pt_wf m root" "table_at m root (virt_path v) = Some t"
  shows "takes_lowest root m (write_entry m t (pt_index v) e)"
proof -
  have "falloc (write_entry m t (pt_index v) e) = falloc m" by (simp add: write_entry_def)
  moreover have "length (virt_path v) = 3" by (simp add: virt_path_def)
  then have "tables (write_entry m t (pt_index v) e) root = tables m root"
    using table_at_write_leaf [OF assms path_ok_virt_path _ index_bound(4)] unfolding tables_def by auto
  moreover have "t \<in> tables m root" using assms(2) path_ok_virt_path by (intro tablesI)
  then have "phys (write_entry m t (pt_index v) e) x = phys m x" if "frame_of x \<notin> tables m root" for x
    using that write_u64_entry_other_frame [OF table_at_aligned [OF pt_wfD(2) [OF assms(1)] assms(2)] index_bound(4)]
    by (simp add: write_entry_def) metis
  ultimately show ?thesis by (simp add: takes_lowest_def)
qed

lemma map_page_lowest:
  assumes wf: "pt_wf m root" and run: "map_page m root v paddr flags = (ok, m')"
  shows "takes_lowest root m m'"
proof -
  obtain o1 m1 where n1: "next_table m root (pml4_index v) True = (o1, m1)" by fastforce
  note s1 = next_table_create [OF wf table_at.simps(1) virt_path_snoc(2) n1]
  note l1 = next_table_lowest [OF wf table_at.simps(1) virt_path_snoc(2) n1]
  note wf1 = pt_grows_wf [OF s1(1)]
  show ?thesis
  proof (cases o1)
    case None
    with run n1 l1 show ?thesis by (simp add: map_page_def)
  next
    case (Some t1)
    note t1 = s1(3) [OF Some, unfolded append_Nil]
    obtain o2 m2 where n2: "next_table m1 t1 (pdpt_index v) True = (o2, m2)" by fastforce
    note s2 = next_table_create [OF wf1 t1 virt_path_snoc(3) n2]
    note l2 = takes_lowest_trans [OF l1 next_table_lowest [OF wf1 t1 virt_path_snoc(3) n2]]
    note wf2 = pt_grows_wf [OF s2(1)]
    show ?thesis
    proof (cases o2)
      case n: None
      with run n1 n2 Some l2 show ?thesis by (simp add: map_page_def)
    next
      case o2: (Some t2)
      note t2 = s2(3) [OF o2, unfolded append_Cons append_Nil]
      obtain o3 m3 where n3: "next_table m2 t2 (pd_index v) True = (o3, m3)" by fastforce
      note s3 = next_table_create [OF wf2 t2 virt_path_snoc(4) n3]
      note l3 = takes_lowest_trans [OF l2 next_table_lowest [OF wf2 t2 virt_path_snoc(4) n3]]
      show ?thesis
      proof (cases o3)
        case n: None
        with run n1 n2 n3 Some o2 l3 show ?thesis by (simp add: map_page_def)
      next
        case o3: (Some t3)
        have "table_at m3 root (virt_path v) = Some t3" using s3(3) [OF o3] by (simp add: virt_path_def)
        from takes_lowest_trans [OF l3 write_leaf_tables [OF pt_grows_wf [OF s3(1)] this]]
        show ?thesis using run n1 n2 n3 Some o2 o3 by (auto simp: map_page_def)
      qed
    qed
  qed
qed

text \<open>With four free frames below a bound, the tables of a new mapping are below it.\<close>

lemma map_page_low:
  assumes wf: "pt_wf m root" and run: "map_page m root v paddr flags = (ok, m')"
    and free: "B \<subseteq> free_frames (falloc m)" "4 \<le> card B" "finite B" and low: "\<forall>f\<in>B. f < b"
  shows "ok" "t \<in> tables m' root \<Longrightarrow> t \<in> tables m root \<or> t < b"
    "frame_of x \<notin> tables m root \<Longrightarrow> b \<le> frame_of x \<Longrightarrow> phys m' x = phys m x"
    "\<exists>B'. B' \<subseteq> free_frames (falloc m') \<and> card B \<le> card B' + 3 \<and> finite B' \<and> B' \<subseteq> B"
proof -
  note post = map_page_post [OF wf run, unfolded map_post_def] and l = map_page_lowest [OF wf run, unfolded takes_lowest_def]
  have fin: "finite (free_frames (falloc m))" by (rule finite_free_frames)
  have "4 \<le> card (free_frames (falloc m))" using card_mono [OF fin free(1)] free(2) by simp
  then show ok using post by linarith
  have c: "card (free_frames (falloc m) - free_frames (falloc m')) \<le> 3"
    using post l fin card_Diff_subset [of "free_frames (falloc m')" "free_frames (falloc m)"] finite_subset [OF _ fin] by force
  have "\<not> B \<subseteq> free_frames (falloc m) - free_frames (falloc m')"
    using card_mono [of "free_frames (falloc m) - free_frames (falloc m')" B] fin c free(2) by fastforce
  then obtain g where g: "g \<in> B" "g \<in> free_frames (falloc m')" using free(1) by blast
  show "t \<in> tables m root \<or> t < b" if "t \<in> tables m' root"
    using that l g bspec [OF low g(1)] by (meson UnE less_trans subsetD)
  show "phys m' x = phys m x" if "frame_of x \<notin> tables m root" "b \<le> frame_of x"
    using that l g bspec [OF low g(1)] by (meson UnE less_trans linorder_not_le)
  have "B - (B \<inter> free_frames (falloc m')) \<subseteq> free_frames (falloc m) - free_frames (falloc m')" using free(1) by blast
  then have "card (B - (B \<inter> free_frames (falloc m'))) \<le> 3"
    using card_mono [of "free_frames (falloc m) - free_frames (falloc m')"] fin c by (meson finite_Diff le_trans)
  moreover have "card B = card (B - (B \<inter> free_frames (falloc m'))) + card (B \<inter> free_frames (falloc m'))"
    using free(3) by (metis Int_lower1 add.commute card_Diff_subset card_mono finite_Int le_add_diff_inverse)
  ultimately show "\<exists>B'. B' \<subseteq> free_frames (falloc m') \<and> card B \<le> card B' + 3 \<and> finite B' \<and> B' \<subseteq> B"
    using free(3) by (intro exI [of _ "B \<inter> free_frames (falloc m')"]) auto
qed

section \<open>Loading one section\<close>

lemma contiguous_from_run:
  assumes "fa_inv (falloc m)" "frame_run (prev + 4096) (n + k) (falloc m)" "unat prev + 4096 * Suc n < 2 ^ 64"
  shows "\<exists>fa'. contiguous_from n prev m = Inr (True, m\<lparr>falloc := fa'\<rparr>) \<and> fa_inv fa' \<and>
    frame_run (prev + 4096 + of_nat (4096 * n)) k fa'"
  using assms
proof (induction n arbitrary: prev m)
  case 0
  then show ?case by (intro exI [of _ "falloc m"]) simp
next
  case (Suc n)
  obtain fa' where al: "alloc_frame m = (Some (prev + 4096), m\<lparr>falloc := fa'\<rparr>)" "fa_inv fa'" "frame_run (prev + 4096 + 4096) (n + k) fa'"
    using alloc_frame_run [OF Suc.prems(1), of "prev + 4096" "n + k"] Suc.prems(2) by auto
  have u: "unat (prev + 4096) = unat prev + 4096" using Suc.prems(3) by (simp add: unat_add_small)
  have "add_chk prev 4096 = Inr (prev + 4096)" using Suc.prems(3) by (simp add: add_chk_def)
  moreover obtain fb where "contiguous_from n (prev + 4096) (m\<lparr>falloc := fa'\<rparr>) = Inr (True, (m\<lparr>falloc := fa'\<rparr>)\<lparr>falloc := fb\<rparr>)"
      "fa_inv fb" "frame_run (prev + 4096 + 4096 + of_nat (4096 * n)) k fb"
    using Suc.IH [of "m\<lparr>falloc := fa'\<rparr>" "prev + 4096"] al u Suc.prems(3) by auto
  moreover have "prev + 4096 + 4096 + of_nat (4096 * n) = prev + 4096 + of_nat (4096 * Suc n)" by (simp add: algebra_simps)
  ultimately show ?case using al(1) by (intro exI [of _ fb]) (simp add: ac_simps)
qed

lemma allocate_contiguous_run:
  assumes inv: "fa_inv (falloc m)" and run: "frame_run a (n + k) (falloc m)" "0 < n" "0 < k"
  shows "\<exists>fa'. allocate_contiguous n m = Inr (Some a, m\<lparr>falloc := fa'\<rparr>) \<and> fa_inv fa' \<and> frame_run (a + of_nat (4096 * n)) k fa'"
proof -
  obtain l where n: "n = Suc l" using run(2) by (cases n) auto
  obtain fa' where al: "alloc_frame m = (Some a, m\<lparr>falloc := fa'\<rparr>)" "fa_inv fa'" "frame_run (a + 4096) (l + k) fa'"
    using alloc_frame_run [OF inv, of a "l + k"] run(1) n by auto
  have "unat a + 4096 * n < 2 ^ 64"
    using frame_run_unat [OF inv run(1), of n] run(3) unat_u64_less [of "a + of_nat (4096 * n)"] by simp
  then have "unat a + 4096 * Suc l < 2 ^ 64" by (simp add: n)
  from contiguous_from_run [of "m\<lparr>falloc := fa'\<rparr>" a l k] al this obtain fb where
    "contiguous_from l a (m\<lparr>falloc := fa'\<rparr>) = Inr (True, m\<lparr>falloc := fb\<rparr>)" "fa_inv fb" "frame_run (a + 4096 + of_nat (4096 * l)) k fb"
    by auto
  moreover have "a + 4096 + of_nat (4096 * l) = a + of_nat (4096 * n)" by (simp add: n algebra_simps)
  ultimately show ?thesis using al(1) n by (intro exI [of _ fb]) (simp add: allocate_contiguous_def ac_simps)
qed

text \<open>The tables of a new page table are its root and the tables of the kernel.\<close>

lemma tables_new_root:
  assumes "pt_wf m (kernel_cr3 m)" "kernel_cr3 m \<noteq> 0" "new_page_table m = (Some root, m')"
  shows "tables m' root \<subseteq> insert root (tables m (kernel_cr3 m))"
proof
  fix t assume "t \<in> tables m' root"
  then obtain p where p: "path_ok p" "table_at m' root p = Some t" by (auto simp: tables_def)
  show "t \<in> insert root (tables m (kernel_cr3 m))"
  proof (cases "p = []")
    case False
    then show ?thesis using table_at_new_root(1) [OF assms p(1)] p by (auto intro: tablesI)
  qed (use p in simp)
qed

text \<open>Addresses inside a run of frames.\<close>

lemma frame_of_run:
  assumes "page_aligned a" "unat a + 4096 * n \<le> 2 ^ 64" "unat (x - a) < 4096 * n"
  shows "\<exists>i<n. frame_of x = a + of_nat (4096 * i)" "unat a \<le> unat (frame_of x)"
proof -
  define q r where "q = unat (x - a) div 4096" and "r = unat (x - a) mod 4096"
  have d: "unat (x - a) = 4096 * q + r" "r < 4096" by (simp_all add: q_def r_def)
  have i: "q < n" using assms(3) d by linarith
  have "x = a + of_nat (unat (x - a))" by simp
  then have x: "x = a + of_nat (4096 * q) + of_nat r" unfolding d(1) by simp
  have u: "unat (a + of_nat (4096 * q) :: u64) = unat a + 4096 * q" using unat_page_offset [OF assms(2) i, of 0] by simp
  then have "page_aligned (a + of_nat (4096 * q) :: u64)" using assms(1) by (simp only: page_aligned_iff) simp
  from frame_of_offset [OF this d(2)] have "frame_of x = a + of_nat (4096 * q)" unfolding x .
  then show "\<exists>i<n. frame_of x = a + of_nat (4096 * i)" "unat a \<le> unat (frame_of x)" using i u by auto
qed

end
