(* ===== verification/Image_Loading.thy ===== *)
theory Image_Loading
  imports Frame_Runs
begin

text \<open>
  Loading a whole image (\<^verbatim>\<open>load_into_process\<close> of \<^verbatim>\<open>win32/loader.rs\<close>). The effect is specified by two folds over the section headers:
  the memory of the image is zeroed and then overwritten section by section, and the address space gets one page
  per section.
\<close>

section \<open>Specification\<close>

definition section_dest :: "u64 \<Rightarrow> SectionHeader \<Rightarrow> u64" where
  "section_dest base s = base + ucast (virtual_address s)"

definition section_fits :: "nat \<Rightarrow> nat \<Rightarrow> SectionHeader \<Rightarrow> bool" where
  "section_fits pages len s \<longleftrightarrow> unat (raw_offset s) + min (unat (raw_size s)) (unat (virtual_size s)) \<le> len \<and>
     unat (virtual_address s) + unat (virtual_size s) \<le> 4096 * pages"

definition SECTION_FLAGS :: u64 where
  "SECTION_FLAGS = PAGE_PRESENT OR PAGE_USER OR PAGE_WRITABLE OR PAGE_EXECUTE"

definition image_memory :: "u64 \<Rightarrow> bytes \<Rightarrow> SectionHeader list \<Rightarrow> mem \<Rightarrow> mem" where
  "image_memory base data secs m = fold (\<lambda>s m. write_bytes m (section_dest base s) (section_contents s data)) secs m"

definition image_mapping :: "u64 \<Rightarrow> u64 \<Rightarrow> SectionHeader list \<Rightarrow> (u64 \<Rightarrow> u64 option) \<Rightarrow> u64 \<Rightarrow> u64 option" where
  "image_mapping base vb secs T = fold (\<lambda>s T w. if same_page (section_dest vb s) w
     then Some (frame_of (section_dest base s OR SECTION_FLAGS OR PAGE_PRESENT) OR (w AND 0xFFF)) else T w) secs T"

lemma image_spec_Cons [simp]:
  "image_memory base data (s # secs) m = image_memory base data secs (write_bytes m (section_dest base s) (section_contents s data))"
  "image_mapping base vb (s # secs) T = image_mapping base vb secs (\<lambda>w. if same_page (section_dest vb s) w
     then Some (frame_of (section_dest base s OR SECTION_FLAGS OR PAGE_PRESENT) OR (w AND 0xFFF)) else T w)"
  "image_memory base data [] m = m" "image_mapping base vb [] T = T"
  by (simp_all add: image_memory_def image_mapping_def)

lemma image_memory_cong:
  "m1 x = m2 x \<Longrightarrow> image_memory base data secs m1 x = image_memory base data secs m2 x"
proof (induction secs arbitrary: m1 m2)
  case (Cons s secs)
  show ?case unfolding image_spec_Cons by (rule Cons.IH) (simp add: write_bytes_def Cons.prems)
qed simp

lemma section_inside:
  assumes "section_fits pages len s" "unat base + 4096 * pages < 2 ^ 64" "unat (x - section_dest base s) < unat (virtual_size s)"
  shows "unat (x - base) < 4096 * pages"
proof -
  have va: "unat (ucast (virtual_address s) :: u64) = unat (virtual_address s)" by simp
  have sum: "unat (virtual_address s) + unat (x - section_dest base s) < 4096 * pages"
    using assms(1,3) by (simp add: section_fits_def)
  have "x - base = ucast (virtual_address s) + (x - section_dest base s)" by (simp add: section_dest_def)
  moreover have "unat (ucast (virtual_address s) :: u64) + unat (x - section_dest base s) < 2 ^ LENGTH(64)"
    using sum assms(2) va by simp
  ultimately have "unat (x - base) = unat (virtual_address s) + unat (x - section_dest base s)"
    using unat_add_small [of "ucast (virtual_address s)" "x - section_dest base s"] va by (simp only:)
  then show ?thesis using sum by simp
qed

section \<open>One section\<close>

text \<open>What the memory of an image under construction needs: its own frames are neither tables nor free, and the
  file lies elsewhere, above the frames that new tables come from.\<close>

definition loading :: "u64 \<Rightarrow> nat \<Rightarrow> slice \<Rightarrow> u64 \<Rightarrow> u64 \<Rightarrow> machine \<Rightarrow> bool" where
  "loading base pages sl b root m \<longleftrightarrow> pt_wf m root \<and>
     (\<forall>x. unat (x - base) < 4096 * pages \<longrightarrow> frame_of x \<notin> tables m root \<union> free_frames (falloc m) \<and> frame_of x < b) \<and>
     (\<forall>x. unat (x - fst sl) < snd sl \<longrightarrow> \<not> unat (x - base) < 4096 * pages \<and> frame_of x \<notin> tables m root \<and> b \<le> frame_of x)"

lemma map_section_run:
  assumes ld: "loading base pages sl b root m" and fits: "section_fits pages (snd sl) s"
    and bnd: "unat base + 4096 * pages < 2 ^ 64" "unat vb + 2 ^ 32 < 2 ^ 64" "snd sl < 2 ^ 64"
    and free: "B \<subseteq> free_frames (falloc m)" "4 \<le> card B" "finite B" and low: "\<forall>f\<in>B. f < b"
  obtains m' B' where "map_section s sl base vb (Some root) m = Inr m'" "loading base pages sl b root m'"
    "\<And>x. unat (x - base) < 4096 * pages \<Longrightarrow> phys m' x = write_bytes (phys m) (section_dest base s) (section_contents s (slice_bytes m sl)) x"
    "slice_bytes m' sl = slice_bytes m sl" "\<And>t. t \<in> tables m' root \<Longrightarrow> t \<in> tables m root \<or> t < b"
    "translate m' root = image_mapping base vb [s] (translate m root)"
    "B' \<subseteq> free_frames (falloc m')" "card B \<le> card B' + 3" "finite B'" "B' \<subseteq> B" "kernel_cr3 m' = kernel_cr3 m"
    "card (free_frames (falloc m)) \<le> card (free_frames (falloc m')) + 3" "free_frames (falloc m') \<subseteq> free_frames (falloc m)"
proof -
  define dest where "dest = section_dest base s"
  define v where "v = unat (virtual_size s)"
  define bs where "bs = section_contents s (slice_bytes m sl)"
  have va: "unat (ucast (virtual_address s) :: u64) = unat (virtual_address s)" by simp
  have vlt: "unat (virtual_address s) < 2 ^ 32" using unat_u32_less [of "virtual_address s"] by simp
  have raw: "unat (raw_offset s) + min (unat (raw_size s)) (unat (virtual_size s)) \<le> snd sl"
    and inside: "unat (virtual_address s) + v \<le> 4096 * pages" using fits by (simp_all add: section_fits_def v_def)
  have d: "add_chk base (ucast (virtual_address s)) = Inr dest" "unat dest = unat base + unat (virtual_address s)"
    using inside bnd(1) va by (simp_all add: add_chk_def dest_def section_dest_def unat_add_small)
  have e: "add_chk vb (ucast (virtual_address s)) = Inr (section_dest vb s)"
    using vlt bnd(2) va by (simp add: add_chk_def section_dest_def)
  have wf: "pt_wf m root" using ld by (simp add: loading_def)
  have own: "frame_of x \<notin> tables m root \<union> free_frames (falloc m) \<and> frame_of x < b" if "unat (x - base) < 4096 * pages" for x
    using ld that by (simp add: loading_def)
  have fil: "\<not> unat (x - base) < 4096 * pages \<and> frame_of x \<notin> tables m root \<and> b \<le> frame_of x" if "unat (x - fst sl) < snd sl" for x
    using ld that by (simp add: loading_def)
  have "\<exists>m1. copy_section s sl dest m = Inr m1"
    using d(2) inside bnd(1) by (auto simp: copy_section_def Let_def add_chk_def v_def unat_of_nat)
  then obtain m1 where c: "copy_section s sl dest m = Inr m1" by blast
  note cs = copy_section_effect [OF c raw, folded bs_def]
  have len: "length bs = v" unfolding bs_def v_def by (rule length_section_contents) (use raw in \<open>simp add: slice_bytes_def\<close>)
  have out: "phys m1 x = phys m x" if "\<not> unat (x - base) < 4096 * pages" for x
    using that section_inside [OF fits bnd(1), of x] len unfolding cs(3) dest_def v_def by (intro write_bytes_outside) auto
  have outt: "phys m1 x = phys m x" if "frame_of x \<in> tables m root" for x
    using own [of x] that out [of x] by blast
  have w1: "pt_wf m1 root" "tables m1 root = tables m root" "\<And>w. translate m1 root w = translate m root w"
    using pt_wf_outside [OF wf cs(1)] outt by blast+
  obtain ok m' where mp: "map_page m1 root (section_dest vb s) dest SECTION_FLAGS = (ok, m')" by fastforce
  note post = map_page_post [OF w1(1) mp]
  have free1: "B \<subseteq> free_frames (falloc m1)" using free(1) cs(1) by simp
  note lo = map_page_low [OF w1(1) mp free1 free(2,3) low]
  from lo(4) obtain B' where B': "B' \<subseteq> free_frames (falloc m')" "card B \<le> card B' + 3" "finite B'" "B' \<subseteq> B" by blast
  have g: "pt_grows root m1 m'" using post by (simp add: map_post_def)
  have tab: "t \<in> tables m root \<or> t < b \<and> t \<in> free_frames (falloc m)" if "t \<in> tables m' root" for t
  proof -
    have "t \<in> tables m1 root \<or> t \<in> free_frames (falloc m1)" using g that unfolding pt_grows_def by blast
    then show ?thesis using lo(2) [OF that] w1(2) cs(1) by auto
  qed
  have img: "phys m' x = phys m1 x" if "unat (x - base) < 4096 * pages" for x
    using g own [OF that] w1(2) cs(1) unfolding pt_grows_def by simp
  have fl: "phys m' x = phys m x" if "unat (x - fst sl) < snd sl" for x
    using lo(3) [of x] fil [OF that] w1(2) out [of x] by simp
  have run: "map_section s sl base vb (Some root) m = Inr m'"
    using d(1) c e mp by (simp add: map_section_def SECTION_FLAGS_def [symmetric])
  moreover have "loading base pages sl b root m'"
    unfolding loading_def
  proof (intro conjI allI impI)
    show "pt_wf m' root" using g by (simp add: pt_grows_def)
    show "frame_of x \<notin> tables m' root \<union> free_frames (falloc m')" "frame_of x < b" if "unat (x - base) < 4096 * pages" for x
      using own [OF that] tab [of "frame_of x"] g cs(1) unfolding pt_grows_def by auto
    show "\<not> unat (x - base) < 4096 * pages" "frame_of x \<notin> tables m' root" "b \<le> frame_of x" if "unat (x - fst sl) < snd sl" for x
      using fil [OF that] tab [of "frame_of x"] by auto
  qed
  moreover have "slice_bytes m' sl = slice_bytes m sl"
    unfolding slice_bytes_def
  proof (rule read_bytes_cong)
    fix i assume "i < snd sl"
    then show "phys m' (fst sl + of_nat i) = phys m (fst sl + of_nat i)" using bnd(3) by (intro fl) (simp add: unat_of_nat)
  qed
  moreover have "translate m' root = image_mapping base vb [s] (translate m root)"
    using post lo(1) w1(3) entry_present [of dest SECTION_FLAGS] by (intro ext) (simp add: map_post_def dest_def)
  moreover have "kernel_cr3 m' = kernel_cr3 m" using g cs(2) by (simp add: pt_grows_def)
  moreover have "card (free_frames (falloc m)) \<le> card (free_frames (falloc m')) + 3" using post cs(1) by (simp add: map_post_def)
  moreover have "free_frames (falloc m') \<subseteq> free_frames (falloc m)" using g cs(1) by (simp add: pt_grows_def)
  ultimately show ?thesis using B' tab img cs(3) by (intro that [of m' B']) (auto simp: dest_def bs_def)
qed

section \<open>All sections\<close>

definition loaded :: "u64 \<Rightarrow> nat \<Rightarrow> u64 \<Rightarrow> bytes \<Rightarrow> u64 \<Rightarrow> u64 \<Rightarrow> SectionHeader list \<Rightarrow> machine \<Rightarrow> machine \<Rightarrow> bool" where
  "loaded base pages vb data b root secs m m' \<longleftrightarrow>
     (\<forall>x. unat (x - base) < 4096 * pages \<longrightarrow> phys m' x = image_memory base data secs (phys m) x) \<and>
     translate m' root = image_mapping base vb secs (translate m root) \<and> (\<forall>t\<in>tables m' root. t \<in> tables m root \<or> t < b) \<and>
     kernel_cr3 m' = kernel_cr3 m \<and> free_frames (falloc m') \<subseteq> free_frames (falloc m) \<and>
     card (free_frames (falloc m)) \<le> card (free_frames (falloc m')) + 3 * length secs"

lemma loaded_Cons:
  assumes "\<And>x. unat (x - base) < 4096 * pages \<Longrightarrow> phys m1 x = write_bytes (phys m) (section_dest base s) (section_contents s data) x"
    and "translate m1 root = image_mapping base vb [s] (translate m root)" "\<And>t. t \<in> tables m1 root \<Longrightarrow> t \<in> tables m root \<or> t < b"
    and "kernel_cr3 m1 = kernel_cr3 m" "card (free_frames (falloc m)) \<le> card (free_frames (falloc m1)) + 3"
    and "free_frames (falloc m1) \<subseteq> free_frames (falloc m)" and "loaded base pages vb data b root secs m1 m'"
  shows "loaded base pages vb data b root (s # secs) m m'"
proof -
  have "phys m' x = image_memory base data (s # secs) (phys m) x" if x: "unat (x - base) < 4096 * pages" for x
    using assms(7) assms(1) [OF x] image_memory_cong [of "phys m1" x] x by (simp add: loaded_def)
  moreover have "translate m' root = image_mapping base vb (s # secs) (translate m root)"
    using assms(2,7) by (simp add: loaded_def)
  ultimately show ?thesis using assms(3-7) unfolding loaded_def by (intro conjI) (blast, blast, blast, simp, blast, simp)
qed

lemma load_sections_run:
  assumes "loading base pages sl b root m" "slice_bytes m sl = data"
    and "map (section_at data img) js = map Some secs" "\<forall>s\<in>set secs. section_fits pages (snd sl) s"
    and "\<forall>i\<in>set js. pe_section_table_offset img + i * 40 + 40 < 2 ^ 64"
    and bnd: "unat base + 4096 * pages < 2 ^ 64" "unat (pe_image_base img) + 2 ^ 32 < 2 ^ 64" "snd sl < 2 ^ 64"
    and "B \<subseteq> free_frames (falloc m)" "3 * length secs + 1 \<le> card B" "finite B" "\<forall>f\<in>B. f < b"
  shows "\<exists>m'. load_sections img sl base (Some root) js m = Inr (True, m') \<and> loading base pages sl b root m' \<and>
    loaded base pages (pe_image_base img) data b root secs m m'"
  using assms(1-5,9-12)
proof (induction js arbitrary: secs m B)
  case Nil
  then show ?case by (simp add: loaded_def)
next
  case (Cons i js)
  then obtain s rest where secs: "secs = s # rest" "section_at data img i = Some s" "map (section_at data img) js = map Some rest"
    by (cases secs) auto
  have fits: "section_fits pages (snd sl) s" and four: "4 \<le> card B" using Cons.prems(4,7) secs(1) by auto
  obtain m1 B' where run: "map_section s sl base (pe_image_base img) (Some root) m = Inr m1"
    and ld1: "loading base pages sl b root m1" and d1: "slice_bytes m1 sl = slice_bytes m sl"
    and eff: "\<And>x. unat (x - base) < 4096 * pages \<Longrightarrow> phys m1 x = write_bytes (phys m) (section_dest base s) (section_contents s (slice_bytes m sl)) x"
      "translate m1 root = image_mapping base (pe_image_base img) [s] (translate m root)"
      "\<And>t. t \<in> tables m1 root \<Longrightarrow> t \<in> tables m root \<or> t < b" "kernel_cr3 m1 = kernel_cr3 m"
      "card (free_frames (falloc m)) \<le> card (free_frames (falloc m1)) + 3" "free_frames (falloc m1) \<subseteq> free_frames (falloc m)"
    and B': "B' \<subseteq> free_frames (falloc m1)" "card B \<le> card B' + 3" "finite B'" "B' \<subseteq> B"
    using map_section_run [OF Cons.prems(1) fits bnd Cons.prems(6) four Cons.prems(8,9)] by metis
  have "3 * length rest + 1 \<le> card B'" "\<forall>f\<in>B'. f < b" using B'(2,4) Cons.prems(7,9) secs(1) by auto
  from Cons.IH [OF ld1 _ secs(3) _ _ B'(1) this(1) B'(3) this(2)] obtain m' where
    m': "load_sections img sl base (Some root) js m1 = Inr (True, m')" "loading base pages sl b root m'"
      "loaded base pages (pe_image_base img) data b root rest m1 m'"
    using Cons.prems(2,4,5) secs(1) d1 by auto
  have "parse_section_header (slice_bytes m sl) (pe_section_table_offset img + i * 40) = Inr (Some s)"
    using parse_section_header_at [of img i data] Cons.prems(2,5) secs(2) by simp
  then have "load_sections img sl base (Some root) (i # js) m = Inr (True, m')"
    using run m'(1) Cons.prems(5) by (simp add: usize_chk_def)
  moreover have "loaded base pages (pe_image_base img) data b root (s # rest) m m'"
    by (rule loaded_Cons) (use eff m'(3) Cons.prems(2) in simp_all)
  ultimately show ?case using m'(2) secs(1) by blast
qed

section \<open>The image\<close>

lemma frame_run_free: "frame_run a n fa \<Longrightarrow> free_frames fb = free_frames fa \<Longrightarrow> frame_run a n fb"
  by (simp add: frame_run_def)

lemma frame_run_card:
  assumes "fa_inv fa" "frame_run a n fa"
  shows "card ((\<lambda>i. a + of_nat (4096 * i)) ` {..<n}) = n" "(\<lambda>i. a + of_nat (4096 * i)) ` {..<n} \<subseteq> free_frames fa"
proof -
  have "inj_on (\<lambda>i. a + of_nat (4096 * i)) {..<n}"
  proof (rule inj_onI)
    fix i j assume "i \<in> {..<n}" "j \<in> {..<n}" "a + of_nat (4096 * i) = a + of_nat (4096 * j)"
    then show "i = j" using frame_run_unat [OF assms, of i] frame_run_unat [OF assms, of j] by simp
  qed
  then show "card ((\<lambda>i. a + of_nat (4096 * i)) ` {..<n}) = n" by (simp add: card_image)
  show "(\<lambda>i. a + of_nat (4096 * i)) ` {..<n} \<subseteq> free_frames fa" using assms(2) by (auto simp: frame_run_def)
qed

lemma frame_run_end:
  assumes "fa_inv fa" "frame_run a n fa" "0 < n"
  shows "unat a + 4096 * n < 2 ^ 64" "unat (a + of_nat (4096 * n)) = unat a + 4096 * n"
proof -
  have l: "n - 1 < n" using assms(3) by simp
  have "a + of_nat (4096 * (n - 1)) \<in> free_frames fa" using assms(2) l unfolding frame_run_def by blast
  from free_frame_bounds(2) [OF assms(1) this] have "unat a + 4096 * (n - 1) + 4096 < 2 ^ 64"
    unfolding frame_run_unat [OF assms(1,2) l] .
  moreover have "4096 * (n - 1) + 4096 = 4096 * n" using assms(3) by (cases n) simp_all
  ultimately show less: "unat a + 4096 * n < 2 ^ 64" by linarith
  then show "unat (a + of_nat (4096 * n)) = unat a + 4096 * n" by (simp add: unat_word_ariths unat_of_nat)
qed

text \<open>A page table of its own for an image whose frames are still empty.\<close>

lemma new_image_run:
  assumes wf: "pt_wf m (kernel_cr3 m)" and k: "kernel_cr3 m \<noteq> 0" and run: "frame_run a (pages + Suc n) (falloc m)" "0 < pages" "0 < n" and len: "snd sl < 2 ^ 64"
    and apart: "\<forall>x. unat (x - fst sl) < snd sl \<longrightarrow> frame_of x \<notin> tables m (kernel_cr3 m) \<and> unat a + 4096 * (pages + Suc n) \<le> unat (frame_of x)"
  obtains fa1 m2 m3 root where "allocate_contiguous pages m = Inr (Some a, m\<lparr>falloc := fa1\<rparr>)" "new_page_table (m\<lparr>falloc := fa1\<rparr>) = (Some root, m2)"
    "m3 = m2\<lparr>phys := fill_bytes (phys m2) a 0 (pages * 4096)\<rparr>" "root = a + of_nat (4096 * pages)" "root \<noteq> 0"
    "loading a pages sl (a + of_nat (4096 * (pages + Suc n))) root m3" "slice_bytes m3 sl = slice_bytes m sl"
    "\<forall>x. unat (x - a) < 4096 * pages \<longrightarrow> phys m3 x = 0" "translate m3 root = translate m (kernel_cr3 m)"
    "fa_inv (falloc m3)" "frame_run (root + 4096) n (falloc m3)" "kernel_cr3 m3 = kernel_cr3 m" "tables m3 root \<subseteq> insert root (tables m (kernel_cr3 m))"
    "free_frames (falloc m3) \<subseteq> free_frames (falloc m)" "card (free_frames (falloc m)) = card (free_frames (falloc m3)) + Suc pages"
proof -
  note inv = pt_wfD(1) [OF wf]
  define root where "root = a + of_nat (4096 * pages)"
  define b where "b = a + of_nat (4096 * (pages + Suc n))"
  have b: "unat a + 4096 * (pages + Suc n) < 2 ^ 64" "unat b = unat a + 4096 * (pages + Suc n)"
    using frame_run_end [OF inv run(1)] by (simp_all add: b_def)
  have ra: "unat root = unat a + 4096 * pages" using frame_run_unat [OF inv run(1), of pages] by (simp add: root_def)
  have aal: "page_aligned a" using free_frame_bounds(1) [OF inv, of a] run(1) by (force simp: frame_run_def)
  obtain fa1 where c: "allocate_contiguous pages m = Inr (Some a, m\<lparr>falloc := fa1\<rparr>)" "fa_inv fa1" "frame_run root (Suc n) fa1"
    using allocate_contiguous_run [OF inv run(1,2)] by (auto simp: root_def)
  let ?m1 = "m\<lparr>falloc := fa1\<rparr>"
  note cf = allocate_contiguous_spec [OF inv c(1)]
  define I where "I = (\<lambda>i. a + of_nat (4096 * i)) ` {..<pages}"
  have I: "I \<subseteq> free_frames (falloc m)" "free_frames fa1 = free_frames (falloc m) - I" using cf by (auto simp: I_def)
  have img: "frame_of x \<in> I" "unat (frame_of x) < unat root" if "unat (x - a) < 4096 * pages" for x
  proof -
    have "\<exists>i<pages. frame_of x = a + of_nat (4096 * i)" by (rule frame_of_run(1) [OF aal _ that]) (use b(1) in simp)
    then obtain i where i: "i < pages" "frame_of x = a + of_nat (4096 * i)" by blast
    then show "frame_of x \<in> I" by (simp add: I_def)
    have "unat (frame_of x) = unat a + 4096 * i" using frame_run_unat [OF inv run(1), of i] i by simp
    then show "unat (frame_of x) < unat root" using ra i(1) by simp
  qed
  have wf1: "pt_wf ?m1 (kernel_cr3 ?m1)"
    using wf I(2) c(2) unfolding pt_wf_def by auto
  have k1: "kernel_cr3 ?m1 \<noteq> 0" using k by simp
  obtain fa2 where al: "alloc_frame ?m1 = (Some root, ?m1\<lparr>falloc := fa2\<rparr>)" "frame_run (root + 4096) n fa2"
      "free_frames fa2 = free_frames (falloc ?m1) - {root}" "root \<in> free_frames (falloc ?m1)"
    using alloc_frame_run [of ?m1 root n] c(2,3) by auto
  obtain m2 where npt: "new_page_table ?m1 = (Some root, m2)" using al(1) by (simp add: new_page_table_def Let_def)
  have kf: "page_aligned (kernel_cr3 ?m1)" "kernel_cr3 ?m1 \<notin> free_frames (falloc ?m1)"
    using pt_wfD(2) [OF wf1] pt_wfD(3) [OF wf1, of "[]"] by (simp_all add: path_ok_def)
  note e = new_page_table_entries [OF pt_wfD(1) [OF wf1] kf npt]
  have t2: "tables m2 root \<subseteq> insert root (tables m (kernel_cr3 m))" using tables_new_root [OF wf1 k1 npt] by simp
  define m3 where "m3 = m2\<lparr>phys := fill_bytes (phys m2) a 0 (pages * 4096)\<rparr>"
  have apartI: "t \<notin> I" if "t \<in> tables m2 root" for t
    using that t2 I pt_wf_tables_not_free [OF wf] al(4) by auto
  have out: "phys m3 x = phys m2 x" if "\<not> unat (x - a) < 4096 * pages" for x
    using that by (simp add: m3_def fill_bytes_def mult.commute)
  have outt: "phys m3 x = phys m2 x" if "frame_of x \<in> tables m2 root" for x
    using that apartI img(1) [of x] out [of x] by blast
  have "falloc m3 = falloc m2" by (simp add: m3_def)
  note w3 = pt_wf_outside [OF new_page_table_wf [OF wf1 k1 npt] this outt]
  have w3: "pt_wf m3 root" "tables m3 root = tables m2 root" "\<And>w. translate m3 root w = translate m2 root w"
    using w3 by blast+
  have below: "x < b" if "unat x \<le> unat root" for x using that ra b(2) by (simp add: word_less_nat_alt)
  have fil: "frame_of x \<notin> tables m3 root" "b \<le> frame_of x" "\<not> unat (x - a) < 4096 * pages" if "unat (x - fst sl) < snd sl" for x
  proof -
    note ap = apart [THEN spec, THEN mp, OF that]
    show "b \<le> frame_of x" using ap b(2) by (simp add: word_le_nat_alt)
    then have "frame_of x \<noteq> root" using below [of root] by auto
    then show "frame_of x \<notin> tables m3 root" using ap t2 w3(2) by auto
    show "\<not> unat (x - a) < 4096 * pages" using img(2) [of x] ap ra by auto
  qed
  have "loading a pages sl b root m3"
    unfolding loading_def
  proof (intro conjI allI impI)
    show "pt_wf m3 root" by (rule w3(1))
    show "frame_of x \<notin> tables m3 root \<union> free_frames (falloc m3)" "frame_of x < b" if "unat (x - a) < 4096 * pages" for x
      using img [OF that] apartI w3(2) I(2) e(4) below [of "frame_of x"] by (auto simp: m3_def)
  qed (use fil in auto)
  moreover have "slice_bytes m3 sl = slice_bytes m sl"
    unfolding slice_bytes_def
  proof (rule read_bytes_cong)
    fix i assume "i < snd sl"
    then have i: "unat (fst sl + of_nat i - fst sl) < snd sl" using len by (simp add: unat_of_nat)
    have "frame_of (fst sl + of_nat i) \<noteq> root" using fil(2) [OF i] below [of root] by auto
    then show "phys m3 (fst sl + of_nat i) = phys m (fst sl + of_nat i)" using out [OF fil(3) [OF i]] e(6) by simp
  qed
  moreover have "translate m3 root = translate m (kernel_cr3 m)"
    using w3(3) leaf_new_root(1) [OF wf1 k1 npt] by (intro ext) (simp add: translate_leaf)
  moreover have "phys m3 x = 0" if "unat (x - a) < 4096 * pages" for x using that by (simp add: m3_def fill_bytes_def mult.commute)
  moreover have "card (free_frames (falloc m)) = card (free_frames (falloc m3)) + Suc pages"
  proof -
    have fin: "finite (free_frames (falloc m))" by (rule finite_free_frames)
    have cI: "card I = pages" unfolding I_def using frame_run_card(1) [OF inv, of a pages] run(1) by (simp add: frame_run_def)
    have "card (free_frames (falloc m)) = card (free_frames fa1) + pages"
      using I fin cI card_Diff_subset [of I "free_frames (falloc m)"] card_mono [OF fin I(1)] finite_subset [OF I(1) fin] by simp
    moreover have "card (free_frames fa1) = Suc (card (free_frames fa1 - {root}))" by (rule card_Suc_Diff1 [symmetric]) (use al(4) finite_free_frames in simp_all)
    ultimately show ?thesis using e(4) by (simp add: m3_def)
  qed
  moreover have "frame_run (root + 4096) n (falloc m3)" by (rule frame_run_free [OF al(2)]) (use al(3) e(4) in \<open>simp add: m3_def\<close>)
  moreover have "root \<noteq> 0" using ra run(2) by (intro notI) simp
  ultimately show ?thesis
    using c(1) npt t2 w3(2) e(3,4,5) I(2) by (intro that [of fa1 root m2 m3]) (auto simp: m3_def root_def b_def)
qed

lemma load_into_process_run:
  assumes wf: "pt_wf m (kernel_cr3 m)" and k: "kernel_cr3 m \<noteq> 0"
    and sz: "unat (pe_image_size img) + 4095 < 2 ^ 64" "pages = (unat (pe_image_size img) + 4095) div 4096" "0 < pages"
    and secs: "map (section_at (slice_bytes m sl) img) [0..<unat (pe_num_sections img)] = map Some secs" "\<forall>s\<in>set secs. section_fits pages (snd sl) s"
    and bnd: "pe_section_table_offset img + unat (pe_num_sections img) * 40 < 2 ^ 64" "unat (pe_image_base img) + 2 ^ 32 < 2 ^ 64" "snd sl < 2 ^ 64"
    and run: "frame_run a (pages + 3 * length secs + 2) (falloc m)"
    and ent: "unat a + unat (saturating_sub (pe_entry_point img) (pe_image_base img)) < 2 ^ 64"
    and apart: "\<forall>x. unat (x - fst sl) < snd sl \<longrightarrow>
      frame_of x \<notin> tables m (kernel_cr3 m) \<and> unat a + 4096 * (pages + 3 * length secs + 2) \<le> unat (frame_of x)"
  shows "\<exists>m' root. root = a + of_nat (4096 * pages) \<and> root \<noteq> 0 \<and>
    load_into_process img p sl m = Inr (True, p\<lparr>proc_image_base := a, proc_image_size := pe_image_size img, proc_root := root,
      proc_entry_point := a + saturating_sub (pe_entry_point img) (pe_image_base img)\<rparr>, m') \<and> pt_wf m' root \<and>
    (\<forall>x. unat (x - a) < 4096 * pages \<longrightarrow> phys m' x = image_memory a (slice_bytes m sl) secs (\<lambda>_. 0) x \<and>
       frame_of x \<notin> tables m' root \<union> free_frames (falloc m')) \<and>
    translate m' root = image_mapping a (pe_image_base img) secs (translate m (kernel_cr3 m)) \<and>
    (\<forall>t\<in>tables m' root. t \<in> tables m (kernel_cr3 m) \<or> unat t < unat a + 4096 * (pages + 3 * length secs + 2)) \<and>
    kernel_cr3 m' = kernel_cr3 m \<and> free_frames (falloc m') \<subseteq> free_frames (falloc m) \<and>
    card (free_frames (falloc m)) \<le> card (free_frames (falloc m')) + pages + 3 * length secs + 1"
proof -
  note inv = pt_wfD(1) [OF wf]
  define n where "n = 3 * length secs + 1"
  have run': "frame_run a (pages + Suc n) (falloc m)" using run by (simp add: n_def)
  define b where "b = a + of_nat (4096 * (pages + Suc n))"
  have b: "unat a + 4096 * (pages + Suc n) < 2 ^ 64" "unat b = unat a + 4096 * (pages + Suc n)"
    using frame_run_end [OF inv run'] by (simp_all add: b_def)
  have ap: "\<forall>x. unat (x - fst sl) < snd sl \<longrightarrow> frame_of x \<notin> tables m (kernel_cr3 m) \<and> unat a + 4096 * (pages + Suc n) \<le> unat (frame_of x)"
    using apart by (simp add: n_def)
  have n0: "0 < n" by (simp add: n_def)
  obtain fa1 m2 m3 root where al: "allocate_contiguous pages m = Inr (Some a, m\<lparr>falloc := fa1\<rparr>)" "new_page_table (m\<lparr>falloc := fa1\<rparr>) = (Some root, m2)"
      "m3 = m2\<lparr>phys := fill_bytes (phys m2) a 0 (pages * 4096)\<rparr>" "root = a + of_nat (4096 * pages)" "root \<noteq> 0"
    and ld: "loading a pages sl b root m3" and d3: "slice_bytes m3 sl = slice_bytes m sl"
    and z: "\<forall>x. unat (x - a) < 4096 * pages \<longrightarrow> phys m3 x = 0" and tr: "translate m3 root = translate m (kernel_cr3 m)"
    and i3: "fa_inv (falloc m3)" "frame_run (root + 4096) n (falloc m3)" "kernel_cr3 m3 = kernel_cr3 m"
      "tables m3 root \<subseteq> insert root (tables m (kernel_cr3 m))" "free_frames (falloc m3) \<subseteq> free_frames (falloc m)"
      "card (free_frames (falloc m)) = card (free_frames (falloc m3)) + Suc pages"
    by (rule new_image_run [OF wf k run' sz(3) n0 bnd(3) ap, folded b_def]) blast
  define B where "B = (\<lambda>i. root + 4096 + of_nat (4096 * i)) ` {..<n}"
  have B: "B \<subseteq> free_frames (falloc m3)" "card B = n" "finite B" using frame_run_card [OF i3(1,2)] by (simp_all add: B_def)
  have ra: "unat root = unat a + 4096 * pages" using frame_run_unat [OF inv run', of pages] al(4) by simp
  have Blow: "\<forall>f\<in>B. f < b"
  proof
    fix f assume "f \<in> B"
    then obtain i where i: "i < n" "f = root + 4096 + of_nat (4096 * i)" by (auto simp: B_def)
    have "unat (root + 4096) = unat root + 4096" using ra b(1) by (simp add: unat_word_ariths)
    then have "unat f = unat a + 4096 * (pages + Suc i)" using frame_run_unat [OF i3(1,2) i(1)] i(2) ra by simp
    then show "f < b" using i(1) b(2) by (simp add: word_less_nat_alt)
  qed
  have off: "\<forall>i\<in>set [0..<unat (pe_num_sections img)]. pe_section_table_offset img + i * 40 + 40 < 2 ^ 64"
  proof
    fix i assume "i \<in> set [0..<unat (pe_num_sections img)]"
    then have "Suc i * 40 \<le> unat (pe_num_sections img) * 40" by (intro mult_le_mono1) simp
    then show "pe_section_table_offset img + i * 40 + 40 < 2 ^ 64" using bnd(1) by simp
  qed
  have abn: "unat a + 4096 * pages < 2 ^ 64" using b(1) by simp
  obtain m' where m': "load_sections img sl a (Some root) [0..<unat (pe_num_sections img)] m3 = Inr (True, m')"
      "loading a pages sl b root m'" "loaded a pages (pe_image_base img) (slice_bytes m sl) b root secs m3 m'"
    using load_sections_run [OF ld d3 secs off abn bnd(2,3) B(1) _ B(3) Blow] B(2) by (auto simp: n_def)
  note L = m'(3) [unfolded loaded_def]
  have "add_chk (pe_image_size img) 4095 = Inr (pe_image_size img + 4095)" "unat (pe_image_size img + 4095) div 4096 = pages"
    using sz by (simp_all add: add_chk_def unat_word_ariths)
  moreover have "add_chk a (saturating_sub (pe_entry_point img) (pe_image_base img)) =
      Inr (a + saturating_sub (pe_entry_point img) (pe_image_base img))" using ent by (simp add: add_chk_def)
  ultimately have "load_into_process img p sl m = Inr (True, p\<lparr>proc_image_base := a, proc_image_size := pe_image_size img, proc_root := root,
      proc_entry_point := a + saturating_sub (pe_entry_point img) (pe_image_base img)\<rparr>, m')"
    using al(1-3) m'(1) by (simp add: load_into_process_def Let_def)
  moreover have "phys m' x = image_memory a (slice_bytes m sl) secs (\<lambda>_. 0) x" "frame_of x \<notin> tables m' root \<union> free_frames (falloc m')"
    if "unat (x - a) < 4096 * pages" for x
    using L that image_memory_cong [of "phys m3" x "\<lambda>_. 0"] z that m'(2) by (simp_all add: loading_def)
  moreover have "t \<in> tables m (kernel_cr3 m) \<or> unat t < unat a + 4096 * (pages + 3 * length secs + 2)" if "t \<in> tables m' root" for t
  proof -
    have "t \<in> tables m3 root \<or> t < b" using L that by blast
    then have "t \<in> tables m (kernel_cr3 m) \<or> t = root \<or> t < b" using i3(4) by blast
    then show ?thesis using ra b(2) by (auto simp: n_def word_less_nat_alt)
  qed
  moreover have "pt_wf m' root" using m'(2) by (simp add: loading_def)
  ultimately show ?thesis using al(4,5) L tr i3(3,5,6) by (intro exI [of _ m'] exI [of _ root]) auto
qed

text \<open>The situation the loader is written for: a bounded image whose sections lie inside it, enough consecutive frames for the image and
  for every table its pages can need, and the file elsewhere in memory.\<close>

definition load_ready :: "PeImage \<Rightarrow> slice \<Rightarrow> SectionHeader list \<Rightarrow> u64 \<Rightarrow> nat \<Rightarrow> machine \<Rightarrow> bool" where
  "load_ready img sl secs a pages m \<longleftrightarrow> pt_wf m (kernel_cr3 m) \<and> kernel_cr3 m \<noteq> 0 \<and>
     unat (pe_image_size img) + 4095 < 2 ^ 64 \<and> pages = (unat (pe_image_size img) + 4095) div 4096 \<and> 0 < pages \<and>
     map (section_at (slice_bytes m sl) img) [0..<unat (pe_num_sections img)] = map Some secs \<and> (\<forall>s\<in>set secs. section_fits pages (snd sl) s) \<and>
     pe_section_table_offset img + unat (pe_num_sections img) * 40 < 2 ^ 64 \<and> unat (pe_image_base img) + 2 ^ 32 < 2 ^ 64 \<and> snd sl < 2 ^ 64 \<and>
     frame_run a (pages + 3 * length secs + 2) (falloc m) \<and>
     unat a + unat (saturating_sub (pe_entry_point img) (pe_image_base img)) < 2 ^ 64 \<and>
     (\<forall>x. unat (x - fst sl) < snd sl \<longrightarrow>
        frame_of x \<notin> tables m (kernel_cr3 m) \<and> unat a + 4096 * (pages + 3 * length secs + 2) \<le> unat (frame_of x))"

text \<open>C8: \<open>load_into_process\<close> refines its specification. It succeeds; the image's memory is the zeroed range overwritten by the sections'
  contents in the order of their headers; the new address space is the kernel's with one page per section, the page of the
  section's preferred address; no frame of the image is free or a page table. The entry point recorded is the offset of the entry from the preferred base, added to the
  physical address of the image.\<close>

theorem load_into_process_refines:
  assumes "load_ready img sl secs a pages m"
  shows "\<exists>m' root. root = a + of_nat (4096 * pages) \<and>
    load_into_process img p sl m = Inr (True, p\<lparr>proc_image_base := a, proc_image_size := pe_image_size img, proc_root := root,
      proc_entry_point := a + saturating_sub (pe_entry_point img) (pe_image_base img)\<rparr>, m') \<and> pt_wf m' root \<and>
    (\<forall>x. unat (x - a) < 4096 * pages \<longrightarrow> phys m' x = image_memory a (slice_bytes m sl) secs (\<lambda>_. 0) x \<and>
       frame_of x \<notin> tables m' root \<union> free_frames (falloc m')) \<and>
    translate m' root = image_mapping a (pe_image_base img) secs (translate m (kernel_cr3 m))"
proof -
  note A = assms [unfolded load_ready_def]
  show ?thesis by (rule load_into_process_run [of m img pages sl secs a p, THEN exE]) (use A in blast)+
qed

lemma sample_run: "frame_run 0x11000 6 (falloc sample_machine)"
  unfolding frame_run_def
proof (intro conjI allI impI ballI)
  fix i :: nat assume "i < 6"
  then have "frame_addr (falloc sample_machine) (Suc i) \<in> free_frames (falloc sample_machine)"
    by (auto simp: free_frames_def sample_machine_def used_def bit_1_iff)
  then show "0x11000 + of_nat (4096 * i) \<in> free_frames (falloc sample_machine)" by (simp add: frame_addr_def sample_machine_def)
next
  fix g assume "g \<in> free_frames (falloc sample_machine)"
  then obtain i where i: "i < 64" "g = frame_addr (falloc sample_machine) i" "i \<noteq> 0"
    by (auto simp: free_frames_def sample_machine_def used_def bit_1_iff)
  then show "0x11000 \<le> g" using unat_frame_addr [OF sample_fa_inv, of i] by (simp add: sample_machine_def word_le_nat_alt)
qed

definition sample_image :: PeImage where
  "sample_image = \<lparr>pe_machine = Amd64, pe_entry_point = 0x140000010, pe_image_base = 0x140000000, pe_image_size = 0x800, pe_is_dll = False,
     pe_num_sections = 1, pe_section_table_offset = 0, pe_data_directory_offset = 0, pe_num_data_directories = 0\<rparr>"

lemma sample_load_ready:
  "load_ready sample_image (0x100000, 40) [\<lparr>sec_name = replicate 8 0, virtual_size = 0, virtual_address = 0, raw_size = 0, raw_offset = 0\<rparr>] 0x11000 1
     sample_machine"
proof -
  have k: "kernel_cr3 sample_machine = 0x1000" by (simp add: sample_machine_def)
  have z: "slice_bytes sample_machine (0x100000, 40) = replicate 40 0"
    by (simp add: slice_bytes_def read_bytes_def sample_machine_def map_replicate_const)
  have "0x17000 \<le> unat (frame_of x) \<and> frame_of x \<noteq> 0x1000" if "unat (x - 0x100000) < 40" for x
  proof -
    define d where "d = x - 0x100000"
    have x: "x = 0x100000 + d" by (simp add: d_def)
    have "unat x = 0x100000 + unat d" unfolding x using that [folded d_def] by (simp add: unat_word_ariths)
    then have "0x100000 \<le> unat (frame_of x)" using that by (simp add: unat_frame_of_div)
    then show ?thesis by auto
  qed
  moreover have "le_nat (replicate 4 0) = 0" by (simp add: numeral_eq_Suc)
  then have "section_at (replicate 40 0) sample_image 0 =
      Some \<lparr>sec_name = replicate 8 0, virtual_size = 0, virtual_address = 0, raw_size = 0, raw_offset = 0\<rparr>"
    by (simp add: section_at_def sample_image_def pe_field_def from_le_def)
  ultimately show ?thesis
    using sample_pt_wf sample_run unfolding load_ready_def k z sample_tables
    by (simp add: section_fits_def sample_image_def saturating_sub_def)
qed

theorem load_into_process_refines_witness:
  "\<exists>m'. load_into_process sample_image (new_process 1) (0x100000, 40) sample_machine =
      Inr (True, (new_process 1)\<lparr>proc_image_base := 0x11000, proc_image_size := 0x800, proc_root := 0x12000, proc_entry_point := 0x11010\<rparr>, m') \<and>
    phys m' 0x11000 = 0"
proof -
  from load_into_process_refines [OF sample_load_ready, of "new_process 1"] show ?thesis
    by (force simp: sample_image_def saturating_sub_def image_memory_def section_contents_def write_bytes_def)
qed

end
