(* ===== verification/Self_Test.thy ===== *)
theory Self_Test
  imports Image_Loading Fixture Boot
begin

text \<open>
  The boot self-test from end to end: on a machine whose lowest free frames form a run below the early heap, the fixture is
  written to the file system, read back, parsed, loaded and launched (\<^verbatim>\<open>win32/mod.rs\<close>, \<^verbatim>\<open>main.rs\<close>). The lemmas follow the memory
  through the calls: which frames each takes, and that no later write touches what an earlier one left.
\<close>

section \<open>Writing the file and reading it back\<close>

lemma write_one_frame:
  assumes "buf \<noteq> []" "length buf \<le> 4096" "alloc_frame m = (Some a, m1)" "page_aligned a"
  shows "write_loop buf \<lparr>ws_mach = m, ws_frames = replicate 16 None, ws_size = 0, ws_pos = 0, ws_written = 0\<rparr> =
    Inr (True, \<lparr>ws_mach = m1\<lparr>phys := write_bytes (phys m1) a buf\<rparr>, ws_frames = (replicate 16 None)[0 := Some a],
      ws_size = length buf, ws_pos = length buf, ws_written = length buf\<rparr>)"
proof -
  have "add_chk a (of_nat 0) = Inr (a + of_nat 0)" by (rule add_chk_offset [OF assms(4)]) simp
  then show ?thesis using assms
    by (subst write_loop.simps) (simp add: write_loop.simps [of "[]"] ensure_frame_def put_chunk_def Let_def FILE_DATA_FRAMES_def min_absorb1)
qed

lemma read_one_frame:
  assumes "0 < n" "n \<le> 4096" "page_aligned a"
  shows "read_loop m ((replicate 16 None)[0 := Some a]) n 0 n = Inr (read_bytes m a n)"
proof -
  have "add_chk a (of_nat 0) = Inr (a + of_nat 0)" by (rule add_chk_offset [OF assms(3)]) simp
  then show ?thesis using assms
    by (subst read_loop.simps) (simp add: read_loop.simps [of _ _ _ _ 0] index_chk_def Let_def min_absorb1)
qed

lemma replicate_None_update [simp]: "(replicate n None)[i := None] = (replicate n None :: 'a option list)"
  using list_update_id [of "replicate n None :: 'a option list" i] by (cases "i < n") (simp_all add: list_update_beyond)

lemma open_test_exe:
  assumes "nodes v = sample_nodes" "open_files v = replicate 64 None"
  shows "vfs_open 2 w v = Inr (Some 0, v\<lparr>open_files := (open_files v)[0 := Some \<lparr>of_node = 2, of_position = 0, of_writable = w\<rparr>]\<rparr>)"
  using assms sample_nodes_at by (auto simp: vfs_open_def index_chk_def position_replicate)

text \<open>The file system after the fixture has been installed: two nodes, nothing open, the bytes in one frame.\<close>

definition holds_file :: "u64 \<Rightarrow> nat \<Rightarrow> vfs \<Rightarrow> bool" where
  "holds_file a n v \<longleftrightarrow> nodes v = sample_nodes \<and> open_files v = replicate 64 None \<and> 2 < length (file_sizes v) \<and> file_sizes v ! 2 = n \<and>
     2 < length (file_data v) \<and> file_data v ! 2 = (replicate 16 None)[0 := Some a]"

lemma install_fixture_run:
  assumes files: "files s = vfs_init static_vfs" and buf: "buf \<noteq> []" "length buf \<le> 4096"
    and al: "alloc_frame (mach (kern s)) = (Some a, m1)" "page_aligned a"
  shows "\<exists>v. install_fixture buf s = Inr (s\<lparr>kern := (kern s)\<lparr>mach := m1\<lparr>phys := write_bytes (phys m1) a buf\<rparr>\<rparr>, files := v\<rparr>) \<and>
    holds_file a (length buf) v"
proof -
  obtain v1 where v1: "bin_directory (files s) = Inr (1, v1)" "test_exe_node 1 v1 = Inr (2, (vfs_init static_vfs)\<lparr>nodes := sample_nodes\<rparr>)"
    using sample_nodes_created files by auto
  define v2 where "v2 = (vfs_init static_vfs)\<lparr>nodes := sample_nodes\<rparr>"
  have v2: "nodes v2 = sample_nodes" "open_files v2 = replicate 64 None" "2 < length (file_sizes v2)" "file_sizes v2 ! 2 = 0"
    "2 < length (file_data v2)" "file_data v2 ! 2 = replicate 16 None"
    by (simp_all add: v2_def vfs_init_def static_vfs_def MAX_OPEN_FILES_def MAX_NODES_def FILE_DATA_FRAMES_def)
  let ?f = "\<lparr>of_node = 2, of_position = 0, of_writable = True\<rparr>"
  let ?m = "m1\<lparr>phys := write_bytes (phys m1) a buf\<rparr>"
  let ?v4 = "v2\<lparr>open_files := (replicate 64 None)[0 := Some (?f\<lparr>of_position := length buf\<rparr>)],
      file_sizes := (file_sizes v2)[2 := length buf], file_data := (file_data v2)[2 := (replicate 16 None)[0 := Some a]]\<rparr>"
  have wr: "vfs_write 0 buf (v2\<lparr>open_files := (replicate 64 None)[0 := Some ?f]\<rparr>) (mach (kern s)) = Inr (Some (length buf), ?v4, ?m)"
    using v2 write_one_frame [OF buf al] by (simp add: vfs_write_def index_chk_def)
  define v where "v = ?v4\<lparr>open_files := replicate 64 None\<rparr>"
  have cl: "vfs_close 0 ?v4 = Inr (True, v)"
    by (simp add: vfs_close_def index_chk_def v_def)
  have "install_fixture buf s = Inr (s\<lparr>kern := (kern s)\<lparr>mach := ?m\<rparr>, files := v\<rparr>)"
    unfolding install_fixture_def v1(1) using v1(2) open_test_exe [OF v2(1,2), of True] wr cl v2(2)
    by (simp add: v2_def [symmetric] expect_def)
  moreover have "holds_file a (length buf) v" using v2 by (simp add: holds_file_def v_def)
  ultimately show ?thesis by blast
qed

lemma create_user_process_run:
  assumes v: "holds_file a n (files s)" and n: "0 < n" "n \<le> 4096" "page_aligned a"
    and al: "kernel_alloc (of_nat n) 1 (kern s) = Inr (Some buf, k)" "mach k = mach (kern s)"
  shows "\<exists>v. create_user_process TEST_EXE s = load_pe (buf, n) 1 (os_write buf (read_bytes (os_mem s) a n) (s\<lparr>kern := k, files := v\<rparr>))"
proof -
  note v = v [unfolded holds_file_def]
  let ?f = "\<lparr>of_node = 2, of_position = 0, of_writable = False\<rparr>"
  let ?v1 = "(files s)\<lparr>open_files := (replicate 64 None)[0 := Some ?f]\<rparr>"
  let ?v2 = "(files s)\<lparr>open_files := (replicate 64 None)[0 := Some (?f\<lparr>of_position := n\<rparr>)]\<rparr>"
  have op: "open_vfs_file TEST_EXE False False (files s) = Inr (Inr 0, ?v1)"
    using open_test_exe [of "files s" False] v by (simp add: open_vfs_file_def sample_nodes_lookup open_node_def)
  have sz: "file_size 0 ?v1 = Inr (Some n)" using v by (simp add: file_size_def index_chk_def)
  have rd: "vfs_read 0 n ?v1 m = Inr (Some (read_bytes m a n), ?v2)" for m
    using v read_one_frame [OF n] by (simp add: vfs_read_def index_chk_def)
  obtain r v3 where cl: "vfs_close 0 ?v2 = Inr (r, v3)" by (simp add: vfs_close_def index_chk_def)
  have mem: "os_mem (s\<lparr>kern := k, files := x\<rparr>) = os_mem s" "os_mem (s\<lparr>files := x, kern := k\<rparr>) = os_mem s" for x
    by (simp_all add: os_mem_def al(2))
  have "create_user_process TEST_EXE s = load_pe (buf, n) 1 ((os_write buf (read_bytes (os_mem s) a n) (s\<lparr>kern := k, files := ?v2\<rparr>))\<lparr>files := v3\<rparr>)"
    unfolding create_user_process_def op using sz al(1) rd cl mem by (simp add: Let_def)
  also have "(os_write buf (read_bytes (os_mem s) a n) (s\<lparr>kern := k, files := ?v2\<rparr>))\<lparr>files := v3\<rparr> =
      os_write buf (read_bytes (os_mem s) a n) (s\<lparr>kern := k, files := v3\<rparr>)"
    by (simp add: os_write_def)
  finally show ?thesis by blast
qed


section \<open>The first thread\<close>

lemma bump_allocate_run:
  assumes "unat (bump_next b) + (2 ^ k - 1) + unat sz \<le> unat (bump_limit b)" "k < 64" "bump_inv b"
  obtains p where "alloc_early sz (2 ^ k) b = Inr (Some p, b\<lparr>bump_next := p + sz\<rparr>)" "unat (bump_next b) \<le> unat p"
    "unat p \<le> unat (bump_next b) + (2 ^ k - 1)" "unat p mod 2 ^ k = 0" "unat (p + sz) = unat p + unat sz" "bump_inv (b\<lparr>bump_next := p + sz\<rparr>)"
proof -
  let ?m = "2 ^ k - 1 :: u64" and ?p = "(bump_next b + (2 ^ k - 1)) AND NOT (2 ^ k - 1)"
  have one: "(1 :: u64) \<le> 2 ^ k" using unat_pow2 [OF assms(2)] by (simp add: word_le_nat_alt)
  then have um: "unat ?m = 2 ^ k - 1" using unat_pow2 [OF assms(2)] by (simp add: unat_sub_le)
  note lim = unat_u64_less [of "bump_limit b"]
  have "unat (bump_next b) + (2 ^ k - 1) < 18446744073709551616" using assms(1) lim by linarith
  then have c: "unat (bump_next b) + unat ?m < 2 ^ LENGTH(64)" by (simp add: um)
  have s: "unat (bump_next b + ?m) = unat (bump_next b) + (2 ^ k - 1)" using unat_add_small [OF c] um by simp
  have "unat ?p \<le> unat (bump_next b + ?m)" by (simp add: and_not_mask_bounds)
  then have le: "unat ?p \<le> unat (bump_next b) + (2 ^ k - 1)" using s by simp
  then have sm: "unat ?p + unat sz \<le> unat (bump_limit b)" using assms(1) by linarith
  then have d: "unat ?p + unat sz < 18446744073709551616" using lim by linarith
  then have "unat (?p + sz) = unat ?p + unat sz" using unat_add_small [of ?p sz] by simp
  then have run: "bump_allocate b sz (2 ^ k) = Inr (Some ?p, b\<lparr>bump_next := ?p + sz\<rparr>)"
    using one um c d sm
    by (simp add: bump_allocate_def sub_chk_def add_chk_def checked_add_def Let_def word_le_nat_alt not_less)
  note blk = bump_allocate_block [OF assms(3,2) run]
  show ?thesis
    by (rule that [of ?p]) (use run blk le bump_allocate_Some(3) [OF run] in \<open>simp_all add: alloc_early_def\<close>)
qed

lemma push_list_outside:
  "8 * length vs \<le> unat (x - (r - of_nat (8 * length vs))) \<Longrightarrow> length vs < 999 \<Longrightarrow> snd (push_list vs (r, m)) x = m x"
proof (induction vs rule: rev_induct)
  case Nil
  then show ?case by (simp add: push_list_def)
next
  case (snoc v vs)
  let ?n = "8 * length vs" and ?low = "r - of_nat (8 * length (vs @ [v]))"
  have e: "x - (r - of_nat ?n) = (x - ?low) - 8" by simp
  have u: "?n + 8 \<le> unat (x - ?low)" using snoc.prems(1) by simp
  then have "unat (x - (r - of_nat ?n)) = unat (x - ?low) - 8" unfolding e by (subst unat_sub_le) (simp_all add: word_le_nat_alt)
  then have IH: "snd (push_list vs (r, m)) x = m x" using snoc.IH snoc.prems(2) u by simp
  have low: "fst (push_list vs (r, m)) - 8 = ?low" by (simp add: push_list_rsp algebra_simps)
  have "snd (push_list (vs @ [v]) (r, m)) x = write_u64 (snd (push_list vs (r, m))) ?low v x"
    unfolding push_list_snoc low by simp
  also have "\<dots> = snd (push_list vs (r, m)) x" unfolding write_u64_def by (rule write_bytes_outside) (use u in simp)
  finally show ?case using IH by simp
qed

lemma user_stack_size: "unat (USER_STACK_SIZE div 4096) = 16" "unat USER_STACK_SIZE = 65536" "unat stack_size = 65536"
  "USER_STACK_VIRT = 0x70000" "add_chk 0x70000 USER_STACK_SIZE = Inr 0x80000"
  by (simp_all add: USER_STACK_SIZE_def stack_size_def STACK_SIZE_def USER_STACK_VIRT_def add_chk_def)

lemma map_user_stack_run:
  assumes wf: "pt_wf (mach k) root" and root: "root \<noteq> 0" and ub: "page_aligned ub" "unat ub + 65536 \<le> 2 ^ 64" and free: "48 \<le> card (free_frames (falloc (mach k)))"
  obtains m where "map_user_stack root ub utop k = Inr (0x80000, k\<lparr>mach := m\<rparr>)" "pt_grows root (mach k) m"
    "\<And>j. j < 65536 \<Longrightarrow> translate m root (0x70000 + of_nat j) = Some (ub + of_nat j)"
    "\<And>w. \<not> (0x70 \<le> page_no w \<and> page_no w < 0x80) \<Longrightarrow> translate m root w = translate (mach k) root w"
proof -
  let ?fl = "PAGE_PRESENT OR PAGE_USER OR PAGE_WRITABLE"
  have va: "page_aligned (0x70000 :: u64)" "unat (0x70000 :: u64) + 4096 * 16 \<le> 2 ^ 64" "unat ub + 4096 * 16 \<le> 2 ^ 64" "16 \<le> (2 :: nat) ^ 36"
    using ub(2) by (simp_all add: page_aligned_def)
  have idx: "set [0..<16] \<subseteq> {..<16 :: nat}" "distinct [0..<16 :: nat]" by auto
  obtain ok m where r: "map_region (mach k) root 0x70000 ub 16 ?fl = Inr (ok, m)" "ok \<longrightarrow> region_post root 0x70000 ub ?fl {0..<16} (mach k) m"
      "pt_grows root (mach k) m" "3 * 16 \<le> card (free_frames (falloc (mach k))) \<longrightarrow> ok"
    using map_region_from_post [OF va idx wf, of ?fl] by (auto simp: map_region_def)
  have post: "region_post root 0x70000 ub ?fl {0..<16} (mach k) m" using r(2,4) free by simp
  have pn: "page_no (0x70000 + of_nat (4096 * i + l)) = 0x70 + i" if "i < 16" "l < 4096" for i l
    using page_no_offset [OF va(1,2) that] that(1) by simp
  have "translate m root (0x70000 + of_nat j) = Some (ub + of_nat j)" if "j < 65536" for j
  proof -
    define i l where "i = j div 4096" and "l = j mod 4096"
    have j: "j = 4096 * i + l" "i < 16" "l < 4096" using that by (auto simp: i_def l_def)
    have "same_page (0x70000 + of_nat (4096 * i)) (0x70000 + of_nat (4096 * i + l))"
      using pn [OF j(2), of 0] pn [OF j(2,3)] by (simp add: same_page_iff)
    then have "translate m root (0x70000 + of_nat (4096 * i + l)) =
        Some (frame_of ((ub + of_nat (4096 * i)) OR ?fl OR PAGE_PRESENT) OR ((0x70000 + of_nat (4096 * i + l)) AND 0xFFF))"
      using post j(2) unfolding region_post_def by (meson atLeastLessThan_iff le0)
    moreover have "frame_of ((ub + of_nat (4096 * i)) OR ?fl OR PAGE_PRESENT) OR ((0x70000 + of_nat (4096 * i) + of_nat l) AND 0xFFF) =
        ub + of_nat (4096 * i) + of_nat l"
    proof (rule entry_translation)
      show "page_aligned (ub + of_nat (4096 * i))" "page_aligned (0x70000 + of_nat (4096 * i) :: u64)"
        using unat_page_offset [OF va(3) j(2), of 0] unat_page_offset [OF va(2) j(2), of 0] ub(1) va(1) by (simp_all add: page_aligned_iff)
      show "?fl AND 0xFFF = ?fl" by (simp add: PAGE_PRESENT_def PAGE_USER_def PAGE_WRITABLE_def)
    qed (rule j(3))
    ultimately show ?thesis by (simp add: j(1) add.assoc)
  qed
  moreover have "translate m root w = translate (mach k) root w" if "\<not> (0x70 \<le> page_no w \<and> page_no w < 0x80)" for w
  proof -
    have "\<not> same_page (0x70000 + of_nat (4096 * i)) w" if "i < 16" for i
      using pn [OF that, of 0] \<open>\<not> (0x70 \<le> page_no w \<and> page_no w < 0x80)\<close> that by (auto simp: same_page_iff)
    then show ?thesis using post unfolding region_post_def by (meson atLeastLessThan_iff)
  qed
  moreover have "map_user_stack root ub utop k = Inr (0x80000, k\<lparr>mach := m\<rparr>)"
    using r(1) root by (simp add: map_user_stack_def page_table_root_def user_stack_size)
  ultimately show ?thesis using that r(3) by blast
qed

text \<open>No thread yet.\<close>

definition fresh_threads :: "kernel \<Rightarrow> bool" where
  "fresh_threads k \<longleftrightarrow> storage k = replicate MAX_THREADS None \<and> thread_used k = replicate MAX_THREADS False \<and> ready_queue k = replicate MAX_THREADS None"

lemma create_thread_run:
  assumes k: "fresh_threads k" and wf: "pt_wf (mach k) root" and root: "root \<noteq> 0" and free: "48 \<le> card (free_frames (falloc (mach k)))"
    and hp: "bump_inv (heap k)" "unat (bump_next (heap k)) + 0x22000 \<le> unat (bump_limit (heap k))"
    and apart: "\<forall>x. unat (bump_next (heap k)) \<le> unat x \<and> unat x < unat (bump_next (heap k)) + 0x22000 \<longrightarrow> frame_of x \<notin> tables (mach k) root"
  obtains k' t ub where "create_thread stub p e root k = Inr (Some 0, k')" "storage k' = (replicate MAX_THREADS None)[0 := Some t]"
    "user_rip t = e" "user_rsp t = 0x80000" "process_page_table_root t = root" "unat (stack_base t) + 65536 < 2 ^ 64"
    "pt_wf (mach k') root"
    "\<forall>x. frame_of x \<notin> tables (mach k) root \<union> free_frames (falloc (mach k)) \<longrightarrow> \<not> unat (bump_next (heap k)) \<le> unat x \<longrightarrow> phys (mach k') x = phys (mach k) x"
    "\<forall>j<65536. translate (mach k') root (0x70000 + of_nat j) = Some (ub + of_nat j)" "unat (bump_next (heap k)) \<le> unat ub"
    "\<forall>w. \<not> (0x70 \<le> page_no w \<and> page_no w < 0x80) \<longrightarrow> translate (mach k') root w = translate (mach k) root w"
proof -
  let ?h = "heap k"
  note lim = unat_u64_less [of "bump_limit ?h"]
  obtain kb where kb: "alloc_early stack_size (2 ^ 4) ?h = Inr (Some kb, ?h\<lparr>bump_next := kb + stack_size\<rparr>)" "unat (bump_next ?h) \<le> unat kb"
      "unat kb \<le> unat (bump_next ?h) + (2 ^ 4 - 1)" "unat (kb + stack_size) = unat kb + unat stack_size" "bump_inv (?h\<lparr>bump_next := kb + stack_size\<rparr>)"
    by (rule bump_allocate_run [of ?h 4 stack_size]) (use hp in \<open>auto simp: user_stack_size\<close>)
  define h1 where "h1 = ?h\<lparr>bump_next := kb + stack_size\<rparr>"
  have h1: "unat (bump_next h1) = unat kb + 65536" "bump_limit h1 = bump_limit ?h" "bump_inv h1" using kb(4,5) by (simp_all add: h1_def user_stack_size)
  obtain ub where ub: "alloc_early USER_STACK_SIZE (2 ^ 12) h1 = Inr (Some ub, h1\<lparr>bump_next := ub + USER_STACK_SIZE\<rparr>)" "unat (bump_next h1) \<le> unat ub"
      "unat ub \<le> unat (bump_next h1) + (2 ^ 12 - 1)" "unat ub mod 2 ^ 12 = 0"
    by (rule bump_allocate_run [of h1 12 USER_STACK_SIZE]) (use hp kb(3) h1 in \<open>auto simp: user_stack_size\<close>)
  have ubl: "page_aligned ub" "unat ub + 65536 < 18446744073709551616"
    using ub(3,4) h1(1) kb(3) hp(2) lim by (simp add: page_aligned_iff, simp del: unat_u64_less)
  define m1 where "m1 = snd (initial_stack stub e (kb + stack_size) (phys (mach k)))"
  let ?m1 = "(mach k)\<lparr>phys := m1\<rparr>"
  define k3 where "k3 = k\<lparr>heap := h1\<lparr>bump_next := ub + USER_STACK_SIZE\<rparr>, mach := ?m1\<rparr>"
  have st: "m1 x = phys (mach k) x" if "\<not> (unat kb \<le> unat x \<and> unat x < unat kb + 65536)" for x
    unfolding m1_def initial_stack_def
  proof (rule push_list_outside)
    define r where "r = kb + stack_size - 64"
    have ur: "unat r = unat kb + 65472" unfolding r_def using kb(4) by (subst unat_sub_le) (simp_all add: word_le_nat_alt user_stack_size)
    have "64 \<le> unat (x - r)"
    proof (cases "r \<le> x")
      case True
      then have "unat kb + 65472 \<le> unat x" using ur by (simp add: word_le_nat_alt)
      then have "unat kb + 65536 \<le> unat x" using that by linarith
      then show ?thesis using True ur by (simp add: unat_sub_le)
    next
      case False
      then have "unat (x - r) = unat x + 2 ^ 64 - unat r" by (simp add: unat_sub_if_size size_word.rep_eq word_le_nat_alt)
      then show ?thesis using ur kb(3) hp(2) lim by (simp del: unat_u64_less)
    qed
    then show "8 * length [e, stub, 0, 0, 0, 0, 0, 0] \<le> unat (x - (kb + stack_size - of_nat (8 * length [e, stub, 0, 0, 0, 0, 0, 0])))"
      by (simp add: r_def)
  qed simp
  have outt: "phys ?m1 x = phys (mach k) x" if "frame_of x \<in> tables (mach k) root" for x
    using that apart st [of x] kb(2,3) by (cases "unat kb \<le> unat x \<and> unat x < unat kb + 65536") auto
  have w1: "pt_wf ?m1 root" "tables ?m1 root = tables (mach k) root" "\<And>w. translate ?m1 root w = translate (mach k) root w"
    using pt_wf_outside [OF wf, of ?m1] outt by simp_all
  have k3: "mach k3 = ?m1" by (simp add: k3_def)
  obtain m where m: "map_user_stack root ub (ub + USER_STACK_SIZE) k3 = Inr (0x80000, k3\<lparr>mach := m\<rparr>)" "pt_grows root ?m1 m"
      "\<And>j. j < 65536 \<Longrightarrow> translate m root (0x70000 + of_nat j) = Some (ub + of_nat j)"
      "\<And>w. \<not> (0x70 \<le> page_no w \<and> page_no w < 0x80) \<Longrightarrow> translate m root w = translate ?m1 root w"
    by (rule map_user_stack_run [of k3 root ub, where utop = "ub + USER_STACK_SIZE"]) (use w1(1) root ubl free k3 in auto)
  define t where "t = (new_thread (next_tid k) p e)\<lparr>stack_base := kb, stack_limit := kb,
      saved_rsp := fst (initial_stack stub e (kb + stack_size) (phys (mach k))), user_rsp := 0x80000, user_rip := e, process_page_table_root := root, tstate := Ready\<rparr>"
  define k' where "k' = k\<lparr>mach := m, heap := h1\<lparr>bump_next := ub + USER_STACK_SIZE\<rparr>, storage := (replicate MAX_THREADS None)[0 := Some t],
      thread_used := (replicate MAX_THREADS False)[0 := True], ready_queue := (replicate MAX_THREADS None)[0 := Some 0], next_tid := next_tid k + 1\<rparr>"
  have "create_thread stub p e root k = Inr (Some 0, k')"
  proof -
    have "alloc_thread_slot k = Some 0" using k by (simp add: fresh_threads_def alloc_thread_slot_def position_replicate MAX_THREADS_def)
    moreover have "kernel_alloc stack_size 16 k = Inr (Some kb, k\<lparr>heap := h1\<rparr>)" using kb(1) by (simp add: kernel_alloc_def h1_def)
    moreover have "add_chk kb stack_size = Inr (kb + stack_size)" "add_chk ub USER_STACK_SIZE = Inr (ub + USER_STACK_SIZE)"
      using kb(3) hp(2) lim ubl(2) by (simp_all add: add_chk_def user_stack_size del: unat_u64_less)
    moreover have "kernel_alloc USER_STACK_SIZE 4096 (k\<lparr>heap := h1, mach := ?m1\<rparr>) = Inr (Some ub, k3)"
      using ub(1) by (simp add: kernel_alloc_def k3_def)
    moreover have "enqueue 0 (replicate MAX_THREADS None) = Some ((replicate MAX_THREADS None)[0 := Some 0])"
      by (simp add: enqueue_def position_replicate MAX_THREADS_def)
    ultimately show ?thesis using m(1) k
      by (simp add: create_thread_def init_kernel_stack_def m1_def [symmetric] case_prod_beta Let_def enqueue_thread_def set_thread_def
          k3_def k'_def t_def fresh_threads_def)
  qed
  moreover have "phys m x = phys (mach k) x" if "frame_of x \<notin> tables (mach k) root \<union> free_frames (falloc (mach k))" "\<not> unat (bump_next ?h) \<le> unat x" for x
    using m(2) w1(2) that st [of x] kb(2) unfolding pt_grows_def by auto
  ultimately show ?thesis
    by (intro that [of k' t ub]) (use m w1(3) kb(3) hp(2) lim ub(2) h1(1) kb(2) in \<open>auto simp: k'_def t_def pt_grows_def simp del: unat_u64_less\<close>)
qed

section \<open>The fixture in memory\<close>

definition fixture_image :: PeImage where
  "fixture_image = \<lparr>pe_machine = Amd64, pe_entry_point = 0x140001000, pe_image_base = 0x140000000, pe_image_size = 0x2000,
     pe_is_dll = False, pe_num_sections = 1, pe_section_table_offset = 328, pe_data_directory_offset = 196, pe_num_data_directories = 0\<rparr>"

definition fixture_section :: SectionHeader where
  "fixture_section = \<lparr>sec_name = take 8 (drop 328 MINIMAL_PE64), virtual_size = 0x1000, virtual_address = 0x1000, raw_size = 0x200, raw_offset = 0x200\<rparr>"

lemma fixture_section_reads:
  "take 4 (drop 336 MINIMAL_PE64) = [0, 0x10, 0, 0]" "take 4 (drop 340 MINIMAL_PE64) = [0, 0x10, 0, 0]"
  "take 4 (drop 344 MINIMAL_PE64) = [0, 2, 0, 0]" "take 4 (drop 348 MINIMAL_PE64) = [0, 2, 0, 0]"
  by (simp_all add: MINIMAL_PE64_def fixture_lengths fixture_bytes numeral_3_eq_3)

lemma fixture_sections: "map (section_at MINIMAL_PE64 fixture_image) [0..<unat (pe_num_sections fixture_image)] = map Some [fixture_section]"
  by (simp add: fixture_image_def section_at_def fixture_section_def pe_field_def fixture_lengths fixture_section_reads from_le_def Let_def)

lemma fixture_section_contents: "section_contents fixture_section MINIMAL_PE64 = drop 512 MINIMAL_PE64 @ replicate 3584 0"
  by (simp add: section_contents_def fixture_section_def fixture_lengths)

lemma fixture_image_text:
  assumes "\<forall>x. unat (x - a) < 0x2000 \<longrightarrow> m x = image_memory a MINIMAL_PE64 [fixture_section] (\<lambda>_. 0) x"
  shows "text_at (a + 0x1000) m"
proof -
  let ?bs = "section_contents fixture_section MINIMAL_PE64"
  have len: "length ?bs = 4096" by (simp add: fixture_section_contents fixture_lengths)
  have d: "section_dest a fixture_section = a + 0x1000" by (simp add: section_dest_def fixture_section_def)
  have "read_bytes m (a + 0x1000) 4096 = read_bytes (write_bytes (\<lambda>_. 0) (a + 0x1000) ?bs) (a + 0x1000) 4096"
  proof (rule read_bytes_cong)
    fix i :: nat assume i: "i < 4096"
    have "unat (a + 0x1000 + of_nat i - a) < 0x2000" using i by (simp add: unat_word_ariths unat_of_nat)
    then show "m (a + 0x1000 + of_nat i) = write_bytes (\<lambda>_. 0) (a + 0x1000) ?bs (a + 0x1000 + of_nat i)"
      using assms d by simp
  qed
  also have "\<dots> = ?bs" using read_write_bytes_same [of ?bs "\<lambda>_. 0" "a + 0x1000"] len by simp
  finally have r: "read_bytes m (a + 0x1000) 4096 = ?bs" .
  have "read_bytes m (a + 0x1000) 512 = take 512 (read_bytes m (a + 0x1000) 4096)" by (simp add: read_bytes_def take_map)
  then show ?thesis unfolding r by (simp add: text_at_def fixture_section_contents fixture_lengths)
qed

section \<open>From the file to the process\<close>

text \<open>What the self-test needs of the memory: eight consecutive frames at the bottom of the free ones, below 140 KiB of early heap
  that hold neither a page table nor the allocator's bitmap, and frames for the tables of the user stack.\<close>

definition self_test_memory :: "u64 \<Rightarrow> machine \<Rightarrow> bump_allocator \<Rightarrow> bool" where
  "self_test_memory a m h \<longleftrightarrow> pt_wf m (kernel_cr3 m) \<and> kernel_cr3 m \<noteq> 0 \<and> frame_run a 8 (falloc m) \<and>
     unat a + 0x8000 \<le> unat (frame_of (bump_next h)) \<and> bump_inv h \<and> unat (bump_next h) + 0x23000 \<le> unat (bump_limit h) \<and>
     (\<forall>t\<in>tables m (kernel_cr3 m). unat t + 4096 \<le> unat (bump_next h) \<or> unat (bump_next h) + 0x23000 \<le> unat t) \<and>
     60 \<le> card (free_frames (falloc m)) \<and> unat (bitmap_addr (falloc m)) + 8 * bitmap_words (falloc m) \<le> unat (bump_next h)"

lemma heap_frame_no_table:
  assumes "\<forall>t\<in>T. unat t + 4096 \<le> lo \<or> hi \<le> unat t" "lo \<le> unat x" "unat x < hi"
  shows "frame_of x \<notin> T"
proof
  assume "frame_of x \<in> T"
  then have "unat (frame_of x) + 4096 \<le> lo \<or> hi \<le> unat (frame_of x)" using assms(1) by blast
  moreover have "unat x < unat (frame_of x) + 4096" "unat (frame_of x) \<le> unat x" by (simp_all add: unat_frame_of_div)
  ultimately show False using assms(2,3) by linarith
qed

lemma range_unat:
  assumes "unat (x - p) < n" "unat p + n \<le> 18446744073709551616"
  shows "unat p \<le> unat (x :: u64)" "unat x < unat p + n"
proof -
  have "x = p + (x - p)" by simp
  then have "unat x = unat p + unat (x - p)" using unat_add_small [of p "x - p"] assms by simp
  then show "unat p \<le> unat x" "unat x < unat p + n" using assms(1) by simp_all
qed

text \<open>The fixture, once written to its frame and to the buffer, as the loader finds it.\<close>

lemma fixture_in_memory:
  assumes mem: "self_test_memory a m h" and fa: "fa_inv fa1" "free_frames fa1 = free_frames (falloc m) - {a}" "a \<in> free_frames (falloc m)"
    and m2: "m2 = m\<lparr>falloc := fa1, phys := write_bytes (write_bytes (phys m) a MINIMAL_PE64) (bump_next h) MINIMAL_PE64\<rparr>"
  shows "pt_wf m2 (kernel_cr3 m2)" "tables m2 (kernel_cr3 m2) = tables m (kernel_cr3 m)"
    "\<And>w. translate m2 (kernel_cr3 m2) w = translate m (kernel_cr3 m) w"
    "slice_bytes m2 (bump_next h, 1024) = MINIMAL_PE64"
    "\<forall>x. unat (x - bump_next h) < 1024 \<longrightarrow> frame_of x \<notin> tables m (kernel_cr3 m) \<and> unat a + 0x8000 \<le> unat (frame_of x)"
proof -
  note M = mem [unfolded self_test_memory_def]
  let ?r = "kernel_cr3 m" and ?n = "unat (bump_next h)"
  have lim: "unat (bump_limit h) < 18446744073709551616" by simp
  have al: "page_aligned a" and al2: "unat a + 4096 < 2 ^ 64" using free_frame_bounds [OF _ fa(3)] M by (simp_all add: pt_wf_def)
  have in_heap: "?n \<le> unat x \<and> unat x < ?n + 1024" if "unat (x - bump_next h) < 1024" for x
    using range_unat [OF that] M lim by (simp del: unat_u64_less)
  show ap: "\<forall>x. unat (x - bump_next h) < 1024 \<longrightarrow> frame_of x \<notin> tables m ?r \<and> unat a + 0x8000 \<le> unat (frame_of x)"
  proof (intro allI impI conjI)
    fix x assume "unat (x - bump_next h) < 1024"
    note x = in_heap [OF this]
    show "frame_of x \<notin> tables m ?r" by (rule heap_frame_no_table [where lo = ?n and hi = "?n + 0x23000"]) (use M x in auto)
    have "unat (frame_of (bump_next h)) \<le> unat (frame_of x)" using x by (simp add: unat_frame_of_div div_le_mono)
    then show "unat a + 0x8000 \<le> unat (frame_of x)" using M by linarith
  qed
  let ?m1 = "m\<lparr>falloc := fa1\<rparr>"
  have w1: "pt_wf ?m1 ?r" using M fa unfolding pt_wf_def by auto
  have outt: "phys m2 x = phys ?m1 x" if "frame_of x \<in> tables ?m1 ?r" for x
  proof -
    have t: "frame_of x \<in> tables m ?r" using that by simp
    then have "\<not> unat (x - bump_next h) < 1024" using ap by blast
    moreover have "frame_of x \<noteq> a" using t fa(3) pt_wf_tables_not_free M by blast
    then have "\<not> unat (x - a) < 1024" using frame_of_run(1) [OF al, of 1 x] al2 by auto
    ultimately show ?thesis by (simp add: m2 write_bytes_outside fixture_lengths)
  qed
  have "falloc m2 = falloc ?m1" by (simp add: m2)
  note o = pt_wf_outside [OF w1 this]
  show "pt_wf m2 (kernel_cr3 m2)" "tables m2 (kernel_cr3 m2) = tables m ?r" "\<And>w. translate m2 (kernel_cr3 m2) w = translate m ?r w"
    using o outt by (auto simp: m2)
  show "slice_bytes m2 (bump_next h, 1024) = MINIMAL_PE64"
    using read_write_bytes_same [of MINIMAL_PE64 "write_bytes (phys m) a MINIMAL_PE64" "bump_next h"]
    by (simp add: slice_bytes_def m2 fixture_lengths)
qed

lemma fixture_loads:
  assumes mem: "self_test_memory a m h" and fa: "fa_inv fa1" "free_frames fa1 = free_frames (falloc m) - {a}" "a \<in> free_frames (falloc m)"
      "frame_run (a + 4096) 7 fa1"
    and m2: "m2 = m\<lparr>falloc := fa1, phys := write_bytes (write_bytes (phys m) a MINIMAL_PE64) (bump_next h) MINIMAL_PE64\<rparr>"
  obtains m3 where "load_into_process fixture_image p (bump_next h, 1024) m2 = Inr (True, p\<lparr>proc_image_base := a + 0x1000, proc_image_size := 0x2000,
      proc_root := a + 0x3000, proc_entry_point := a + 0x2000\<rparr>, m3)" "pt_wf m3 (a + 0x3000)" "a + 0x3000 \<noteq> 0" "text_at (a + 0x2000) (phys m3)"
    "\<forall>x. unat (x - (a + 0x1000)) < 0x2000 \<longrightarrow> frame_of x \<notin> tables m3 (a + 0x3000) \<union> free_frames (falloc m3)"
    "\<forall>w. translate m3 (a + 0x3000) w = (if page_no w = page_no 0x140001000 then Some ((a + 0x2000) OR PAGE_EXECUTE OR (w AND 0xFFF))
       else translate m (kernel_cr3 m) w)"
    "\<forall>t\<in>tables m3 (a + 0x3000). t \<in> tables m (kernel_cr3 m) \<or> unat t < unat a + 0x8000" "48 \<le> card (free_frames (falloc m3))"
proof -
  note M = mem [unfolded self_test_memory_def]
  note F = fixture_in_memory [OF mem fa(1-3) m2]
  have k: "kernel_cr3 m2 \<noteq> 0" using M by (simp add: m2)
  have u: "unat a + 0x8000 < 18446744073709551616" using M unat_u64_less [of "frame_of (bump_next h)"] by linarith
  then have ua: "unat (a + 4096) = unat a + 4096" by (simp add: unat_word_ariths)
  have "unat a mod 4096 = 0" using free_frame_bounds(1) [OF _ fa(3)] M by (simp add: pt_wf_def page_aligned_iff)
  then have "(unat a + 4096 * 2) mod 4096 = 0" by (simp only: mod_mult_self2)
  then have ale: "page_aligned (a + 0x2000)" using u by (simp add: page_aligned_iff unat_word_ariths)
  have fits: "\<forall>s\<in>set [fixture_section]. section_fits 2 (snd (bump_next h, 1024 :: nat)) s" by (simp add: section_fits_def fixture_section_def)
  have secs: "map (section_at (slice_bytes m2 (bump_next h, 1024)) fixture_image) [0..<unat (pe_num_sections fixture_image)] = map Some [fixture_section]"
    unfolding F(4) by (rule fixture_sections)
  have run: "frame_run (a + 4096) (2 + 3 * length [fixture_section] + 2) (falloc m2)" using fa(4) by (simp add: m2)
  have ap: "\<forall>x. unat (x - fst (bump_next h, 1024 :: nat)) < snd (bump_next h, 1024 :: nat) \<longrightarrow> frame_of x \<notin> tables m2 (kernel_cr3 m2) \<and>
      unat (a + 4096) + 4096 * (2 + 3 * length [fixture_section] + 2) \<le> unat (frame_of x)"
    using F(2,5) ua by (simp add: add.commute)
  have sz: "unat (pe_image_size fixture_image) + 4095 < 2 ^ 64" "2 = (unat (pe_image_size fixture_image) + 4095) div 4096" "0 < (2 :: nat)"
    by (simp_all add: fixture_image_def)
  have bnd: "pe_section_table_offset fixture_image + unat (pe_num_sections fixture_image) * 40 < 2 ^ 64"
      "unat (pe_image_base fixture_image) + 2 ^ 32 < 2 ^ 64" "snd (bump_next h, 1024 :: nat) < 2 ^ 64"
    by (simp_all add: fixture_image_def)
  have ent: "unat (a + 4096) + unat (saturating_sub (pe_entry_point fixture_image) (pe_image_base fixture_image)) < 2 ^ 64"
    using ua u by (simp add: fixture_image_def saturating_sub_def)
  obtain m3 root where r: "root = a + 4096 + of_nat (4096 * 2)" "root \<noteq> 0"
      "load_into_process fixture_image p (bump_next h, 1024) m2 = Inr (True, p\<lparr>proc_image_base := a + 4096, proc_image_size := pe_image_size fixture_image,
        proc_root := root, proc_entry_point := a + 4096 + saturating_sub (pe_entry_point fixture_image) (pe_image_base fixture_image)\<rparr>, m3)"
      "pt_wf m3 root"
    and img: "\<forall>x. unat (x - (a + 4096)) < 4096 * 2 \<longrightarrow> phys m3 x = image_memory (a + 4096) (slice_bytes m2 (bump_next h, 1024)) [fixture_section] (\<lambda>_. 0) x \<and>
        frame_of x \<notin> tables m3 root \<union> free_frames (falloc m3)"
    and tr: "translate m3 root = image_mapping (a + 4096) (pe_image_base fixture_image) [fixture_section] (translate m2 (kernel_cr3 m2))"
    and tb: "\<forall>t\<in>tables m3 root. t \<in> tables m2 (kernel_cr3 m2) \<or> unat t < unat (a + 4096) + 4096 * (2 + 3 * length [fixture_section] + 2)"
    and cd: "card (free_frames (falloc m2)) \<le> card (free_frames (falloc m3)) + 2 + 3 * length [fixture_section] + 1"
    using load_into_process_run [OF F(1) k sz secs fits bnd run ent ap, of p] by blast
  have root: "root = a + 0x3000" using r(1) by simp
  have tx: "text_at (a + 4096 + 0x1000) (phys m3)" by (rule fixture_image_text) (use img F(4) in simp)
  have trw: "translate m3 root w = (if page_no w = page_no 0x140001000 then Some ((a + 0x2000) OR PAGE_EXECUTE OR (w AND 0xFFF))
       else translate m (kernel_cr3 m) w)" for w
  proof -
    have fl: "frame_of SECTION_FLAGS = PAGE_EXECUTE"
      by (simp add: SECTION_FLAGS_def frame_of_def PAGE_PRESENT_def PAGE_USER_def PAGE_WRITABLE_def PAGE_EXECUTE_def)
    have "frame_of (8192 + a) = a + 8192" using frame_of_aligned [OF ale] by (simp add: add.commute)
    then show ?thesis using tr F(3)
      by (simp add: fixture_image_def fixture_section_def section_dest_def same_page_iff frame_of_entry fl or.assoc eq_commute [of "page_no w"])
  qed
  have "card (free_frames (falloc m2)) = card (free_frames (falloc m)) - 1" using fa(2,3) by (simp add: m2)
  moreover have "60 \<le> card (free_frames (falloc m))" using M by blast
  ultimately have "48 \<le> card (free_frames (falloc m3))" using cd by simp
  moreover have "load_into_process fixture_image p (bump_next h, 1024) m2 = Inr (True, p\<lparr>proc_image_base := a + 0x1000, proc_image_size := 0x2000,
      proc_root := a + 0x3000, proc_entry_point := a + 0x2000\<rparr>, m3)"
    using r(3) by (simp add: root fixture_image_def saturating_sub_def)
  moreover have "text_at (a + 0x2000) (phys m3)" using tx by (simp only: add.assoc) simp
  moreover have "\<forall>x. unat (x - (a + 0x1000)) < 0x2000 \<longrightarrow> frame_of x \<notin> tables m3 (a + 0x3000) \<union> free_frames (falloc m3)"
    using img by (simp add: root)
  moreover have "\<forall>t\<in>tables m3 (a + 0x3000). t \<in> tables m (kernel_cr3 m) \<or> unat t < unat a + 0x8000"
    using tb F(2) ua by (simp add: root add.commute)
  ultimately show ?thesis using that [of m3] r(2,4) trw unfolding root by blast
qed

lemma launch_run:
  assumes k: "fresh_threads (kern s)" and wf: "pt_wf (mach (kern s)) root" "root \<noteq> 0" and free: "48 \<le> card (free_frames (falloc (mach (kern s))))"
    and hp: "bump_inv (heap (kern s))" "unat (bump_next (heap (kern s))) + 0x22000 \<le> unat (bump_limit (heap (kern s)))"
    and apart: "\<forall>x. unat (bump_next (heap (kern s))) \<le> unat x \<and> unat x < unat (bump_next (heap (kern s))) + 0x22000 \<longrightarrow>
      frame_of x \<notin> tables (mach (kern s)) root"
    and p: "proc_root p = root" "proc_entry_point p = e"
  obtains s' ub where "launch_process stub exit_addr p False s = Inr (User_Mode (Some root) e 0x7FFF8 0x7FFF8 exit_addr, s')"
    "current_thread (kern s') = Some 0" "pt_wf (mach (kern s')) root"
    "\<forall>x. frame_of x \<notin> tables (mach (kern s)) root \<union> free_frames (falloc (mach (kern s))) \<longrightarrow> \<not> unat (bump_next (heap (kern s))) \<le> unat x \<longrightarrow>
       os_mem s' x = os_mem s x"
    "\<forall>j<65536. translate (mach (kern s')) root (0x70000 + of_nat j) = Some (ub + of_nat j)" "unat (bump_next (heap (kern s))) \<le> unat ub"
    "\<forall>w. \<not> (0x70 \<le> page_no w \<and> page_no w < 0x80) \<longrightarrow> translate (mach (kern s')) root w = translate (mach (kern s)) root w"
proof -
  obtain k' t ub where c: "create_thread stub (proc_pid p) e root (kern s) = Inr (Some 0, k')" "storage k' = (replicate MAX_THREADS None)[0 := Some t]"
      "user_rip t = e" "user_rsp t = 0x80000" "process_page_table_root t = root" "unat (stack_base t) + 65536 < 2 ^ 64" "pt_wf (mach k') root"
      "\<forall>x. frame_of x \<notin> tables (mach (kern s)) root \<union> free_frames (falloc (mach (kern s))) \<longrightarrow> \<not> unat (bump_next (heap (kern s))) \<le> unat x \<longrightarrow>
         phys (mach k') x = phys (mach (kern s)) x"
      "\<forall>j<65536. translate (mach k') root (0x70000 + of_nat j) = Some (ub + of_nat j)" "unat (bump_next (heap (kern s))) \<le> unat ub"
      "\<forall>w. \<not> (0x70 \<le> page_no w \<and> page_no w < 0x80) \<longrightarrow> translate (mach k') root w = translate (mach (kern s)) root w"
    by (rule create_thread_run [OF k wf(1,2) free hp apart]) blast
  have t: "thread_mut k' 0 = Some t" using c(2) by (simp add: thread_mut_def MAX_THREADS_def)
  have "add_chk (stack_base t) stack_size = Inr (stack_base t + stack_size)" using c(6) by (simp add: add_chk_def user_stack_size)
  then obtain k2 where e: "enter_user_mode exit_addr 0 k' = Inr (User_Mode (Some root) e 0x7FFF8 0x7FFF8 exit_addr, k2)"
      "mach k2 = mach k'" "current_thread k2 = Some 0"
    using t c(3-5) wf(2) by (simp add: enter_user_mode_def start_thread_def set_thread_def Let_def)
  have "launch_process stub exit_addr p False s = Inr (User_Mode (Some root) e 0x7FFF8 0x7FFF8 exit_addr, s\<lparr>kern := k2\<rparr>)"
    using c(1) t e(1) p by (simp add: launch_process_def expect_def)
  then show ?thesis using that [of "s\<lparr>kern := k2\<rparr>" ub] c(7-11) e(2,3) by (simp add: os_mem_def)
qed

text \<open>The state the self-test ends in.\<close>

definition fixture_running :: "u64 \<Rightarrow> machine \<Rightarrow> os \<Rightarrow> bool" where
  "fixture_running a m s' \<longleftrightarrow> current_thread (kern s') = Some 0 \<and> pt_wf (mach (kern s')) (a + 0x3000) \<and> text_at (a + 0x2000) (os_mem s') \<and>
     (\<forall>w. \<not> (0x70 \<le> page_no w \<and> page_no w < 0x80) \<longrightarrow>
        translate (mach (kern s')) (a + 0x3000) w =
          (if page_no w = page_no 0x140001000 then Some ((a + 0x2000) OR PAGE_EXECUTE OR (w AND 0xFFF)) else translate m (kernel_cr3 m) w)) \<and>
     (\<exists>ub. \<forall>j<65536. translate (mach (kern s')) (a + 0x3000) (0x70000 + of_nat j) = Some (ub + of_nat j))"

text \<open>The machine once the fixture is in its frame \<open>a\<close> and in the buffer at the start of the heap, the rest of the heap, and the loaded process.\<close>

definition fixture_read :: "u64 \<Rightarrow> frame_allocator \<Rightarrow> machine \<Rightarrow> bump_allocator \<Rightarrow> machine" where
  "fixture_read a fa1 m h = m\<lparr>falloc := fa1, phys := write_bytes (write_bytes (phys m) a MINIMAL_PE64) (bump_next h) MINIMAL_PE64\<rparr>"

definition fixture_process :: "u64 \<Rightarrow> Process" where
  "fixture_process a = (new_process 1)\<lparr>proc_image_base := a + 0x1000, proc_image_size := 0x2000, proc_root := a + 0x3000, proc_entry_point := a + 0x2000\<rparr>"

definition process_ready :: "u64 \<Rightarrow> machine \<Rightarrow> bump_allocator \<Rightarrow> os \<Rightarrow> bool" where
  "process_ready a m h s \<longleftrightarrow> fresh_threads (kern s) \<and>
     (\<exists>ptr. lookup (handles s) 1 = Some \<lparr>obj_kind = ObjectKind.Process, obj_data = ptr\<rparr> \<and> procs s ptr = Some (fixture_process a)) \<and>
     pt_wf (mach (kern s)) (a + 0x3000) \<and> a + 0x3000 \<noteq> 0 \<and> text_at (a + 0x2000) (os_mem s) \<and>
     (\<forall>x. unat (x - (a + 0x1000)) < 0x2000 \<longrightarrow> frame_of x \<notin> tables (mach (kern s)) (a + 0x3000) \<union> free_frames (falloc (mach (kern s)))) \<and>
     (\<forall>w. translate (mach (kern s)) (a + 0x3000) w =
        (if page_no w = page_no 0x140001000 then Some ((a + 0x2000) OR PAGE_EXECUTE OR (w AND 0xFFF)) else translate m (kernel_cr3 m) w)) \<and>
     (\<forall>t\<in>tables (mach (kern s)) (a + 0x3000). t \<in> tables m (kernel_cr3 m) \<or> unat t < unat a + 0x8000) \<and>
     48 \<le> card (free_frames (falloc (mach (kern s)))) \<and> bump_inv (heap (kern s)) \<and>
     unat (bump_next h) \<le> unat (bump_next (heap (kern s))) \<and> unat (bump_next (heap (kern s))) + 0x22000 \<le> unat (bump_next h) + 0x23000 \<and>
     bump_limit (heap (kern s)) = bump_limit h"

lemma heap_buffer:
  assumes "self_test_memory a m h"
  shows "alloc_early 1024 1 h = Inr (Some (bump_next h), h\<lparr>bump_next := bump_next h + 1024\<rparr>)"
    "unat (bump_next h + 1024) = unat (bump_next h) + 1024" "bump_inv (h\<lparr>bump_next := bump_next h + 1024\<rparr>)"
proof -
  note M = assms [unfolded self_test_memory_def]
  obtain q where q: "alloc_early (1024 :: u64) (2 ^ 0) h = Inr (Some q, h\<lparr>bump_next := q + 1024\<rparr>)" "unat (bump_next h) \<le> unat q"
      "unat q \<le> unat (bump_next h) + (2 ^ 0 - 1)" "unat (q + 1024) = unat q + unat (1024 :: u64)" "bump_inv (h\<lparr>bump_next := q + 1024\<rparr>)"
    by (rule bump_allocate_run [of h 0 1024]) (use M in auto)
  have "q = bump_next h" using q(2,3) by (simp add: word_unat_eq_iff)
  then show "alloc_early 1024 1 h = Inr (Some (bump_next h), h\<lparr>bump_next := bump_next h + 1024\<rparr>)"
    "unat (bump_next h + 1024) = unat (bump_next h) + 1024" "bump_inv (h\<lparr>bump_next := bump_next h + 1024\<rparr>)"
    using q by simp_all
qed

lemma fixture_file_read:
  assumes init: "files s = vfs_init static_vfs" and mem: "self_test_memory a (mach (kern s)) (heap (kern s))"
    and al: "alloc_frame (mach (kern s)) = (Some a, (mach (kern s))\<lparr>falloc := fa1\<rparr>)" "page_aligned a"
  shows "\<exists>s1 v. install_fixture MINIMAL_PE64 s = Inr s1 \<and>
    create_user_process TEST_EXE s1 = load_pe (bump_next (heap (kern s)), 1024) 1
      (s\<lparr>files := v, kern := (kern s)\<lparr>heap := (heap (kern s))\<lparr>bump_next := bump_next (heap (kern s)) + 1024\<rparr>,
        mach := fixture_read a fa1 (mach (kern s)) (heap (kern s))\<rparr>\<rparr>)"
proof -
  let ?m = "mach (kern s)" and ?h = "heap (kern s)" and ?F = MINIMAL_PE64
  have F: "?F \<noteq> []" "length ?F = 1024" using fixture_lengths by auto
  obtain v where ins: "install_fixture ?F s = Inr (s\<lparr>kern := (kern s)\<lparr>mach := (?m\<lparr>falloc := fa1\<rparr>)\<lparr>phys := write_bytes (phys ?m) a ?F\<rparr>\<rparr>, files := v\<rparr>)"
      "holds_file a 1024 v"
    using install_fixture_run [OF init F(1) _ al] F(2) by auto
  define s1 where "s1 = s\<lparr>kern := (kern s)\<lparr>mach := (?m\<lparr>falloc := fa1\<rparr>)\<lparr>phys := write_bytes (phys ?m) a ?F\<rparr>\<rparr>, files := v\<rparr>"
  have ke: "kernel_alloc (of_nat 1024) 1 (kern s1) = Inr (Some (bump_next ?h), (kern s1)\<lparr>heap := ?h\<lparr>bump_next := bump_next ?h + 1024\<rparr>\<rparr>)"
    using heap_buffer(1) [OF mem] by (simp add: kernel_alloc_def s1_def)
  have hf: "holds_file a 1024 (files s1)" using ins(2) by (simp add: s1_def)
  obtain v2 where cup: "create_user_process TEST_EXE s1 = load_pe (bump_next ?h, 1024) 1
      (os_write (bump_next ?h) (read_bytes (os_mem s1) a 1024) (s1\<lparr>kern := (kern s1)\<lparr>heap := ?h\<lparr>bump_next := bump_next ?h + 1024\<rparr>\<rparr>, files := v2\<rparr>))"
    using create_user_process_run [OF hf _ _ al(2) ke] by auto
  have "read_bytes (os_mem s1) a 1024 = ?F"
    using read_write_bytes_same [of ?F "phys ?m" a] F(2) by (simp add: s1_def os_mem_def)
  then have "create_user_process TEST_EXE s1 = load_pe (bump_next ?h, 1024) 1 (s\<lparr>files := v2, kern := (kern s)\<lparr>heap := ?h\<lparr>bump_next := bump_next ?h + 1024\<rparr>,
        mach := fixture_read a fa1 ?m ?h\<rparr>\<rparr>)"
    unfolding cup by (simp add: os_write_def s1_def fixture_read_def)
  then show ?thesis using ins(1) s1_def by blast
qed

lemma fixture_process_loads:
  assumes init: "handles s = initial_handles" "fresh_threads (kern s)" and mem: "self_test_memory a (mach (kern s)) (heap (kern s))"
    and fa: "fa_inv fa1" "free_frames fa1 = free_frames (falloc (mach (kern s))) - {a}" "a \<in> free_frames (falloc (mach (kern s)))" "frame_run (a + 4096) 7 fa1"
    and s2: "s2 = s\<lparr>files := v, kern := (kern s)\<lparr>heap := (heap (kern s))\<lparr>bump_next := bump_next (heap (kern s)) + 1024\<rparr>,
        mach := fixture_read a fa1 (mach (kern s)) (heap (kern s))\<rparr>\<rparr>"
  shows "\<exists>s3. load_pe (bump_next (heap (kern s)), 1024) 1 s2 = Inr (Some (1, False), s3) \<and> process_ready a (mach (kern s)) (heap (kern s)) s3"
proof -
  let ?m = "mach (kern s)" and ?h = "heap (kern s)"
  define h1 where "h1 = ?h\<lparr>bump_next := bump_next ?h + 1024\<rparr>"
  note M = mem [unfolded self_test_memory_def] and hb = heap_buffer(2,3) [OF mem]
  obtain m3 where ld: "load_into_process fixture_image (new_process 1) (bump_next ?h, 1024) (fixture_read a fa1 ?m ?h) = Inr (True, fixture_process a, m3)"
      "pt_wf m3 (a + 0x3000)" "a + 0x3000 \<noteq> 0" "text_at (a + 0x2000) (phys m3)"
      "\<forall>x. unat (x - (a + 0x1000)) < 0x2000 \<longrightarrow> frame_of x \<notin> tables m3 (a + 0x3000) \<union> free_frames (falloc m3)"
      "\<forall>w. translate m3 (a + 0x3000) w = (if page_no w = page_no 0x140001000 then Some ((a + 0x2000) OR PAGE_EXECUTE OR (w AND 0xFFF))
         else translate ?m (kernel_cr3 ?m) w)"
      "\<forall>t\<in>tables m3 (a + 0x3000). t \<in> tables ?m (kernel_cr3 ?m) \<or> unat t < unat a + 0x8000" "48 \<le> card (free_frames (falloc m3))"
    unfolding fixture_process_def by (rule fixture_loads [OF mem fa fixture_read_def]) blast
  obtain ptr where q: "alloc_early PROCESS_SIZE (2 ^ 3) h1 = Inr (Some ptr, h1\<lparr>bump_next := ptr + PROCESS_SIZE\<rparr>)" "unat (bump_next h1) \<le> unat ptr"
      "unat ptr \<le> unat (bump_next h1) + (2 ^ 3 - 1)" "unat (ptr + PROCESS_SIZE) = unat ptr + unat PROCESS_SIZE"
      "bump_inv (h1\<lparr>bump_next := ptr + PROCESS_SIZE\<rparr>)"
    by (rule bump_allocate_run [of h1 3 PROCESS_SIZE]) (use M hb in \<open>auto simp: h1_def PROCESS_SIZE_def\<close>)
  define tb where "tb = snd (allocate ObjectKind.Process ptr initial_handles)"
  have hd: "allocate ObjectKind.Process ptr initial_handles = (Some 1, tb)" "lookup tb 1 = Some \<lparr>obj_kind = ObjectKind.Process, obj_data = ptr\<rparr>"
    using packed_allocate [OF packed_initial, of ObjectKind.Process ptr] packed_lookup [of "[\<lparr>obj_kind = ObjectKind.Process, obj_data = ptr\<rparr>]" tb 0]
    by (simp_all add: MAX_HANDLES_def tb_def)
  define h2 where "h2 = h1\<lparr>bump_next := ptr + PROCESS_SIZE\<rparr>"
  define s3 where "s3 = s2\<lparr>kern := (kern s)\<lparr>mach := m3, heap := h2\<rparr>, procs := (procs s)(ptr := Some (fixture_process a)), handles := tb\<rparr>"
  have "parse_pe (slice_bytes (mach (kern s2)) (bump_next ?h, 1024)) = Inr (Some fixture_image)"
    using fixture_in_memory(4) [OF mem fa(1-3) fixture_read_def] fixture_parses by (simp add: s2 fixture_image_def)
  moreover have "kernel_alloc PROCESS_SIZE PROCESS_ALIGN (kern s2) = Inr (Some ptr, (kern s2)\<lparr>heap := h2\<rparr>)"
    using q(1) by (simp add: kernel_alloc_def PROCESS_ALIGN_def s2 h2_def h1_def)
  moreover have "requires_translation (pe_machine fixture_image) = False"
    by (simp add: requires_translation_def host_machine_def fixture_image_def)
  ultimately have "load_pe (bump_next ?h, 1024) 1 s2 = Inr (Some (1, False), s3)"
    using ld(1) hd(1) init(1) by (simp add: load_pe_def Let_def s2 s3_def)
  moreover have "process_ready a ?m ?h s3"
    using ld(2-8) hd(2) init(2) q(2-5) hb(1) unfolding process_ready_def
    by (simp add: s3_def os_mem_def fresh_threads_def h2_def h1_def PROCESS_SIZE_def)
  ultimately show ?thesis by blast
qed

lemma heap_below_tables:
  assumes mem: "self_test_memory a m h" and rd: "process_ready a m h s"
  shows "\<forall>x :: u64. unat (bump_next (heap (kern s))) \<le> unat x \<and> unat x < unat (bump_next (heap (kern s))) + 0x22000 \<longrightarrow>
    frame_of x \<notin> tables (mach (kern s)) (a + 0x3000)"
proof (intro allI impI)
  note M = mem [unfolded self_test_memory_def] and R = rd [unfolded process_ready_def]
  fix x :: u64 assume "unat (bump_next (heap (kern s))) \<le> unat x \<and> unat x < unat (bump_next (heap (kern s))) + 0x22000"
  then have x: "unat (bump_next h) \<le> unat x" "unat x < unat (bump_next h) + 0x23000" using R by linarith+
  have "frame_of x \<notin> tables m (kernel_cr3 m)"
    by (rule heap_frame_no_table [where lo = "unat (bump_next h)" and hi = "unat (bump_next h) + 0x23000"]) (use M x in auto)
  moreover have "unat (frame_of (bump_next h)) \<le> unat (frame_of x)" using x(1) by (simp add: unat_frame_of_div div_le_mono)
  then have "unat a + 0x8000 \<le> unat (frame_of x)" using M by linarith
  moreover have "\<forall>t\<in>tables (mach (kern s)) (a + 0x3000). t \<in> tables m (kernel_cr3 m) \<or> unat t < unat a + 0x8000" using R by blast
  ultimately show "frame_of x \<notin> tables (mach (kern s)) (a + 0x3000)" by fastforce
qed

lemma text_survives:
  assumes mem: "self_test_memory a m h" and rd: "process_ready a m h s"
    and same: "\<forall>x. frame_of x \<notin> tables (mach (kern s)) (a + 0x3000) \<union> free_frames (falloc (mach (kern s))) \<longrightarrow>
      \<not> unat (bump_next (heap (kern s))) \<le> unat x \<longrightarrow> os_mem s' x = os_mem s x"
  shows "text_at (a + 0x2000) (os_mem s')"
proof -
  note M = mem [unfolded self_test_memory_def] and R = rd [unfolded process_ready_def]
  have "unat (frame_of (bump_next h)) \<le> unat (bump_next h)" by (simp add: unat_frame_of_div)
  then have a8: "unat a + 0x8000 \<le> unat (bump_next h)" using M by linarith
  have "os_mem s' (a + 0x2000 + of_nat i) = os_mem s (a + 0x2000 + of_nat i)" if i: "i < 512" for i
  proof -
    let ?x = "a + 0x2000 + of_nat i"
    have "?x - (a + 0x1000) = 0x1000 + of_nat i" by simp
    then have "unat (?x - (a + 0x1000)) < 0x2000" using i by (simp add: unat_word_ariths unat_of_nat)
    then have "frame_of ?x \<notin> tables (mach (kern s)) (a + 0x3000) \<union> free_frames (falloc (mach (kern s)))" using R by blast
    moreover have "unat ?x = unat a + 0x2000 + i"
      using i a8 unat_u64_less [of "bump_next h"] by (simp add: unat_word_ariths unat_of_nat del: unat_u64_less)
    then have "\<not> unat (bump_next (heap (kern s))) \<le> unat ?x" using R a8 i by linarith
    ultimately show ?thesis using same by blast
  qed
  then have "read_bytes (os_mem s') (a + 0x2000) 512 = read_bytes (os_mem s) (a + 0x2000) 512" by (intro read_bytes_cong)
  then show ?thesis using R by (simp add: text_at_def)
qed

lemma fixture_launches:
  assumes mem: "self_test_memory a m h" and rd: "process_ready a m h s"
  shows "\<exists>s'. launch_process stub exit_addr (fixture_process a) False s =
      Inr (User_Mode (Some (a + 0x3000)) (a + 0x2000) 0x7FFF8 0x7FFF8 exit_addr, s') \<and> fixture_running a m s'"
proof -
  note R = rd [unfolded process_ready_def]
  have room: "unat (bump_next (heap (kern s))) + 0x22000 \<le> unat (bump_limit (heap (kern s)))"
    using R mem [unfolded self_test_memory_def] by simp
  obtain s' ub where la: "launch_process stub exit_addr (fixture_process a) False s = Inr (User_Mode (Some (a + 0x3000)) (a + 0x2000) 0x7FFF8 0x7FFF8 exit_addr, s')"
      "current_thread (kern s') = Some 0" "pt_wf (mach (kern s')) (a + 0x3000)"
      "\<forall>x. frame_of x \<notin> tables (mach (kern s)) (a + 0x3000) \<union> free_frames (falloc (mach (kern s))) \<longrightarrow> \<not> unat (bump_next (heap (kern s))) \<le> unat x \<longrightarrow>
         os_mem s' x = os_mem s x"
      "\<forall>j<65536. translate (mach (kern s')) (a + 0x3000) (0x70000 + of_nat j) = Some (ub + of_nat j)" "unat (bump_next (heap (kern s))) \<le> unat ub"
      "\<forall>w. \<not> (0x70 \<le> page_no w \<and> page_no w < 0x80) \<longrightarrow>
         translate (mach (kern s')) (a + 0x3000) w = translate (mach (kern s)) (a + 0x3000) w"
    by (rule launch_run [of s "a + 0x3000" "fixture_process a" "a + 0x2000", OF _ _ _ _ _ room heap_below_tables [OF mem rd]])
      (use R in \<open>simp_all add: fixture_process_def\<close>)
  have "fixture_running a m s'"
    using la(2,3,5,7) R text_survives [OF mem rd la(4)] by (auto simp: fixture_running_def)
  then show ?thesis using la(1) by blast
qed

lemma self_test_run:
  assumes init: "files s = vfs_init static_vfs" "handles s = initial_handles" "fresh_threads (kern s)"
    and mem: "self_test_memory a (mach (kern s)) (heap (kern s))"
  shows "\<exists>s'. self_test MINIMAL_PE64 stub exit_addr s =
      Inr (Some (User_Mode (Some (a + 0x3000)) (a + 0x2000) 0x7FFF8 0x7FFF8 exit_addr), s') \<and> fixture_running a (mach (kern s)) s'"
proof -
  let ?m = "mach (kern s)"
  note M = mem [unfolded self_test_memory_def]
  have inv: "fa_inv (falloc ?m)" and r8: "frame_run a (Suc 7) (falloc ?m)" using M by (simp_all add: pt_wf_def)
  obtain fa1 where al: "alloc_frame ?m = (Some a, ?m\<lparr>falloc := fa1\<rparr>)" "fa_inv fa1" "frame_run (a + 4096) 7 fa1"
      "free_frames fa1 = free_frames (falloc ?m) - {a}" "a \<in> free_frames (falloc ?m)"
    by (rule alloc_frame_run [OF inv r8]) blast
  obtain s1 v where s1: "install_fixture MINIMAL_PE64 s = Inr s1" "create_user_process TEST_EXE s1 = load_pe (bump_next (heap (kern s)), 1024) 1
      (s\<lparr>files := v, kern := (kern s)\<lparr>heap := (heap (kern s))\<lparr>bump_next := bump_next (heap (kern s)) + 1024\<rparr>, mach := fixture_read a fa1 ?m (heap (kern s))\<rparr>\<rparr>)"
    using fixture_file_read [OF init(1) mem al(1) free_frame_bounds(1) [OF inv al(5)]] by blast
  obtain s3 where s3: "create_user_process TEST_EXE s1 = Inr (Some (1, False), s3)" "process_ready a ?m (heap (kern s)) s3"
    using fixture_process_loads [OF init(2,3) mem al(2,4,5,3) refl] unfolding s1(2) by blast
  then obtain ptr where "lookup (handles s3) 1 = Some \<lparr>obj_kind = ObjectKind.Process, obj_data = ptr\<rparr>" "procs s3 ptr = Some (fixture_process a)"
    by (auto simp: process_ready_def)
  moreover obtain s' where "launch_process stub exit_addr (fixture_process a) False s3 =
      Inr (User_Mode (Some (a + 0x3000)) (a + 0x2000) 0x7FFF8 0x7FFF8 exit_addr, s')" "fixture_running a ?m s'"
    using fixture_launches [OF mem s3(2)] by blast
  ultimately show ?thesis using s1(1) s3(1) by (simp add: self_test_def)
qed

section \<open>Boot\<close>

lemma boot_run:
  assumes mem: "boot_memory regions = Inr (fa, h)" "self_test_memory a (m\<lparr>falloc := fa, kernel_cr3 := cr3\<rparr>) h"
  shows "\<exists>s'. kernel_main MINIMAL_PE64 stub exit_addr cr3 regions framebuffer (static_os m) =
      Inr (Launched (User_Mode (Some (a + 0x3000)) (a + 0x2000) 0x7FFF8 0x7FFF8 exit_addr) s') \<and>
    fixture_running a (m\<lparr>falloc := fa, kernel_cr3 := cr3\<rparr>) s'"
proof -
  let ?s = "with_memory fa h cr3 (kernel_init (static_os m))"
  have s: "files ?s = vfs_init static_vfs" "handles ?s = initial_handles" "fresh_threads (kern ?s)" "heap (kern ?s) = h"
      "mach (kern ?s) = m\<lparr>falloc := fa, kernel_cr3 := cr3\<rparr>"
    by (simp_all add: with_memory_def kernel_init_def win32_init_def init_syscall_table_def nt_init_def static_os_def initial_kernel_def
        fresh_threads_def capture_kernel_page_table_def)
  show ?thesis using self_test_run [OF s(1-3), of a stub exit_addr] s(4,5) mem by (auto simp: kernel_main_def)
qed

text \<open>C4: Booting with a memory map that leaves eight consecutive lowest free frames below the early heap ends in the fixture program:
  the file is written, read back, parsed and loaded, a thread is created and control goes to user mode with the process's own page table
  (the frame right after the image) and the top of the mapped user stack. The program's text is in memory at the entry point, the preferred
  page of its section and the user stack are mapped, and everything else translates as in the kernel's page table.\<close>

theorem boot_launches_fixture:
  assumes mem: "boot_memory regions = Inr (fa, h)" "self_test_memory a (m\<lparr>falloc := fa, kernel_cr3 := cr3\<rparr>) h"
  shows "\<exists>s'. kernel_main MINIMAL_PE64 stub exit_addr cr3 regions framebuffer (static_os m) =
      Inr (Launched (User_Mode (Some (a + 0x3000)) (a + 0x2000) 0x7FFF8 0x7FFF8 exit_addr) s') \<and>
    fixture_running a (m\<lparr>falloc := fa, kernel_cr3 := cr3\<rparr>) s'"
  by (rule boot_run [OF mem])

text \<open>A machine with conventional memory, a page-table root in the reserved hole above it, and seven megabytes of extended memory.\<close>

definition pc_map :: "MemoryRegion list" where
  "pc_map = [\<lparr>region_start = 0, region_end = 0x1000, region_kind = Reserved\<rparr>, \<lparr>region_start = 0x1000, region_end = 0x9F000, region_kind = Usable\<rparr>,
     \<lparr>region_start = 0x9F000, region_end = 0x100000, region_kind = Reserved\<rparr>, \<lparr>region_start = 0x100000, region_end = 0x800000, region_kind = Usable\<rparr>]"

lemma pc_map_sane: "sane_map pc_map"
proof -
  have "usable_frame pc_map 0x100000" by (simp add: usable_frame_def pc_map_def page_aligned_def)
  then show ?thesis unfolding sane_map_def by (auto simp: pc_map_def usable_sizes_def)
qed

lemma pc_boot_memory:
  obtains fa where "boot_memory pc_map = Inr (fa, init_heap 0x100000 0x800000 new_bump)" "init_frames pc_map = Inr fa"
proof -
  obtain fa where "init_frames pc_map = Inr fa" using init_frames_ok [OF pc_map_sane] by blast
  then show ?thesis using that by (simp add: boot_memory_def collect_regions_def pc_map_def chk_defs)
qed

lemma pc_free_frames:
  assumes "init_frames pc_map = Inr fa"
  shows "fa_inv fa" "unat (bitmap_addr fa) = 0x1000" "bitmap_words fa = 32" "free_frames fa = {f. usable_frame pc_map f \<and> 0x1100 < unat f}"
proof -
  note S = init_frames_spec [OF assms]
  have "compute_usable_range_from pc_map (- 1) 0 0 = Inr (0x1000, 0x800000, 0x79E000)" by (simp add: pc_map_def chk_defs)
  then show b: "unat (bitmap_addr fa) = 0x1000" "bitmap_words fa = 32" using S(3) by auto
  show "fa_inv fa" by (rule S(1))
  show "free_frames fa = {f. usable_frame pc_map f \<and> 0x1100 < unat f}" unfolding S(4) b by simp
qed

lemma pc_frame_run:
  assumes "init_frames pc_map = Inr fa"
  shows "frame_run 0x2000 100 fa"
  unfolding frame_run_def pc_free_frames(4) [OF assms]
proof (intro conjI allI impI ballI)
  fix i :: nat assume i: "i < 100"
  have u: "unat (0x2000 + of_nat (4096 * i) :: u64) = 0x2000 + 4096 * i" using i by (simp add: unat_word_ariths unat_of_nat)
  then have "page_aligned (0x2000 + of_nat (4096 * i) :: u64)" unfolding page_aligned_iff u by simp
  then show "0x2000 + of_nat (4096 * i) \<in> {f. usable_frame pc_map f \<and> 0x1100 < unat f}"
    using i u unfolding usable_frame_def by (simp add: pc_map_def)
next
  fix g :: u64 assume g: "g \<in> {f. usable_frame pc_map f \<and> 0x1100 < unat f}"
  then have "unat g mod 4096 = 0" "0x1100 < unat g" by (simp_all add: usable_frame_def page_aligned_iff)
  then have "0x2000 \<le> unat g" by (auto simp: mod_eq_0_iff_dvd elim!: dvdE)
  then show "0x2000 \<le> g" by (simp add: word_le_nat_alt)
qed

definition pc_machine :: machine where
  "pc_machine = \<lparr>phys = (\<lambda>_. 0), falloc = new_frame_allocator, kernel_cr3 = 0\<rparr>"

lemma pc_self_test_memory:
  assumes "init_frames pc_map = Inr fa"
  shows "self_test_memory 0x2000 (pc_machine\<lparr>falloc := fa, kernel_cr3 := 0xA0000\<rparr>) (init_heap 0x100000 0x800000 new_bump)"
proof -
  let ?m = "pc_machine\<lparr>falloc := fa, kernel_cr3 := 0xA0000\<rparr>"
  note P = pc_free_frames [OF assms] and R = pc_frame_run [OF assms]
  have "le_nat (replicate 8 0) = 0" by (simp add: numeral_eq_Suc)
  then have z: "read_entry ?m 0xA0000 i = 0" for i by (simp add: read_entry_def pc_machine_def read_u64_def read_bytes_def map_replicate_const from_le_def)
  have al: "page_aligned (0xA0000 :: u64)" by (simp add: page_aligned_def)
  have "0xA0000 \<notin> free_frames fa" unfolding P(4) by (simp add: usable_frame_def pc_map_def)
  then have "pt_wf ?m 0xA0000" by (intro pt_wf_zero_root(1)) (use z P(1) al in simp_all)
  moreover have "tables ?m 0xA0000 = {0xA0000}"
    using table_at_zero_root [OF al z] by (auto simp: tables_def path_ok_def split: if_splits intro!: exI [of _ "[]"])
  moreover have "100 \<le> card (free_frames fa)" using frame_run_card [OF P(1) R] by (metis card_mono finite_free_frames)
  moreover have "frame_run 0x2000 8 fa" using R by (simp add: frame_run_def)
  ultimately show ?thesis
    using P(2,3) by (simp add: self_test_memory_def bump_inv_def init_heap_def frame_of_def)
qed

theorem boot_launches_fixture_witness:
  "\<exists>fa h s'. boot_memory pc_map = Inr (fa, h) \<and> self_test_memory 0x2000 (pc_machine\<lparr>falloc := fa, kernel_cr3 := 0xA0000\<rparr>) h \<and>
    kernel_main MINIMAL_PE64 0x40 0x80 0xA0000 pc_map None (static_os pc_machine) =
      Inr (Launched (User_Mode (Some 0x5000) 0x4000 0x7FFF8 0x7FFF8 0x80) s') \<and> text_at 0x4000 (os_mem s')"
proof -
  obtain fa where b: "boot_memory pc_map = Inr (fa, init_heap 0x100000 0x800000 new_bump)" "init_frames pc_map = Inr fa"
    by (rule pc_boot_memory)
  from boot_launches_fixture [OF b(1) pc_self_test_memory [OF b(2)], of "0x40" "0x80" None] b(1) pc_self_test_memory [OF b(2)]
  show ?thesis by (auto simp: fixture_running_def)
qed

end
