(* ===== verification/Boot_Conversion.thy ===== *)
theory Boot_Conversion
  imports Self_Test
begin

text \<open>
  From the bootloader's view of the machine to the kernel's: the \<^verbatim>\<open>From\<close> implementations of \<^verbatim>\<open>kernel/src/boot_info.rs\<close> and the
  x86_64 entry point of \<^verbatim>\<open>main.rs\<close> over them. The types of the \<^verbatim>\<open>bootloader_api\<close> crate are open enumerations; each becomes a datatype of the cases that
  the conversions tell apart, with one constructor for all others.
\<close>

section \<open>The conversions\<close>

datatype BootRegionKind = Boot_Usable | Boot_Bootloader | Boot_UnknownUefi u32 | Boot_Other_Kind

record BootRegion =
  boot_start :: u64
  boot_end :: u64
  boot_kind :: BootRegionKind

datatype BootPixelFormat = Boot_Rgb | Boot_Bgr | Boot_U8 | Boot_Unknown u8 u8 u8 | Boot_Other_Format

record BootFrameBufferInfo =
  boot_width :: nat
  boot_height :: nat
  boot_stride :: nat
  boot_bytes_per_pixel :: nat
  boot_pixel_format :: BootPixelFormat

record BootInfo =
  memory_regions :: "BootRegion list"
  framebuffer :: "(bytes \<times> BootFrameBufferInfo) option"

fun kind_from :: "BootRegionKind \<Rightarrow> MemoryRegionKind" where
  "kind_from Boot_Usable = Usable"
| "kind_from Boot_Bootloader = Bootloader"
| "kind_from (Boot_UnknownUefi _) = UnknownRegion"
| "kind_from Boot_Other_Kind = Reserved"

definition region_from :: "BootRegion \<Rightarrow> MemoryRegion" where
  "region_from r = \<lparr>region_start = boot_start r, region_end = boot_end r, region_kind = kind_from (boot_kind r)\<rparr>"

fun pixel_format_from :: "BootPixelFormat \<Rightarrow> PixelFormat" where
  "pixel_format_from Boot_Rgb = Rgb"
| "pixel_format_from Boot_Bgr = Bgr"
| "pixel_format_from Boot_U8 = U8"
| "pixel_format_from (Boot_Unknown r g b) = UnknownFormat r g b"
| "pixel_format_from Boot_Other_Format = Rgb"

definition info_from :: "BootFrameBufferInfo \<Rightarrow> FrameBufferInfo" where
  "info_from i = \<lparr>fb_width = boot_width i, fb_height = boot_height i, fb_stride = boot_stride i, fb_bytes_per_pixel = boot_bytes_per_pixel i,
     fb_pixel_format = pixel_format_from (boot_pixel_format i)\<rparr>"

text \<open>The entry point the bootloader calls.\<close>

definition x86_64_entry :: "u64 \<Rightarrow> u64 \<Rightarrow> u64 \<Rightarrow> BootInfo \<Rightarrow> os \<Rightarrow> outcome_of_boot res" where
  "x86_64_entry stub exit_addr cr3_register b s =
     kernel_main MINIMAL_PE64 stub exit_addr cr3_register (map region_from (memory_regions b))
       (map_option (map_prod id info_from) (framebuffer b)) s"

section \<open>Properties\<close>

lemma kind_from_usable: "kind_from k = Usable \<longleftrightarrow> k = Boot_Usable"
  by (cases k) simp_all

lemma region_from_usable: "region_kind (region_from r) = Usable \<longleftrightarrow> boot_kind r = Boot_Usable"
  by (simp add: region_from_def kind_from_usable)

text \<open>A byte range inside one of the regions the bootloader reports as usable.\<close>

definition inside_usable :: "BootRegion list \<Rightarrow> nat \<Rightarrow> nat \<Rightarrow> bool" where
  "inside_usable rs lo hi \<longleftrightarrow> (\<exists>r\<in>set rs. boot_kind r = Boot_Usable \<and> unat (boot_start r) \<le> lo \<and> hi \<le> unat (boot_end r))"

lemma usable_frame_from:
  "usable_frame (map region_from rs) f \<longleftrightarrow> page_aligned f \<and> inside_usable rs (unat f) (unat f + 4096)"
  by (auto simp: usable_frame_def inside_usable_def region_from_usable) (auto simp: region_from_def)

text \<open>The lowest start of a usable region.\<close>

lemma usable_range_low:
  assumes "compute_usable_range_from rs lo hi tot = Inr (lo', hi', tot')"
  shows "(lo' = lo \<or> (\<exists>r\<in>set rs. region_kind r = Usable \<and> lo' = region_start r)) \<and> lo' \<le> lo \<and>
    (\<forall>r\<in>set rs. region_kind r = Usable \<longrightarrow> lo' \<le> region_start r)"
  using assms
proof (induction rs arbitrary: lo hi tot)
  case (Cons r rs)
  show ?case
  proof (cases "region_kind r = Usable")
    case True
    then obtain hi1 tot1 where "compute_usable_range_from rs (if region_start r < lo then region_start r else lo) hi1 tot1 = Inr (lo', hi', tot')"
      using Cons.prems by (auto simp: bind_res_Inr_iff)
    from Cons.IH [OF this] True show ?thesis by (auto split: if_splits)
  qed (use Cons in auto)
qed simp

lemma bitmap_at_lowest_usable:
  assumes "init_frames (map region_from rs) = Inr fa"
  shows "\<exists>r\<in>set rs. boot_kind r = Boot_Usable \<and> (\<forall>q\<in>set rs. boot_kind q = Boot_Usable \<longrightarrow> boot_start r \<le> boot_start q) \<and>
    unat (bitmap_addr fa) = 4096 * ((unat (boot_start r) + 4095) div 4096)"
proof -
  obtain lo hi tot where r: "compute_usable_range_from (map region_from rs) (- 1) 0 0 = Inr (lo, hi, tot)"
      "unat (bitmap_addr fa) = 4096 * ((unat lo + 4095) div 4096)"
    using init_frames_spec(3) [OF assms] by blast
  have "lo \<noteq> - 1"
  proof
    assume "lo = - 1"
    then have "unat (bitmap_addr fa) = 2 ^ 64" using r(2) by (simp add: unsigned_minus_1_eq_mask mask_eq_exp_minus_1)
    then show False using unat_u64_less [of "bitmap_addr fa"] by (simp del: unat_u64_less)
  qed
  then show ?thesis using usable_range_low [OF r(1)] r(2) by (auto simp: region_from_usable) (auto simp: region_from_def)
qed

text \<open>C13: which memory the kernel takes at boot. Whatever the memory map, if the set-up of \<open>kernel_main\<close> returns, the frames of the
  allocator are exactly the page-aligned frames inside one of the first 64 regions that is of the bootloader's usable kind (never its own,
  firmware's or an unknown one) and beyond the allocator's bitmap, and the early heap is empty or one whole usable region of at
  least 1 MiB. The bitmap is written from the first page boundary at or above the lowest start of a usable region among these 64, one bit for each
  frame the allocator manages, rounded up to words; it lies in that region if it fits before the region's end, which nothing checks.\<close>

theorem boot_memory_usable_only:
  assumes "boot_memory (map region_from rs) = Inr (fa, h)"
  shows "free_frames fa = {f. page_aligned f \<and> inside_usable (take 64 rs) (unat f) (unat f + 4096) \<and>
      unat (bitmap_addr fa) + 8 * bitmap_words fa < unat f} \<and>
    (bump_limit h = 0 \<and> bump_base h = 0 \<or>
      unat (bump_base h) + 0x100000 \<le> unat (bump_limit h) \<and> inside_usable rs (unat (bump_base h)) (unat (bump_limit h))) \<and>
    (\<exists>r\<in>set (take 64 rs). boot_kind r = Boot_Usable \<and>
      (\<forall>q\<in>set (take 64 rs). boot_kind q = Boot_Usable \<longrightarrow> boot_start r \<le> boot_start q) \<and>
      unat (bitmap_addr fa) = 4096 * ((unat (boot_start r) + 4095) div 4096) \<and>
      bitmap_words fa = (frame_count fa + 63) div 64 \<and>
      (unat (bitmap_addr fa) + 8 * bitmap_words fa \<le> unat (boot_end r) \<longrightarrow>
        inside_usable (take 64 rs) (unat (bitmap_addr fa)) (unat (bitmap_addr fa) + 8 * bitmap_words fa)))"
proof -
  from assms obtain u where u: "find_heap_region (map region_from rs) = Inr u"
    and fa: "init_frames (map region_from (take 64 rs)) = Inr fa"
    and h: "h = (case u of None \<Rightarrow> new_bump | Some r \<Rightarrow> init_heap (region_start r) (region_end r) new_bump)"
    by (auto simp: boot_memory_def bind_res_Inr_iff collect_regions_def take_map)
  have heap: "bump_limit h = 0 \<and> bump_base h = 0 \<or>
      unat (bump_base h) + 0x100000 \<le> unat (bump_limit h) \<and> inside_usable rs (unat (bump_base h)) (unat (bump_limit h))"
  proof (cases u)
    case None
    then show ?thesis by (simp add: h new_bump_def)
  next
    case (Some q)
    note F = find_heap_region_Some [OF u [unfolded Some]]
    obtain r where r: "r \<in> set rs" "q = region_from r" using F(1) by auto
    then show ?thesis using F(2,3) by (auto simp: h Some init_heap_def inside_usable_def region_from_usable) (auto simp: region_from_def)
  qed
  obtain r where r: "r \<in> set (take 64 rs)" "boot_kind r = Boot_Usable"
      "\<forall>q\<in>set (take 64 rs). boot_kind q = Boot_Usable \<longrightarrow> boot_start r \<le> boot_start q"
      "unat (bitmap_addr fa) = 4096 * ((unat (boot_start r) + 4095) div 4096)"
    using bitmap_at_lowest_usable [OF fa] by blast
  moreover have "unat (boot_start r) \<le> unat (bitmap_addr fa)" using r(4) by linarith
  then have "inside_usable (take 64 rs) (unat (bitmap_addr fa)) (unat (bitmap_addr fa) + 8 * bitmap_words fa)"
    if "unat (bitmap_addr fa) + 8 * bitmap_words fa \<le> unat (boot_end r)"
    using that r(1,2) unfolding inside_usable_def by blast
  moreover have "bitmap_words fa = (frame_count fa + 63) div 64" using init_frames_spec(1) [OF fa] by (simp add: fa_inv_def)
  moreover have "free_frames fa = {f. page_aligned f \<and> inside_usable (take 64 rs) (unat f) (unat f + 4096) \<and>
        unat (bitmap_addr fa) + 8 * bitmap_words fa < unat f}"
    unfolding init_frames_spec(4) [OF fa] usable_frame_from by blast
  ultimately show ?thesis using heap by blast
qed

definition pc_boot_info :: BootInfo where
  "pc_boot_info = \<lparr>memory_regions = [\<lparr>boot_start = 0, boot_end = 0x1000, boot_kind = Boot_Other_Kind\<rparr>,
       \<lparr>boot_start = 0x1000, boot_end = 0x9F000, boot_kind = Boot_Usable\<rparr>, \<lparr>boot_start = 0x9F000, boot_end = 0x100000, boot_kind = Boot_Other_Kind\<rparr>,
       \<lparr>boot_start = 0x100000, boot_end = 0x800000, boot_kind = Boot_Usable\<rparr>],
     framebuffer = None\<rparr>"

lemma pc_boot_info_map: "map region_from (memory_regions pc_boot_info) = pc_map"
  by (simp add: pc_boot_info_def pc_map_def region_from_def)

theorem boot_memory_usable_only_witness:
  "\<exists>fa h. boot_memory (map region_from (memory_regions pc_boot_info)) = Inr (fa, h) \<and> bump_base h = 0x100000 \<and>
     inside_usable (memory_regions pc_boot_info) (unat (bump_base h)) (unat (bump_limit h))"
proof -
  obtain fa where b: "boot_memory pc_map = Inr (fa, init_heap 0x100000 0x800000 new_bump)" by (rule pc_boot_memory)
  have "boot_memory (map region_from (memory_regions pc_boot_info)) = Inr (fa, init_heap 0x100000 0x800000 new_bump)"
    using b unfolding pc_boot_info_map .
  from boot_memory_usable_only [OF this] this show ?thesis by (auto simp: init_heap_def)
qed

text \<open>A map whose lowest usable region is one page long, with 256 MiB more from 256 MiB on: the bitmap takes 16 KiB and runs
  12 KiB into the reserved memory behind that page.\<close>

definition small_low_map :: "BootRegion list" where
  "small_low_map = [\<lparr>boot_start = 0x1000, boot_end = 0x2000, boot_kind = Boot_Usable\<rparr>,
     \<lparr>boot_start = 0x2000, boot_end = 0x10000000, boot_kind = Boot_Other_Kind\<rparr>,
     \<lparr>boot_start = 0x10000000, boot_end = 0x20000000, boot_kind = Boot_Usable\<rparr>]"

theorem bitmap_overruns_small_region:
  "\<exists>fa h. boot_memory (map region_from small_low_map) = Inr (fa, h) \<and> unat (bitmap_addr fa) = 0x1000 \<and> 8 * bitmap_words fa = 0x4000 \<and>
     (\<forall>x. 0x2000 \<le> x \<longrightarrow> x < 0x5000 \<longrightarrow> \<not> inside_usable small_low_map x (x + 1))"
proof -
  let ?rs = "map region_from small_low_map"
  have "inside_usable small_low_map (unat (0x1000 :: u64)) (unat (0x1000 :: u64) + 4096)" "page_aligned 0x1000"
    by (simp_all add: inside_usable_def small_low_map_def page_aligned_def)
  then have "usable_frame ?rs 0x1000" unfolding usable_frame_from by blast
  then have "sane_map ?rs" by (auto simp: sane_map_def small_low_map_def region_from_def usable_sizes_def)
  then obtain fa where i: "init_frames ?rs = Inr fa" using init_frames_ok by blast
  have "compute_usable_range_from ?rs (- 1) 0 0 = Inr (0x1000, 0x20000000, 0x10001000)"
    by (simp add: small_low_map_def region_from_def chk_defs)
  then have "unat (bitmap_addr fa) = 0x1000" "8 * bitmap_words fa = 0x4000" using init_frames_spec(3) [OF i] by auto
  moreover have "\<exists>h. boot_memory ?rs = Inr (fa, h)"
    using i by (simp add: boot_memory_def collect_regions_def small_low_map_def region_from_def chk_defs)
  moreover have "\<not> inside_usable small_low_map x (x + 1)" if "0x2000 \<le> x" "x < 0x5000" for x
    using that by (auto simp: inside_usable_def small_low_map_def)
  ultimately show ?thesis by blast
qed

text \<open>The PC of \<^const>\<open>pc_map\<close> from its entry point: the fixture program runs.\<close>

theorem pc_boots:
  "\<exists>s'. x86_64_entry stub exit_addr 0xA0000 pc_boot_info (static_os pc_machine) =
     Inr (Launched (User_Mode (Some 0x5000) 0x4000 0x7FFF8 0x7FFF8 exit_addr) s') \<and> text_at 0x4000 (os_mem s')"
proof -
  obtain fa where b: "boot_memory pc_map = Inr (fa, init_heap 0x100000 0x800000 new_bump)" "init_frames pc_map = Inr fa"
    by (rule pc_boot_memory)
  from boot_run [OF b(1) pc_self_test_memory [OF b(2)], of stub exit_addr None] show ?thesis
    unfolding x86_64_entry_def pc_boot_info_map by (auto simp: pc_boot_info_def fixture_running_def)
qed

end
