(* ===== verification/Interrupt_Table.thy ===== *)
theory Interrupt_Table
  imports Syscall_Entry Ps2
begin

text \<open>
  The interrupt descriptor table and the exception handlers (\<^verbatim>\<open>kernel/src/arch/x86_64/interrupts.rs\<close>), the segment registers
  (\<^verbatim>\<open>gdt.rs\<close>) and the initialisation of the architecture. The table belongs to the \<^verbatim>\<open>x86_64\<close> crate: its type and the two
  operations the kernel calls on an entry, to set its handler and its stack index, are arguments.
\<close>

section \<open>The table\<close>

datatype Handler =
  Breakpoint_Handler | Double_Fault_Handler | Page_Fault_Handler | Timer_Handler | Keyboard_Handler | Mouse_Handler

text \<open>\<^verbatim>\<open>IDT.breakpoint\<close>, \<^verbatim>\<open>IDT.double_fault\<close> and \<^verbatim>\<open>IDT.page_fault\<close> are vectors 3, 8 and 14.\<close>

definition idt_init :: "(nat \<Rightarrow> Handler \<Rightarrow> 'i \<Rightarrow> 'i) \<Rightarrow> (nat \<Rightarrow> u16 \<Rightarrow> 'i \<Rightarrow> 'i) \<Rightarrow> 'i \<Rightarrow> 'i" where
  "idt_init set_handler set_stack_index t0 =
     (let t1 = set_handler 3 Breakpoint_Handler t0;
          t2 = set_stack_index 8 1 (set_handler 8 Double_Fault_Handler t1);
          t3 = set_handler 14 Page_Fault_Handler t2;
          t4 = set_handler 32 Timer_Handler t3;
          t5 = set_handler 33 Keyboard_Handler t4
      in set_handler 44 Mouse_Handler t5)"

text \<open>The whole of \<open>init\<close>: the table, then the controllers and the mouse.\<close>

definition interrupts_start ::
  "(nat \<Rightarrow> Handler \<Rightarrow> 'i \<Rightarrow> 'i) \<Rightarrow> (nat \<Rightarrow> u16 \<Rightarrow> 'i \<Rightarrow> 'i) \<Rightarrow> u8 \<Rightarrow> u8 \<Rightarrow> 'i \<times> ps2 \<Rightarrow> ('i \<times> ps2) option" where
  "interrupts_start set_handler set_stack_index a1 a2 =
     (\<lambda>(t, d). map_option (Pair (idt_init set_handler set_stack_index t)) (interrupts_init a1 a2 d))"

section \<open>The exception handlers\<close>

text \<open>Apart from its log line a handler either returns to the interrupted instruction or halts.\<close>

datatype resumption = Resume u64 | Halted

definition breakpoint_handler :: "u64 \<Rightarrow> resumption" where
  "breakpoint_handler rip = Resume rip"

definition double_fault_handler :: "u64 \<Rightarrow> u64 \<Rightarrow> resumption" where
  "double_fault_handler rip error_code = Halted"

definition page_fault_handler :: "u64 \<Rightarrow> u64 \<Rightarrow> resumption" where
  "page_fault_handler rip error_code = Resume rip"

section \<open>Segment registers\<close>

record segments =
  seg_cs :: u16
  seg_ss :: u16
  seg_ds :: u16
  seg_es :: u16
  seg_fs :: u16
  seg_gs :: u16
  seg_tr :: u16

definition load_segments :: "Selectors \<Rightarrow> segments" where
  "load_segments sel = \<lparr>seg_cs = kernel_code sel, seg_ss = kernel_data sel, seg_ds = 0, seg_es = 0, seg_fs = 0, seg_gs = 0,
     seg_tr = tss_selector sel\<rparr>"

definition gdt_init ::
  "(Descriptor \<Rightarrow> 't \<Rightarrow> u16 \<times> 't) \<Rightarrow> u64 \<Rightarrow> u64 \<Rightarrow> tss \<times> 't \<Rightarrow> tss \<times> 't \<times> Selectors \<times> segments" where
  "gdt_init append_desc ring0_stack double_fault_stack =
     (\<lambda>(t, g). let t' = gdt_tss ring0_stack double_fault_stack t; (sel, g') = gdt_selectors append_desc g
      in (t', g', sel, load_segments sel))"

section \<open>Initialising the architecture\<close>

text \<open>\<^verbatim>\<open>arch::init\<close> after the serial port: segment table, interrupt table and controllers, system call registers.\<close>

record ('t, 'i) hardware =
  hw_tss :: tss
  hw_gdt :: 't
  hw_idt :: 'i
  hw_ps2 :: ps2
  hw_msrs :: msrs

definition arch_init ::
  "(nat \<Rightarrow> Handler \<Rightarrow> 'i \<Rightarrow> 'i) \<Rightarrow> (nat \<Rightarrow> u16 \<Rightarrow> 'i \<Rightarrow> 'i) \<Rightarrow> (Descriptor \<Rightarrow> 't \<Rightarrow> u16 \<times> 't) \<Rightarrow>
   (u16 \<Rightarrow> u16 \<Rightarrow> u16 \<Rightarrow> u16 \<Rightarrow> u64 option) \<Rightarrow> u64 \<Rightarrow> u64 \<Rightarrow> u64 \<Rightarrow> u8 \<Rightarrow> u8 \<Rightarrow> ('t, 'i) hardware \<Rightarrow>
   (segments \<times> ('t, 'i) hardware) res option" where
  "arch_init set_handler set_stack_index append_desc star_write ring0_stack double_fault_stack handler_addr a1 a2 w =
     (let (t, g, sel, seg) = gdt_init append_desc ring0_stack double_fault_stack (hw_tss w, hw_gdt w)
      in map_option (\<lambda>(i, d). map_res (\<lambda>r. (seg, w\<lparr>hw_tss := t, hw_gdt := g, hw_idt := i, hw_ps2 := d, hw_msrs := r\<rparr>))
             (syscall_init star_write (Some sel) handler_addr (hw_msrs w)))
           (interrupts_start set_handler set_stack_index a1 a2 (hw_idt w, hw_ps2 w)))"

section \<open>Properties\<close>

text \<open>What the crate documents of its table: setting the handler of a vector changes the handler of that vector only, and setting a stack
  index changes no handler.\<close>

definition table_laws ::
  "(nat \<Rightarrow> Handler \<Rightarrow> 'i \<Rightarrow> 'i) \<Rightarrow> (nat \<Rightarrow> u16 \<Rightarrow> 'i \<Rightarrow> 'i) \<Rightarrow> ('i \<Rightarrow> nat \<Rightarrow> Handler option) \<Rightarrow> bool" where
  "table_laws set_handler set_stack_index handler_of \<longleftrightarrow>
     (\<forall>v h t. handler_of (set_handler v h t) = (handler_of t)(v \<mapsto> h)) \<and> (\<forall>v i t. handler_of (set_stack_index v i t) = handler_of t)"

lemma idt_init_handlers:
  assumes "table_laws set_handler set_stack_index handler_of"
  shows "handler_of (idt_init set_handler set_stack_index t) = (handler_of t)(3 \<mapsto> Breakpoint_Handler, 8 \<mapsto> Double_Fault_Handler,
    14 \<mapsto> Page_Fault_Handler, 32 \<mapsto> Timer_Handler, 33 \<mapsto> Keyboard_Handler, 44 \<mapsto> Mouse_Handler)"
  using assms by (simp add: table_laws_def idt_init_def Let_def)

text \<open>Every interrupt line that the masks leave enabled when \<open>init\<close> returns has its handler: the timer on line 0 and the keyboard on
  line 1. The mouse handler is installed, but its line 12 is masked.\<close>

theorem enabled_lines_have_handlers:
  assumes laws: "table_laws set_handler set_stack_index handler_of"
    and run: "interrupts_start set_handler set_stack_index a1 a2 (t0, \<lparr>status_reads = st, data_reads = ds, port_writes = []\<rparr>) = Some (t, d)"
    and "irq_enabled (port_writes d) n"
  shows "n = 0 \<and> handler_of t (32 + n) = Some Timer_Handler \<or> n = 1 \<and> handler_of t (32 + n) = Some Keyboard_Handler"
proof -
  have "t = idt_init set_handler set_stack_index t0" "\<exists>d'. port_writes d = d' @ unmask_irqs"
    using run by (auto simp: interrupts_start_def interrupts_init_def)
  then obtain d' where t: "t = idt_init set_handler set_stack_index t0" and d: "port_writes d = d' @ unmask_irqs" by blast
  have "irq_enabled (port_writes d) n = irq_enabled (remap_pic 0 0 @ unmask_irqs) n"
    unfolding d by (simp add: irq_enabled_def last_write_append unmask_irqs_def PIC1_DATA_def PIC2_DATA_def)
  then have "n = 0 \<or> n = 1" using assms(3) mouse_line_stays_masked by simp
  then show ?thesis unfolding t idt_init_handlers [OF laws] by auto
qed

text \<open>Once the polling loops return, the architecture is up: no panic is possible, the kernel's code segment is loaded, system calls are enabled and
  enter at the given address, and user-mode interrupts go to the static ring-0 stack until the scheduler sets another.\<close>

theorem arch_init_complete:
  assumes "interrupts_init a1 a2 (hw_ps2 w) = Some d" "hw_tss w = new_tss"
  obtains sel g seg w' where "arch_init set_handler set_stack_index append_desc star_write r df h a1 a2 w = Some (Inr (seg, w'))"
    "gdt_selectors append_desc (hw_gdt w) = (sel, g)" "seg_cs seg = kernel_code sel" "seg_ss seg = kernel_data sel"
    "msr_lstar (hw_msrs w') = h" "bit (msr_efer (hw_msrs w')) 0" "hw_idt w' = idt_init set_handler set_stack_index (hw_idt w)"
    "privilege_stack_table (hw_tss w') ! 0 = r + GDT_STACK_SIZE"
proof -
  obtain sel g where sel: "gdt_selectors append_desc (hw_gdt w) = (sel, g)" by fastforce
  have b: "bit (x OR 1) 0" for x :: u64 by (simp add: bit_or_iff)
  show ?thesis
    by (rule that [of "load_segments sel"
          "w\<lparr>hw_tss := gdt_tss r df new_tss, hw_gdt := g, hw_idt := idt_init set_handler set_stack_index (hw_idt w), hw_ps2 := d,
             hw_msrs := projr (syscall_init star_write (Some sel) h (hw_msrs w))\<rparr>", OF _ sel])
      (use assms sel b in \<open>simp_all add: arch_init_def gdt_init_def interrupts_start_def syscall_init_def load_segments_def gdt_tss_def new_tss_def Let_def\<close>)
qed

end
