(* ===== verification/Logger.thy ===== *)
theory Logger
  imports Prelude
begin

text \<open>
  The serial log (\<^verbatim>\<open>kernel/src/logger.rs\<close>, \<open>debug_putchar\<close> of \<^verbatim>\<open>arch/x86_64/mod.rs\<close>) and the panic handler (\<^verbatim>\<open>panic.rs\<close>). A format
  string with its arguments is the list of the pieces that \<^verbatim>\<open>core::fmt\<close> passes to the writer. The rest of the development leaves log output out: by
  the theorem below it only ever appends to the serial line.
\<close>

record log_state =
  logger_set :: bool
  com1 :: bytes

definition no_logger :: log_state where
  "no_logger = \<lparr>logger_set = False, com1 = []\<rparr>"

definition debug_putchar :: "u8 \<Rightarrow> log_state \<Rightarrow> log_state" where
  "debug_putchar b l = l\<lparr>com1 := com1 l @ [b]\<rparr>"

definition write_str :: "bytes \<Rightarrow> log_state \<Rightarrow> log_state" where
  "write_str s l = fold debug_putchar s l"

definition logger_init :: "log_state \<Rightarrow> log_state" where
  "logger_init l = l\<lparr>logger_set := True\<rparr>"

definition print_args :: "bytes list \<Rightarrow> log_state \<Rightarrow> log_state" where
  "print_args pieces l = (if logger_set l then fold write_str pieces l else l)"

definition logln :: "bytes list \<Rightarrow> log_state \<Rightarrow> log_state" where
  "logln pieces = print_args (pieces @ [[10]])"

text \<open>The panic handler logs and halts: the state it leaves behind is final.\<close>

definition panic_handler :: "bytes \<Rightarrow> log_state \<Rightarrow> log_state" where
  "panic_handler info = logln [map of_char ''PANIC: '', info]"

section \<open>Properties\<close>

lemma write_str_com1: "write_str s l = l\<lparr>com1 := com1 l @ s\<rparr>"
  unfolding write_str_def by (induction s arbitrary: l) (simp_all add: debug_putchar_def)

lemma print_args_com1: "print_args pieces l = (if logger_set l then l\<lparr>com1 := com1 l @ concat pieces\<rparr> else l)"
proof -
  have "fold write_str pieces l = l\<lparr>com1 := com1 l @ concat pieces\<rparr>"
    by (induction pieces arbitrary: l) (simp_all add: write_str_com1)
  then show ?thesis by (simp add: print_args_def)
qed

text \<open>Messages before \<open>init\<close> are lost; from then on the serial line carries every message, in order and ended by a line feed, and last the panic.\<close>

theorem log_output:
  "com1 (panic_handler info (fold logln late (logger_init (fold logln early no_logger)))) =
     concat (map (\<lambda>m. concat m @ [10]) late) @ map of_char ''PANIC: '' @ info @ [10]"
proof -
  have early: "fold logln early no_logger = no_logger"
    by (induction early) (simp_all add: logln_def print_args_com1 no_logger_def)
  have late: "logger_set l \<Longrightarrow> fold logln late l = l\<lparr>com1 := com1 l @ concat (map (\<lambda>m. concat m @ [10]) late)\<rparr>" for l
    by (induction late arbitrary: l) (simp_all add: logln_def print_args_com1)
  show ?thesis unfolding early
    by (simp add: late logger_init_def panic_handler_def logln_def print_args_com1 no_logger_def)
qed

end
