(* ===== verification/Aarch64_Layer.thy ===== *)
theory Aarch64_Layer
  imports Logger Syscall_Entry Memory_Properties
begin

text \<open>
  The AArch64 build: the placeholders of \<^verbatim>\<open>kernel/src/arch/aarch64/\<close> and of \<^verbatim>\<open>mm/page_table.rs\<close>, and the memory set-up of its entry point
  \<open>_start\<close> (\<^verbatim>\<open>main.rs\<close>). A function that never returns has the result \<^const>\<open>None\<close>.
\<close>

section \<open>The architecture layer\<close>

definition aarch64_stack_size :: u64 where "aarch64_stack_size = 64 * 1024"

definition aarch64_switch :: "u64 \<Rightarrow> u64 \<Rightarrow> machine \<Rightarrow> machine option" where
  "aarch64_switch old_rsp new_rsp m = None"

definition aarch64_initial_stack :: "u64 \<Rightarrow> u64 \<Rightarrow> mem \<Rightarrow> u64 \<times> mem" where
  "aarch64_initial_stack entry stack_top m = (stack_top, m)"

definition aarch64_set_rsp0 :: "u64 \<Rightarrow> tss \<Rightarrow> tss" where
  "aarch64_set_rsp0 rsp t = t"

definition aarch64_read_scancode :: "u8 option" where "aarch64_read_scancode = None"

definition aarch64_read_char :: "char option" where "aarch64_read_char = None"

definition aarch64_mouse_position :: "int \<times> int" where "aarch64_mouse_position = (0, 0)"

definition aarch64_mouse_buttons :: u8 where "aarch64_mouse_buttons = 0"

definition aarch64_debug_putchar :: "u8 \<Rightarrow> log_state \<Rightarrow> log_state" where
  "aarch64_debug_putchar b l = l"

section \<open>Page tables\<close>

definition aarch64_page_table_new :: "machine \<Rightarrow> u64 option \<times> machine" where
  "aarch64_page_table_new m = (None, m)"

definition aarch64_page_table_map :: "u64 \<Rightarrow> u64 \<Rightarrow> u64 \<Rightarrow> u64 \<Rightarrow> machine \<Rightarrow> bool \<times> machine" where
  "aarch64_page_table_map root virt phys_addr flags m = (False, m)"

definition aarch64_page_table_map_region :: "u64 \<Rightarrow> u64 \<Rightarrow> u64 \<Rightarrow> nat \<Rightarrow> u64 \<Rightarrow> machine \<Rightarrow> bool \<times> machine" where
  "aarch64_page_table_map_region root virt phys_addr pages flags m = (False, m)"

definition aarch64_page_table_translate :: "u64 \<Rightarrow> u64 \<Rightarrow> machine \<Rightarrow> u64 option" where
  "aarch64_page_table_translate root virt m = None"

section \<open>The entry point\<close>

definition aarch64_region :: MemoryRegion where
  "aarch64_region = \<lparr>region_start = 0x40000000, region_end = 0x41000000, region_kind = Usable\<rparr>"

definition aarch64_boot_memory :: "(frame_allocator \<times> bump_allocator) res" where
  "aarch64_boot_memory =
     bind_res (init_frames [aarch64_region]) (\<lambda>fa. Inr (fa, init_heap (region_start aarch64_region) (region_end aarch64_region) new_bump))"

section \<open>Properties\<close>

lemma aarch64_region_sane: "sane_map [aarch64_region]"
proof -
  have "usable_frame [aarch64_region] 0x40000000" by (simp add: usable_frame_def aarch64_region_def page_aligned_def)
  then show ?thesis unfolding sane_map_def by (auto simp: aarch64_region_def usable_sizes_def)
qed

text \<open>The early heap of the AArch64 build starts at the frame allocator's bitmap: set-up never fails, the bitmap is the first 512 bytes of the region, and the
  buffer of the first early allocation, whatever its alignment up to 1 GiB, lies over it. The first buffer of a kilobyte is the one the self-test reads
  its program into.\<close>

theorem aarch64_heap_over_bitmap:
  assumes "k \<le> 30"
  shows "\<exists>fa h h'. aarch64_boot_memory = Inr (fa, h) \<and> bitmap_addr fa = 0x40000000 \<and> 8 * bitmap_words fa = 512 \<and>
    alloc_early 1024 (2 ^ k) h = Inr (Some (bitmap_addr fa), h')"
proof -
  obtain fa where fa: "init_frames [aarch64_region] = Inr fa" using init_frames_ok [OF aarch64_region_sane] by blast
  have "compute_usable_range_from [aarch64_region] (- 1) 0 0 = Inr (0x40000000, 0x41000000, 0x1000000)"
    by (simp add: aarch64_region_def chk_defs)
  then have b: "unat (bitmap_addr fa) = 0x40000000" "bitmap_words fa = 64" using init_frames_spec(3) [OF fa] by auto
  then have a: "bitmap_addr fa = 0x40000000" by (simp add: word_unat_eq_iff)
  have "k \<in> set [0..<31]" using assms by simp
  then have al: "\<exists>h'. alloc_early 1024 (2 ^ k) (init_heap 0x40000000 0x41000000 new_bump) = Inr (Some 0x40000000, h')"
    by (auto simp: upt_rec alloc_early_def bump_allocate_def init_heap_def chk_defs checked_add_def)
  then show ?thesis using fa a b(2) by (simp add: aarch64_boot_memory_def aarch64_region_def)
qed

end
